(* ===== verification/Prelude.thy ===== *)
theory Prelude
  imports Main "HOL-Library.Word"
begin

unbundle bit_operations_syntax

text \<open>
  Shared vocabulary of the development: the machine integers of the C sources, fixed-size
  arrays, the two loop shapes that the kernel uses everywhere (a linear search with an early
  exit and a counted loop over a state), and the lemmas on words, arrays and loops that the
  component theories rest on.

  A C array of a constant size \<open>N\<close> is a function \<open>nat \<Rightarrow> 'a\<close> that the model reads and
  writes below \<open>N\<close> only; a static variable is a field of the component's state record.
  Spin locks are not modelled: every operation is one critical section, and the models are
  about the state the lock protects.
\<close>

section \<open>Machine integers\<close>

type_synonym u8 = "8 word"
type_synonym u16 = "16 word"
type_synonym u32 = "32 word"
type_synonym u64 = "64 word"

named_theorems loop_specs \<open>what the loops of the kernel compute\<close>
named_theorems word_facts \<open>words as natural numbers\<close>

lemma unat_dec_nz [word_facts]: "x \<noteq> 0 \<Longrightarrow> unat (x - 1) = unat x - 1" for x :: "'a::len word"
  by (rule unat_minus_one)

lemma unat_inc_bounded [word_facts]:
  "unat x < 2 ^ LENGTH('a) - 1 \<Longrightarrow> unat (x + 1) = unat x + 1" for x :: "'a::len word"
  by (simp add: unat_word_ariths mod_less)

lemma unat_lt_max64: "unat (x :: u64) < 18446744073709551616"
proof -
  have "unat x < 2 ^ LENGTH(64)"
    by (rule unsigned_less)
  then show ?thesis
    by simp
qed

lemma unat_of_nat64: "n < 2 ^ 64 \<Longrightarrow> unat (of_nat n :: u64) = n"
  by (simp add: unat_of_nat)

lemma of_nat64_eq_iff:
  "m < 2 ^ 64 \<Longrightarrow> n < 2 ^ 64 \<Longrightarrow> (of_nat m :: u64) = of_nat n \<longleftrightarrow> m = n"
  by (metis unat_of_nat64)

section \<open>Modular arithmetic\<close>

lemma mod_add_inj:
  assumes "(a + j) mod n = (a + k) mod n" "j < n" "k < (n::nat)"
  shows "j = k"
proof -
  have le: "j = k" if "(a + j) mod n = (a + k) mod n" "j \<le> k" "k < n" for j k
  proof -
    have "n dvd (a + k) - (a + j)"
      using that by (metis add_le_mono1 add.commute mod_eq_dvd_iff_nat)
    then have "n dvd k - j" by simp
    with that show ?thesis
      by (metis diff_is_0_eq dvd_imp_le le_antisym less_imp_diff_less not_le zero_less_diff)
  qed
  show ?thesis
    using le [of j k] le [of k j] assms by (metis nat_le_linear)
qed

lemma mod_add_surj:
  assumes "i < n" "a < (n::nat)"
  shows "\<exists>k < n. i = (a + k) mod n"
proof (cases "a \<le> i")
  case True
  with assms show ?thesis
    by (intro exI [of _ "i - a"]) auto
next
  case False
  with assms show ?thesis
    by (intro exI [of _ "i + n - a"]) auto
qed

section \<open>Loops\<close>

text \<open>
  \<^verbatim>\<open>for (i = lo; i < hi; ++i) if (P(i)) return i;\<close> with a fall-through: the first index of
  the range where the test succeeds, \<^const>\<open>None\<close> when there is none.
\<close>

function find_from :: "(nat \<Rightarrow> bool) \<Rightarrow> nat \<Rightarrow> nat \<Rightarrow> nat option" where
  "find_from P lo hi = (if lo < hi then if P lo then Some lo else find_from P (Suc lo) hi else None)"
  by pat_completeness auto
termination
  by (relation "measure (\<lambda>(P, lo, hi). hi - lo)") auto

declare find_from.simps [simp del]

lemma find_from_Some [loop_specs]:
  "find_from P lo hi = Some i \<longleftrightarrow> lo \<le> i \<and> i < hi \<and> P i \<and> (\<forall>j. lo \<le> j \<and> j < i \<longrightarrow> \<not> P j)"
proof (induction P lo hi rule: find_from.induct)
  case (1 P lo hi)
  show ?case
  proof (cases "lo < hi \<and> \<not> P lo")
    case True
    then have "find_from P lo hi = find_from P (Suc lo) hi"
      by (subst find_from.simps) simp
    with 1 True show ?thesis
      by (metis Suc_le_eq Suc_leD le_eq_less_or_eq)
  next
    case False
    then show ?thesis
      by (subst find_from.simps) (auto simp: le_less)
  qed
qed

lemma find_from_None [loop_specs]:
  "find_from P lo hi = None \<longleftrightarrow> (\<forall>i. lo \<le> i \<and> i < hi \<longrightarrow> \<not> P i)"
proof (induction P lo hi rule: find_from.induct)
  case (1 P lo hi)
  show ?case
  proof (cases "lo < hi \<and> \<not> P lo")
    case True
    then have "find_from P lo hi = find_from P (Suc lo) hi"
      by (subst find_from.simps) simp
    with 1 True show ?thesis
      by (metis Suc_le_eq Suc_leD le_eq_less_or_eq)
  next
    case False
    then show ?thesis
      by (subst find_from.simps) auto
  qed
qed

lemma find_from_cong:
  assumes "\<And>i. lo \<le> i \<Longrightarrow> i < hi \<Longrightarrow> P i = Q i"
  shows "find_from P lo hi = find_from Q lo hi"
  using assms
proof (induction P lo hi rule: find_from.induct)
  case (1 P lo hi)
  show ?case
  proof (cases "lo < hi")
    case True
    with 1 show ?thesis
      by (subst (1 2) find_from.simps) auto
  next
    case False
    then show ?thesis
      by (subst (1 2) find_from.simps) simp
  qed
qed

text \<open>
  \<^verbatim>\<open>for (i = lo; i < hi; ++i) s = body(i, s);\<close> is \<^term>\<open>fold body [lo..<hi] s\<close>; the rule
  below carries an invariant that may mention the index through it.
\<close>

lemma fold_upt_invariant [loop_specs]:
  assumes "P lo s" and "lo \<le> hi"
    and "\<And>i s. lo \<le> i \<Longrightarrow> i < hi \<Longrightarrow> P i s \<Longrightarrow> P (Suc i) (f i s)"
  shows "P hi (fold f [lo..<hi] s)"
  using assms(2,3)
proof (induction hi rule: dec_induct)
  case base
  show ?case using assms(1) by simp
next
  case (step n)
  then show ?case by simp
qed

lemma fold_upt_preserves:
  assumes "P s" and "\<And>i s. lo \<le> i \<Longrightarrow> i < hi \<Longrightarrow> P s \<Longrightarrow> P (f i s)"
  shows "P (fold f [lo..<hi] s)"
proof (cases "lo \<le> hi")
  case True
  then show ?thesis
    using fold_upt_invariant [of "\<lambda>_. P" lo s hi f] assms by blast
next
  case False
  with assms show ?thesis by simp
qed

end
