(* ===== verification/Physical_Refs.thy ===== *)
theory Physical_Refs
  imports Physical
begin

unbundle bit_operations_syntax

text \<open>
  The reference-count table of \<^verbatim>\<open>xscore/memory/physical.c\<close>: an open-addressing table keyed by
  page number in which a slot, once taken, never becomes vacant again, only idle (count 0).
  The table implements the map \<open>refs\<close> from page numbers to counts as long as it has a vacant
  slot; on top of it, a shared page stays allocated until its last reference is dropped.
  Without a vacant slot the table forgets new pages, which is stated as well.
\<close>

section \<open>Probe sequences\<close>

definition ref_slot :: "u64 \<Rightarrow> nat \<Rightarrow> nat" where
  "ref_slot page k = (refcount_start page + k) mod REFCOUNT_TABLE_SLOTS"

definition ref_table_inv :: "(nat \<Rightarrow> page_ref_entry) \<Rightarrow> bool" where
  "ref_table_inv t \<longleftrightarrow>
     (\<forall>i < REFCOUNT_TABLE_SLOTS. \<forall>j < REFCOUNT_TABLE_SLOTS.
        ref_page (t i) = ref_page (t j) \<and> ref_page (t i) \<noteq> -1 \<longrightarrow> i = j) \<and>
     (\<forall>page k. page \<noteq> -1 \<and> k < REFCOUNT_TABLE_SLOTS \<and> ref_page (t (ref_slot page k)) = page \<longrightarrow>
        (\<forall>j < k. ref_page (t (ref_slot page j)) \<noteq> -1)) \<and>
     (\<forall>i < REFCOUNT_TABLE_SLOTS. ref_page (t i) = -1 \<longrightarrow> ref_count (t i) = 0)"

definition refs :: "(nat \<Rightarrow> page_ref_entry) \<Rightarrow> u64 \<Rightarrow> u16" where
  "refs t page = (case fst (refcount_entry page False t) of None \<Rightarrow> 0 | Some i \<Rightarrow> ref_count (t i))"

definition ref_vacant :: "(nat \<Rightarrow> page_ref_entry) \<Rightarrow> bool" where
  "ref_vacant t \<longleftrightarrow> (\<exists>i < REFCOUNT_TABLE_SLOTS. ref_page (t i) = -1)"

lemma ref_table_inv_distinct:
  assumes "ref_table_inv t" "ref_page (t i) = ref_page (t j)" "ref_page (t i) \<noteq> -1"
    "i < REFCOUNT_TABLE_SLOTS" "j < REFCOUNT_TABLE_SLOTS"
  shows "i = j"
  using assms unfolding ref_table_inv_def by simp

lemma ref_table_inv_chain:
  assumes "ref_table_inv t" "ref_page (t (ref_slot page k)) = page" "page \<noteq> -1"
    "k < REFCOUNT_TABLE_SLOTS" "j < k"
  shows "ref_page (t (ref_slot page j)) \<noteq> -1"
  using assms unfolding ref_table_inv_def by simp

lemma ref_table_inv_idle:
  assumes "ref_table_inv t" "ref_page (t i) = -1" "i < REFCOUNT_TABLE_SLOTS"
  shows "ref_count (t i) = 0"
  using assms unfolding ref_table_inv_def by simp

lemma ref_table_invI:
  assumes "\<And>i j. i < REFCOUNT_TABLE_SLOTS \<Longrightarrow> j < REFCOUNT_TABLE_SLOTS \<Longrightarrow>
      ref_page (t i) = ref_page (t j) \<Longrightarrow> ref_page (t i) \<noteq> -1 \<Longrightarrow> i = j"
    and "\<And>page k j. page \<noteq> -1 \<Longrightarrow> k < REFCOUNT_TABLE_SLOTS \<Longrightarrow>
      ref_page (t (ref_slot page k)) = page \<Longrightarrow> j < k \<Longrightarrow> ref_page (t (ref_slot page j)) \<noteq> -1"
    and "\<And>i. i < REFCOUNT_TABLE_SLOTS \<Longrightarrow> ref_page (t i) = -1 \<Longrightarrow> ref_count (t i) = 0"
  shows "ref_table_inv t"
  unfolding ref_table_inv_def
proof (intro conjI allI impI, goal_cases)
  case (1 i j) then show ?case by (intro assms(1)) auto
next
  case (2 page k j) then show ?case by (intro assms(2) [of page k]) auto
next
  case (3 i) then show ?case by (rule assms(3))
qed

lemma ref_slot_less [simp]: "ref_slot page k < REFCOUNT_TABLE_SLOTS"
  by (simp add: ref_slot_def REFCOUNT_TABLE_SLOTS_def)

lemma ref_slot_inj:
  "ref_slot page j = ref_slot page k \<Longrightarrow> j < REFCOUNT_TABLE_SLOTS \<Longrightarrow> k < REFCOUNT_TABLE_SLOTS \<Longrightarrow> j = k"
  unfolding ref_slot_def by (rule mod_add_inj)

lemma ref_slot_surj:
  assumes "i < REFCOUNT_TABLE_SLOTS"
  obtains k where "k < REFCOUNT_TABLE_SLOTS" "i = ref_slot page k"
proof -
  have "refcount_start page < REFCOUNT_TABLE_SLOTS"
    by (simp add: refcount_start_def REFCOUNT_TABLE_SLOTS_def)
  then show ?thesis
    using mod_add_surj [OF assms] that by (auto simp: ref_slot_def)
qed

definition ref_first_idle :: "u64 \<Rightarrow> nat option \<Rightarrow> nat \<Rightarrow> nat \<Rightarrow> (nat \<Rightarrow> page_ref_entry) \<Rightarrow> nat option" where
  "ref_first_idle page reusable lo hi t =
     (case reusable of Some r \<Rightarrow> Some r
      | None \<Rightarrow> map_option (ref_slot page) (find_from (\<lambda>k. ref_count (t (ref_slot page k)) = 0) lo hi))"

definition ref_stop :: "u64 \<Rightarrow> (nat \<Rightarrow> page_ref_entry) \<Rightarrow> nat \<Rightarrow> bool" where
  "ref_stop page t k \<longleftrightarrow> ref_page (t (ref_slot page k)) = page \<or> ref_page (t (ref_slot page k)) = -1"

lemma ref_first_idle_step:
  "lo < hi \<Longrightarrow> ref_first_idle page reusable lo hi t =
     ref_first_idle page (if ref_count (t (ref_slot page lo)) = 0 \<and> reusable = None
        then Some (ref_slot page lo) else reusable) (Suc lo) hi t"
  by (auto simp: ref_first_idle_def find_from.simps [of _ lo hi] split: option.splits)

lemma ref_first_idle_empty: "hi \<le> lo \<Longrightarrow> ref_first_idle page reusable lo hi t = reusable"
  by (auto simp: ref_first_idle_def find_from.simps [of _ lo hi] split: option.splits)

lemma refcount_probe_eq:
  "start = refcount_start page \<Longrightarrow> refcount_probe page create start step reusable t =
     (case find_from (ref_stop page t) step REFCOUNT_TABLE_SLOTS of
        None \<Rightarrow> (if create then ref_first_idle page reusable step REFCOUNT_TABLE_SLOTS t else None, t)
      | Some k \<Rightarrow>
          if ref_page (t (ref_slot page k)) = page then (Some (ref_slot page k), t)
          else if \<not> create then (None, t)
          else let r = (case ref_first_idle page reusable step (Suc k) t of None \<Rightarrow> ref_slot page k | Some r \<Rightarrow> r)
               in (Some r, t(r := (t r)\<lparr>ref_page := page\<rparr>)))"
proof (induction page create start step reusable t rule: refcount_probe.induct)
  case (1 page create start step reusable t)
  let ?i = "ref_slot page step"
  have slot: "(start + step) mod REFCOUNT_TABLE_SLOTS = ?i"
    by (simp add: ref_slot_def "1.prems")
  consider (out) "\<not> step < REFCOUNT_TABLE_SLOTS"
    | (stop) "step < REFCOUNT_TABLE_SLOTS" "ref_stop page t step"
    | (more) "step < REFCOUNT_TABLE_SLOTS" "\<not> ref_stop page t step"
    by blast
  then show ?case
  proof cases
    case out
    then show ?thesis
      by (simp add: refcount_probe.simps [of page create start step] find_from.simps [of _ step]
          ref_first_idle_empty)
  next
    case stop
    then show ?thesis
      by (auto simp: refcount_probe.simps [of page create start step] find_from.simps [of _ step]
          slot Let_def ref_stop_def ref_first_idle_step [of step "Suc step"] ref_first_idle_empty)
  next
    case more
    let ?r = "if ref_count (t ?i) = 0 \<and> reusable = None then Some ?i else reusable"
    have unfold: "refcount_probe page create start step reusable t =
        refcount_probe page create start (Suc step) ?r t"
      using more by (simp add: refcount_probe.simps [of page create start step] slot Let_def ref_stop_def)
    have find: "find_from (ref_stop page t) step REFCOUNT_TABLE_SLOTS =
        find_from (ref_stop page t) (Suc step) REFCOUNT_TABLE_SLOTS"
      using more by (simp add: find_from.simps [of _ step])
    have idle: "ref_first_idle page reusable step hi t = ref_first_idle page ?r (Suc step) hi t"
      if "step < hi" for hi
      using that by (rule ref_first_idle_step)
    have guard: "\<not> ref_page (t ?i) = page" "\<not> ref_page (t ?i) = -1"
      using more(2) by (simp_all add: ref_stop_def)
    note IH = "1.IH" [OF more(1) refl, unfolded slot, OF guard(1) refl guard(2) "1.prems"]
    show ?thesis
    proof (cases "find_from (ref_stop page t) (Suc step) REFCOUNT_TABLE_SLOTS")
      case None
      then show ?thesis
        unfolding unfold IH find by (simp only: option.case idle [OF more(1)])
    next
      case (Some k)
      then have "step < Suc k"
        by (auto simp: find_from_Some)
      with Some show ?thesis
        unfolding unfold IH find by (simp only: option.case idle)
    qed
  qed
qed

lemma refcount_entry_found:
  assumes "ref_table_inv t" "i < REFCOUNT_TABLE_SLOTS" "ref_page (t i) = page" "page \<noteq> -1"
  shows "refcount_entry page create t = (Some i, t)"
proof -
  obtain k where k: "k < REFCOUNT_TABLE_SLOTS" "i = ref_slot page k"
    using assms(2) by (rule ref_slot_surj)
  have "find_from (ref_stop page t) 0 REFCOUNT_TABLE_SLOTS = Some k"
  proof -
    have "\<not> ref_stop page t j" if "j < k" for j
    proof -
      have "ref_page (t (ref_slot page j)) \<noteq> -1"
        using ref_table_inv_chain [OF assms(1) _ assms(4) k(1) that] assms(3) k(2) by simp
      moreover have "ref_page (t (ref_slot page j)) \<noteq> page"
      proof
        assume "ref_page (t (ref_slot page j)) = page"
        then have "ref_slot page j = ref_slot page k"
          using ref_table_inv_distinct [OF assms(1), of "ref_slot page j" i] assms k(2) by simp
        then show False
          using k that ref_slot_inj [of page j k] by simp
      qed
      ultimately show ?thesis
        by (simp add: ref_stop_def)
    qed
    then show ?thesis
      using k assms(3) by (simp add: find_from_Some ref_stop_def)
  qed
  then show ?thesis
    using k assms(3) by (simp add: refcount_entry_def refcount_probe_eq)
qed

lemma refcount_entry_absent:
  assumes "\<And>i. i < REFCOUNT_TABLE_SLOTS \<Longrightarrow> ref_page (t i) \<noteq> page"
  shows "refcount_entry page False t = (None, t)"
  using assms by (auto simp: refcount_entry_def refcount_probe_eq split: option.splits)

lemma refs_found:
  "ref_table_inv t \<Longrightarrow> i < REFCOUNT_TABLE_SLOTS \<Longrightarrow> ref_page (t i) = page \<Longrightarrow> page \<noteq> -1 \<Longrightarrow>
     refs t page = ref_count (t i)"
  by (simp add: refs_def refcount_entry_found)

lemma refs_absent:
  "(\<And>i. i < REFCOUNT_TABLE_SLOTS \<Longrightarrow> ref_page (t i) \<noteq> page) \<Longrightarrow> refs t page = 0"
  by (simp add: refs_def refcount_entry_absent)

lemma refcount_entry_create:
  assumes "ref_table_inv t" "page \<noteq> -1" "ref_vacant t"
    and "refcount_entry page True t = (e, t')"
  obtains i where "e = Some i" "i < REFCOUNT_TABLE_SLOTS" "ref_page (t' i) = page"
    "ref_table_inv t'" "\<And>q. q \<noteq> -1 \<Longrightarrow> refs t' q = refs t q"
proof (cases "\<exists>i < REFCOUNT_TABLE_SLOTS. ref_page (t i) = page")
  case True
  then obtain i where "i < REFCOUNT_TABLE_SLOTS" "ref_page (t i) = page" by blast
  then show ?thesis
    using assms that [of i] refcount_entry_found [OF assms(1) _ _ assms(2)] by simp
next
  case False
  obtain k0 where "k0 < REFCOUNT_TABLE_SLOTS" "ref_page (t (ref_slot page k0)) = -1"
    using assms(3) unfolding ref_vacant_def by (metis ref_slot_surj)
  then have "find_from (ref_stop page t) 0 REFCOUNT_TABLE_SLOTS \<noteq> None"
    by (auto simp: find_from_None ref_stop_def)
  then obtain k where k: "find_from (ref_stop page t) 0 REFCOUNT_TABLE_SLOTS = Some k"
    by auto
  then have kprops: "k < REFCOUNT_TABLE_SLOTS" "ref_page (t (ref_slot page k)) = -1"
    "\<And>j. j < k \<Longrightarrow> ref_page (t (ref_slot page j)) \<noteq> -1"
    using False by (auto simp: find_from_Some ref_stop_def)
  define r where "r = (case ref_first_idle page None 0 (Suc k) t of None \<Rightarrow> ref_slot page k | Some r \<Rightarrow> r)"
  have res: "e = Some r" "t' = t(r := (t r)\<lparr>ref_page := page\<rparr>)"
    using assms(4) False k by (simp_all add: refcount_entry_def refcount_probe_eq r_def Let_def)
  have zero: "ref_count (t (ref_slot page k)) = 0"
    using ref_table_inv_idle [OF assms(1) kprops(2)] by simp
  obtain j where j: "j \<le> k" "r = ref_slot page j" "ref_count (t r) = 0"
  proof (cases "find_from (\<lambda>k. ref_count (t (ref_slot page k)) = 0) 0 (Suc k)")
    case None
    then show ?thesis
      using zero that [of k] by (simp add: r_def ref_first_idle_def)
  next
    case (Some j)
    then have "j \<le> k" "ref_count (t (ref_slot page j)) = 0"
      by (auto simp: find_from_Some)
    then show ?thesis
      using Some that [of j] by (simp add: r_def ref_first_idle_def)
  qed
  have r: "r < REFCOUNT_TABLE_SLOTS"
    by (simp add: j)
  have other: "ref_page (t' i) = ref_page (t i)" "ref_count (t' i) = ref_count (t i)" if "i \<noteq> r" for i
    using that by (simp_all add: res)
  have at_r: "ref_page (t' r) = page" "ref_count (t' r) = 0"
    using j by (simp_all add: res)
  have filled: "ref_page (t' i) \<noteq> -1" if "ref_page (t i) \<noteq> -1" for i
    using that assms(2) by (cases "i = r") (simp_all add: at_r other)
  have inv': "ref_table_inv t'"
  proof (rule ref_table_invI)
    fix i j assume "i < REFCOUNT_TABLE_SLOTS" "j < REFCOUNT_TABLE_SLOTS"
      "ref_page (t' i) = ref_page (t' j)" "ref_page (t' i) \<noteq> -1"
    then show "i = j"
      using False ref_table_inv_distinct [OF assms(1), of i j]
      by (cases "i = r"; cases "j = r") (auto simp: at_r other)
  next
    fix q m n assume q: "q \<noteq> -1" "m < REFCOUNT_TABLE_SLOTS" "ref_page (t' (ref_slot q m)) = q" "n < m"
    show "ref_page (t' (ref_slot q n)) \<noteq> -1"
    proof (cases "ref_slot q m = r")
      case True
      then have "q = page"
        using q(3) at_r(1) by simp
      then have "m = j"
        using True j q(2) kprops(1) ref_slot_inj [of page m j] by simp
      then have "ref_page (t (ref_slot q n)) \<noteq> -1"
        using kprops(3) [of n] \<open>q = page\<close> q(4) j(1) by simp
      then show ?thesis
        by (rule filled)
    next
      case False
      then have "ref_page (t (ref_slot q m)) = q"
        using q(3) by (simp add: other)
      then have "ref_page (t (ref_slot q n)) \<noteq> -1"
        using ref_table_inv_chain [OF assms(1) _ q(1,2,4)] by simp
      then show ?thesis
        by (rule filled)
    qed
  next
    fix i assume "i < REFCOUNT_TABLE_SLOTS" "ref_page (t' i) = -1"
    then show "ref_count (t' i) = 0"
      using assms(2) ref_table_inv_idle [OF assms(1), of i] by (cases "i = r") (simp_all add: at_r other)
  qed
  have "refs t' q = refs t q" if q: "q \<noteq> -1" for q
  proof (cases "\<exists>i < REFCOUNT_TABLE_SLOTS. i \<noteq> r \<and> ref_page (t i) = q")
    case True
    then obtain i where "i < REFCOUNT_TABLE_SLOTS" "i \<noteq> r" "ref_page (t i) = q" by blast
    then show ?thesis
      using refs_found [OF inv', of i q] refs_found [OF assms(1), of i q] q by (simp add: other)
  next
    case none: False
    have "refs t q = 0"
    proof (cases "ref_page (t r) = q")
      case True
      then show ?thesis
        using refs_found [OF assms(1) r _ q] j(3) by simp
    next
      case False
      then show ?thesis
        using none by (intro refs_absent) blast
    qed
    moreover have "refs t' q = 0"
    proof (cases "q = page")
      case True
      then show ?thesis
        using refs_found [OF inv' r at_r(1) assms(2)] at_r(2) by simp
    next
      case False
      then have "ref_page (t' i) \<noteq> q" if "i < REFCOUNT_TABLE_SLOTS" for i
        using none that by (cases "i = r") (auto simp: at_r other)
      then show ?thesis
        by (rule refs_absent)
    qed
    ultimately show ?thesis by simp
  qed
  then show ?thesis
    using that [of r] res(1) r at_r(1) inv' by simp
qed

lemma set_ref_count_spec:
  assumes "ref_table_inv t" "i < REFCOUNT_TABLE_SLOTS" "ref_page (t i) = page" "page \<noteq> -1"
  shows "ref_table_inv (set_ref_count (Some i) c t)"
    and "q \<noteq> -1 \<Longrightarrow> refs (set_ref_count (Some i) c t) q = (if q = page then c else refs t q)"
proof -
  let ?t = "set_ref_count (Some i) c t"
  have pages: "ref_page (?t j) = ref_page (t j)" for j
    by (simp add: set_ref_count_def)
  show inv': "ref_table_inv ?t"
  proof (rule ref_table_invI, unfold pages)
    fix m n assume "m < REFCOUNT_TABLE_SLOTS" "n < REFCOUNT_TABLE_SLOTS"
      "ref_page (t m) = ref_page (t n)" "ref_page (t m) \<noteq> -1"
    then show "m = n"
      by (intro ref_table_inv_distinct [OF assms(1)])
  next
    fix q m n assume "q \<noteq> -1" "m < REFCOUNT_TABLE_SLOTS" "ref_page (t (ref_slot q m)) = q" "n < m"
    then show "ref_page (t (ref_slot q n)) \<noteq> -1"
      by (intro ref_table_inv_chain [OF assms(1)])
  next
    fix m assume "m < REFCOUNT_TABLE_SLOTS" "ref_page (t m) = -1"
    then show "ref_count (?t m) = 0"
      using ref_table_inv_idle [OF assms(1), of m] assms(3,4) by (cases "m = i") (auto simp: set_ref_count_def)
  qed
  show "refs ?t q = (if q = page then c else refs t q)" if "q \<noteq> -1"
  proof (cases "\<exists>j < REFCOUNT_TABLE_SLOTS. ref_page (t j) = q")
    case True
    then obtain j where j: "j < REFCOUNT_TABLE_SLOTS" "ref_page (t j) = q" by blast
    then have "refs ?t q = ref_count (?t j)"
      using refs_found [OF inv' j(1) _ that] by (simp add: pages)
    moreover have "refs t q = ref_count (t j)"
      using refs_found [OF assms(1) j that] .
    moreover have "j = i \<longleftrightarrow> q = page"
    proof
      assume "j = i"
      then show "q = page" using j(2) assms(3) by simp
    next
      assume "q = page"
      then show "j = i"
        using ref_table_inv_distinct [OF assms(1), of j i] j assms(2,3) that by simp
    qed
    ultimately show ?thesis
      by (auto simp: set_ref_count_def)
  next
    case False
    then have "refs ?t q = 0" "refs t q = 0" "q \<noteq> page"
      using assms by (auto intro!: refs_absent simp: pages)
    then show ?thesis by simp
  qed
qed
definition ref_known :: "(nat \<Rightarrow> page_ref_entry) \<Rightarrow> u64 \<Rightarrow> bool" where
  "ref_known t page \<longleftrightarrow> (\<exists>i < REFCOUNT_TABLE_SLOTS. ref_page (t i) = page)"

definition pmm_ok :: "pmm \<Rightarrow> bool" where
  "pmm_ok s \<longleftrightarrow> pmm_inv s \<and> ref_table_inv (page_ref_table s)"

lemma refcount_entry_create_known:
  assumes "ref_table_inv t" "page \<noteq> -1" "ref_vacant t \<or> ref_known t page"
    and "refcount_entry page True t = (e, t')"
  obtains i where "e = Some i" "i < REFCOUNT_TABLE_SLOTS" "ref_page (t' i) = page"
    "ref_table_inv t'" "\<And>q. q \<noteq> -1 \<Longrightarrow> refs t' q = refs t q"
  using assms(3)
proof
  assume "ref_vacant t"
  then show ?thesis
    using refcount_entry_create [OF assms(1,2) _ assms(4)] that by blast
next
  assume "ref_known t page"
  then obtain i where i: "i < REFCOUNT_TABLE_SLOTS" "ref_page (t i) = page"
    by (auto simp: ref_known_def)
  then have "e = Some i" "t' = t"
    using refcount_entry_found [OF assms(1) i assms(2)] assms(4) by auto
  then show ?thesis
    using that i assms(1) by simp
qed

lemma refcount_lookup:
  assumes "ref_table_inv t" "page \<noteq> -1"
  shows "(\<exists>i < REFCOUNT_TABLE_SLOTS. refcount_entry page False t = (Some i, t) \<and> ref_page (t i) = page \<and>
            ref_count (t i) = refs t page)
       \<or> refcount_entry page False t = (None, t) \<and> refs t page = 0"
proof (cases "ref_known t page")
  case True
  then obtain i where i: "i < REFCOUNT_TABLE_SLOTS" "ref_page (t i) = page"
    by (auto simp: ref_known_def)
  then show ?thesis
    using refcount_entry_found [OF assms(1) i assms(2), of False] refs_found [OF assms(1) i assms(2)] by auto
next
  case False
  then have "refcount_entry page False t = (None, t)" "refs t page = 0"
    by (auto simp: ref_known_def intro!: refcount_entry_absent refs_absent)
  then show ?thesis by simp
qed

lemma pmm_refcount_inc_fields [simp]:
  "free_pages (xscore_pmm_refcount_inc a s) = free_pages s"
  "managed_page_count (xscore_pmm_refcount_inc a s) = managed_page_count s"
  "free_page_count (xscore_pmm_refcount_inc a s) = free_page_count s"
  "next_search_page (xscore_pmm_refcount_inc a s) = next_search_page s"
  by (auto simp: xscore_pmm_refcount_inc_def Let_def split: prod.splits option.splits)

lemma pmm_inv_fields:
  "free_pages s' = free_pages s \<Longrightarrow> managed_page_count s' = managed_page_count s \<Longrightarrow>
   free_page_count s' = free_page_count s \<Longrightarrow> next_search_page s' = next_search_page s \<Longrightarrow>
   pmm_inv s' \<longleftrightarrow> pmm_inv s"
  by (simp add: pmm_inv_def bitmap_inv_def)

lemma pmm_refcount_inc_table:
  assumes "ref_table_inv (page_ref_table s)"
    and "ref_vacant (page_ref_table s) \<or> ref_known (page_ref_table s) (a div PAGE_SIZE)"
  shows "ref_table_inv (page_ref_table (xscore_pmm_refcount_inc a s))"
    and "ref_known (page_ref_table (xscore_pmm_refcount_inc a s)) (a div PAGE_SIZE)"
    and "q \<noteq> -1 \<Longrightarrow> refs (page_ref_table (xscore_pmm_refcount_inc a s)) q =
       (if q = a div PAGE_SIZE \<and> refs (page_ref_table s) q \<noteq> -1 then refs (page_ref_table s) q + 1
        else refs (page_ref_table s) q)"
proof -
  let ?p = "a div PAGE_SIZE" and ?t = "page_ref_table s"
  obtain e t' where e: "refcount_entry ?p True ?t = (e, t')"
    by fastforce
  obtain i where i: "e = Some i" "i < REFCOUNT_TABLE_SLOTS" "ref_page (t' i) = ?p"
    "ref_table_inv t'" "\<And>q. q \<noteq> -1 \<Longrightarrow> refs t' q = refs ?t q"
    using refcount_entry_create_known [OF assms(1) page_number_valid assms(2) e] by blast
  have cnt: "ref_count (t' i) = refs ?t ?p"
    using refs_found [OF i(4,2,3)] i(5) by simp
  let ?t' = "if ref_count (t' i) \<noteq> -1 then set_ref_count (Some i) (ref_count (t' i) + 1) t' else t'"
  have res: "page_ref_table (xscore_pmm_refcount_inc a s) = ?t'"
    by (simp add: xscore_pmm_refcount_inc_def e i)
  note set = set_ref_count_spec [OF i(4,2,3) page_number_valid]
  show "ref_table_inv (page_ref_table (xscore_pmm_refcount_inc a s))"
    using set(1) i(4) by (simp add: res)
  show "ref_known (page_ref_table (xscore_pmm_refcount_inc a s)) ?p"
    using i(2,3) unfolding res ref_known_def by (auto simp: set_ref_count_def)
  show "refs (page_ref_table (xscore_pmm_refcount_inc a s)) q =
       (if q = ?p \<and> refs ?t q \<noteq> -1 then refs ?t q + 1 else refs ?t q)" if "q \<noteq> -1"
    unfolding res using set(2) [OF that] i(5) [OF that] cnt by auto
qed

lemma pmm_refcount_dec_shared:
  assumes "ref_table_inv (page_ref_table s)" and "refs (page_ref_table s) (a div PAGE_SIZE) > 1"
    and "xscore_pmm_refcount_dec a s = (r, s')"
  shows "r" "free_pages s' = free_pages s" "pmm_inv s' \<longleftrightarrow> pmm_inv s" "ref_table_inv (page_ref_table s')"
    "managed_page_count s' = managed_page_count s"
    "q \<noteq> -1 \<Longrightarrow> refs (page_ref_table s') q =
       (if q = a div PAGE_SIZE then refs (page_ref_table s) q - 1 else refs (page_ref_table s) q)"
proof -
  let ?p = "a div PAGE_SIZE" and ?t = "page_ref_table s"
  obtain i where i: "i < REFCOUNT_TABLE_SLOTS" "refcount_entry ?p False ?t = (Some i, ?t)" "ref_page (?t i) = ?p"
    "ref_count (?t i) = refs ?t ?p"
    using refcount_lookup [OF assms(1) page_number_valid, of a] assms(2) by auto
  have res: "r" "s' = s\<lparr>page_ref_table := set_ref_count (Some i) (refs ?t ?p - 1) ?t\<rparr>"
    using assms(2,3) i by (simp_all add: xscore_pmm_refcount_dec_def)
  note set = set_ref_count_spec [OF assms(1) i(1,3) page_number_valid]
  show "r" "free_pages s' = free_pages s" "pmm_inv s' \<longleftrightarrow> pmm_inv s" "ref_table_inv (page_ref_table s')"
    "managed_page_count s' = managed_page_count s"
    using res set(1) by (simp_all add: pmm_inv_def bitmap_inv_def)
  show "refs (page_ref_table s') q = (if q = ?p then refs ?t q - 1 else refs ?t q)" if "q \<noteq> -1"
    using set(2) [OF that] res by simp
qed

lemma pmm_refcount_dec_last:
  assumes "ref_table_inv (page_ref_table s)" and "refs (page_ref_table s) (a div PAGE_SIZE) \<le> 1"
  shows "xscore_pmm_refcount_dec a s = xscore_pmm_free_page a s"
  using refcount_lookup [OF assms(1) page_number_valid, of a] assms(2)
  by (auto simp: xscore_pmm_refcount_dec_def not_less)



lemma pmm_allocate_refs:
  assumes "pmm_ok s" and "ref_vacant (page_ref_table s)" and "free_pages s \<noteq> {}"
    and "xscore_pmm_allocate_page s = (a, s')"
  shows "pmm_ok s'" "ref_known (page_ref_table s') (a div PAGE_SIZE)"
    "q \<noteq> -1 \<Longrightarrow> refs (page_ref_table s') q = (if q = a div PAGE_SIZE then 1 else refs (page_ref_table s) q)"
    "managed_page_count s' = managed_page_count s"
proof -
  let ?p = "Min (free_pages s)" and ?t = "page_ref_table s"
  have inv: "pmm_inv s" and t: "ref_table_inv ?t"
    using assms(1) by (auto simp: pmm_ok_def)
  have take: "pmm_take_page ?p s = (a, s')"
    using pmm_allocate_takes_min [OF inv assms(4,3)] .
  have "?p \<in> free_pages s"
    using assms(3) by simp
  then have p: "?p < 1048576"
    by (simp add: free_pages_def)
  then have "unat (of_nat ?p :: u64) = ?p"
    by (intro unat_of_nat64) simp
  moreover have ua: "unat a = ?p * 4096"
    using pmm_allocate_lowest [OF inv assms(4)] assms(3) by simp
  ultimately have ap: "of_nat ?p = a div PAGE_SIZE"
    by (intro word_unat_eq_iff [THEN iffD2]) simp
  obtain e t' where e: "refcount_entry (a div PAGE_SIZE) True ?t = (e, t')"
    by fastforce
  obtain i where i: "e = Some i" "i < REFCOUNT_TABLE_SLOTS" "ref_page (t' i) = a div PAGE_SIZE"
    "ref_table_inv t'" "\<And>q. q \<noteq> -1 \<Longrightarrow> refs t' q = refs ?t q"
    using refcount_entry_create [OF t page_number_valid assms(2) e] by blast
  have t': "page_ref_table s' = set_ref_count (Some i) 1 t'"
    using pmm_take_page_fields(6) [OF take] e i(1) ap by simp
  note set = set_ref_count_spec [OF i(4,2,3) page_number_valid]
  show "pmm_ok s'"
    using pmm_allocate_lowest(1) [OF inv assms(4)] set(1) by (simp add: pmm_ok_def t')
  show "ref_known (page_ref_table s') (a div PAGE_SIZE)"
    using i(2,3) unfolding t' ref_known_def by (auto simp: set_ref_count_def)
  show "refs (page_ref_table s') q = (if q = a div PAGE_SIZE then 1 else refs ?t q)" if "q \<noteq> -1"
    using set(2) [OF that] i(5) [OF that] by (simp add: t')
  show "managed_page_count s' = managed_page_count s"
    using pmm_take_page_fields(3) [OF take] .
qed

lemma unat_of_nat16: "n < 65536 \<Longrightarrow> unat (of_nat n :: u16) = n"
  by (simp add: unat_of_nat)

lemma pmm_ok_inc:
  assumes "pmm_ok s" and "ref_known (page_ref_table s) (a div PAGE_SIZE)"
  shows "pmm_ok (xscore_pmm_refcount_inc a s)"
  using assms pmm_refcount_inc_table(1) [of s a]
  by (auto simp: pmm_ok_def pmm_inv_fields [of "xscore_pmm_refcount_inc a s" s])

lemma pmm_inc_iterate:
  assumes "pmm_ok s" "ref_known (page_ref_table s) (a div PAGE_SIZE)"
    "refs (page_ref_table s) (a div PAGE_SIZE) = 1" "n < 65535"
  defines "s' \<equiv> (xscore_pmm_refcount_inc a ^^ n) s"
  shows "pmm_ok s' \<and> ref_known (page_ref_table s') (a div PAGE_SIZE) \<and>
    unat (refs (page_ref_table s') (a div PAGE_SIZE)) = n + 1 \<and> free_pages s' = free_pages s \<and>
    managed_page_count s' = managed_page_count s"
  using assms(4) unfolding s'_def
proof (induction n)
  case 0
  then show ?case using assms(1-3) by simp
next
  case (Suc n)
  let ?s = "(xscore_pmm_refcount_inc a ^^ n) s" and ?p = "a div PAGE_SIZE"
  have IH: "pmm_ok ?s" "ref_known (page_ref_table ?s) ?p" "unat (refs (page_ref_table ?s) ?p) = n + 1"
    "free_pages ?s = free_pages s" "managed_page_count ?s = managed_page_count s"
    using Suc by simp_all
  have "refs (page_ref_table ?s) ?p \<noteq> -1"
  proof
    assume "refs (page_ref_table ?s) ?p = -1"
    then have "n + 1 = 65535"
      using IH(3) by (simp add: unsigned_minus_1_eq_mask mask_eq_exp_minus_1)
    with Suc.prems show False by simp
  qed
  then have "refs (page_ref_table (xscore_pmm_refcount_inc a ?s)) ?p = refs (page_ref_table ?s) ?p + 1"
    using pmm_refcount_inc_table(3) [of ?s a ?p] IH(1,2) by (simp add: pmm_ok_def)
  moreover have "unat (refs (page_ref_table ?s) ?p + 1) = n + 2"
    using IH(3) Suc.prems by (simp add: unat_inc_bounded)
  ultimately show ?case
    using IH pmm_ok_inc [OF IH(1,2)] pmm_refcount_inc_table(2) [of ?s a]
    by (simp add: pmm_ok_def)
qed

lemma pmm_dec_iterate:
  assumes "pmm_ok s" "unat (refs (page_ref_table s) (a div PAGE_SIZE)) = n + 1" "k \<le> n"
  defines "s' \<equiv> ((\<lambda>s. snd (xscore_pmm_refcount_dec a s)) ^^ k) s"
  shows "pmm_ok s' \<and> unat (refs (page_ref_table s') (a div PAGE_SIZE)) = n + 1 - k \<and>
    free_pages s' = free_pages s \<and> managed_page_count s' = managed_page_count s"
  using assms(3) unfolding s'_def
proof (induction k)
  case 0
  then show ?case using assms(1,2) by simp
next
  case (Suc k)
  let ?s = "((\<lambda>s. snd (xscore_pmm_refcount_dec a s)) ^^ k) s" and ?p = "a div PAGE_SIZE"
  have IH: "pmm_ok ?s" "unat (refs (page_ref_table ?s) ?p) = n + 1 - k"
    "free_pages ?s = free_pages s" "managed_page_count ?s = managed_page_count s"
    using Suc by simp_all
  have gt: "refs (page_ref_table ?s) ?p > 1"
    using IH(2) Suc.prems by (simp add: word_less_nat_alt)
  obtain r s2 where d: "xscore_pmm_refcount_dec a ?s = (r, s2)"
    by fastforce
  have inv: "ref_table_inv (page_ref_table ?s)"
    using IH(1) by (simp add: pmm_ok_def)
  note dec = pmm_refcount_dec_shared [OF inv gt d]
  have "unat (refs (page_ref_table ?s) ?p - 1) = n - k"
    using IH(2) gt by (subst unat_dec_nz) auto
  then show ?case
    using dec(2-5) dec(6) [OF page_number_valid] IH d by (simp add: pmm_ok_def)
qed

lemma pmm_shared_page:
  assumes "pmm_ok s" "ref_vacant (page_ref_table s)" "free_pages s \<noteq> {}"
    and alloc: "xscore_pmm_allocate_page s = (a, s1)" and "n < 65535" and "k \<le> n"
  shows "unat a div 4096 \<notin> free_pages
           (((\<lambda>s. snd (xscore_pmm_refcount_dec a s)) ^^ k) ((xscore_pmm_refcount_inc a ^^ n) s1)) \<and>
         free_pages (((\<lambda>s. snd (xscore_pmm_refcount_dec a s)) ^^ Suc n)
           ((xscore_pmm_refcount_inc a ^^ n) s1)) = free_pages s"
proof -
  let ?p = "a div PAGE_SIZE" and ?drop = "\<lambda>s. snd (xscore_pmm_refcount_dec a s)"
  let ?shared = "(xscore_pmm_refcount_inc a ^^ n) s1"
  have inv: "pmm_inv s"
    using assms(1) by (simp add: pmm_ok_def)
  have a: "unat a = Min (free_pages s) * 4096" and f1: "free_pages s1 = free_pages s - {Min (free_pages s)}"
    using pmm_allocate_lowest(2) [OF inv alloc assms(3)] by auto
  have min: "Min (free_pages s) \<in> free_pages s"
    using assms(3) by simp
  then have bounds: "256 \<le> unat a div 4096" "unat a div 4096 < unat (managed_page_count s)"
    using inv by (auto simp: a pmm_inv_def bitmap_inv_def)
  note s1 = pmm_allocate_refs [OF assms(1-3) alloc]
  have sh: "pmm_ok ?shared" "unat (refs (page_ref_table ?shared) ?p) = n + 1"
    "free_pages ?shared = free_pages s1" "managed_page_count ?shared = managed_page_count s1"
    using pmm_inc_iterate [OF s1(1,2) _ assms(5)] s1(3) by simp_all
  have dk: "free_pages ((?drop ^^ k) ?shared) = free_pages s1"
    using pmm_dec_iterate [OF sh(1,2) assms(6)] sh(3) by simp
  have dn: "pmm_ok ((?drop ^^ n) ?shared)" "unat (refs (page_ref_table ((?drop ^^ n) ?shared)) ?p) = 1"
    "free_pages ((?drop ^^ n) ?shared) = free_pages s1"
    "managed_page_count ((?drop ^^ n) ?shared) = managed_page_count s"
    using pmm_dec_iterate [OF sh(1,2), of n] sh(3,4) s1(4) by simp_all
  obtain r s2 where last: "xscore_pmm_free_page a ((?drop ^^ n) ?shared) = (r, s2)"
    by fastforce
  have "xscore_pmm_refcount_dec a ((?drop ^^ n) ?shared) = (r, s2)"
    using pmm_refcount_dec_last [of "(?drop ^^ n) ?shared" a] dn(1,2) last
    by (simp add: pmm_ok_def word_le_nat_alt)
  then have "(?drop ^^ Suc n) ?shared = s2"
    by simp
  moreover have "free_pages s2 = free_pages s"
  proof -
    have "r"
      using pmm_free_page_bitmap(2) [OF _ last] dn bounds a f1 by (simp add: pmm_ok_def)
    then show ?thesis
      using pmm_free_page_bitmap(3) [OF _ last] dn a f1 min by (auto simp: pmm_ok_def)
  qed
  ultimately show ?thesis
    using dk f1 a by simp
qed

lemma pmm_inc_full_table:
  assumes "\<forall>i < REFCOUNT_TABLE_SLOTS. ref_page (page_ref_table s i) \<notin> {-1, a div PAGE_SIZE}"
  shows "\<forall>i < REFCOUNT_TABLE_SLOTS. ref_page (page_ref_table (xscore_pmm_refcount_inc a s) i) \<notin> {-1, a div PAGE_SIZE}"
proof -
  have "find_from (ref_stop (a div PAGE_SIZE) (page_ref_table s)) 0 REFCOUNT_TABLE_SLOTS = None"
    using assms by (auto simp: find_from_None ref_stop_def)
  then have "snd (refcount_entry (a div PAGE_SIZE) True (page_ref_table s)) = page_ref_table s"
    by (simp add: refcount_entry_def refcount_probe_eq)
  then show ?thesis
    using assms by (auto simp: xscore_pmm_refcount_inc_def set_ref_count_def split: prod.splits option.splits)
qed

lemma pmm_full_table:
  assumes full: "\<forall>i < REFCOUNT_TABLE_SLOTS. ref_page (page_ref_table s i) \<notin> {-1, a div PAGE_SIZE}"
    and "4096 dvd unat a" "256 \<le> unat a div 4096" "unat a div 4096 < unat (managed_page_count s)"
    and "unat (managed_page_count s) \<le> 1048576" "unat a div 4096 \<notin> free_pages s"
  shows "unat a div 4096 \<in> free_pages (snd (xscore_pmm_refcount_dec a ((xscore_pmm_refcount_inc a ^^ n) s)))"
proof -
  let ?s = "(xscore_pmm_refcount_inc a ^^ n) s"
  have fields: "free_pages ?s = free_pages s" "managed_page_count ?s = managed_page_count s"
    by (induction n) simp_all
  have "\<forall>i < REFCOUNT_TABLE_SLOTS. ref_page (page_ref_table ?s i) \<notin> {-1, a div PAGE_SIZE}"
    using full by (induction n) (simp_all add: pmm_inc_full_table del: insert_iff)
  then have e: "refcount_entry (a div PAGE_SIZE) False (page_ref_table ?s) = (None, page_ref_table ?s)"
    by (intro refcount_entry_absent) auto
  then have "xscore_pmm_refcount_dec a ?s = xscore_pmm_free_page a ?s"
    by (simp add: xscore_pmm_refcount_dec_def)
  moreover have "unat a div 4096 \<notin> free_pages ?s"
    using assms(6) fields(1) by simp
  then have "page_is_used ?s (unat a div 4096)"
    using assms(4,5) by (simp add: free_pages_def)
  ultimately show ?thesis
    using pmm_free_page_accepted [OF assms(2,3) _ _ e] fields assms(4,5)
    by (simp add: Let_def free_pages_mark_free)
qed

section \<open>Initialisation from the firmware memory map\<close>



lemma ref_table_inv_initialize [simp]: "ref_table_inv (page_ref_table (refcount_initialize s))"
  by (rule ref_table_invI) (simp_all add: refcount_initialize_def)

lemma page_ref_table_loops [simp]:
  "page_ref_table (fold mark_range_free_body ps s) = page_ref_table s"
  "page_ref_table (fold reserve_page ps s) = page_ref_table s"
  by (induction ps arbitrary: s) (simp_all add: mark_range_free_body_def reserve_page_def)

lemma page_ref_table_ranges [simp]:
  "page_ref_table (mark_range_free a n s) = page_ref_table s"
  "page_ref_table (reserve_range a b s) = page_ref_table s"
  "page_ref_table (fill_bitmap s) = page_ref_table s"
  by (simp_all add: mark_range_free_def reserve_range_def Let_def fill_bitmap_def)

section \<open>A small machine\<close>

text \<open>
  Two free pages above the first megabyte: the state the concrete instances below start from.
\<close>

definition pmm_blank :: pmm where
  "pmm_blank = \<lparr>allocation_bitmap = (\<lambda>_. 0), managed_page_count = 0, free_page_count = 0,
     next_search_page = 0, page_ref_table = (\<lambda>_. \<lparr>ref_page = 0, ref_count = 0\<rparr>)\<rparr>"

definition pmm_small :: pmm where
  "pmm_small = snd (xscore_pmm_init_direct 0x102000 0x100000 pmm_blank)"

lemma pmm_small_init: "xscore_pmm_init_direct 0x102000 0x100000 pmm_blank = (True, pmm_small)"
proof -
  have "fst (xscore_pmm_init_direct 0x102000 0x100000 pmm_blank)"
    by (simp add: xscore_pmm_init_direct_def Let_def PAGE_SIZE_def MAX_PAGE_COUNT_def MAX_PHYSICAL_MEMORY_def)
  then show ?thesis
    by (simp add: pmm_small_def prod_eq_iff)
qed

lemma pmm_small_free: "pmm_inv pmm_small" "free_pages pmm_small = {256..<258}"
  using pmm_init_direct_exact [OF pmm_small_init] by simp_all

lemma pmm_init_direct_table:
  "page_ref_table (snd (xscore_pmm_init_direct m r s)) = page_ref_table (refcount_initialize s)"
  by (simp add: xscore_pmm_init_direct_def Let_def)

lemma pmm_small_table: "page_ref_table pmm_small = page_ref_table (refcount_initialize pmm_blank)"
  by (simp add: pmm_small_def pmm_init_direct_table)

lemma pmm_small_ok: "pmm_ok pmm_small" "ref_vacant (page_ref_table pmm_small)"
  by (simp_all add: pmm_ok_def pmm_small_free pmm_small_table)
    (auto simp: ref_vacant_def refcount_initialize_def REFCOUNT_TABLE_SLOTS_def intro: exI [of _ 0])

section \<open>The allocator's properties\<close>

text \<open>
  C15. Allocation hands out the lowest free page, marks exactly that page used and keeps the
  allocator's invariant (the free counter counts the clear bits, no page below the first
  megabyte or above the managed range is free, no free page lies below the search hint). It
  returns 0 and changes nothing exactly when no page is free, so the hint never hides a page.
\<close>

theorem pmm_allocate_page_correct:
  assumes "pmm_inv s" and "xscore_pmm_allocate_page s = (a, s')"
  shows "pmm_inv s' \<and>
    (if free_pages s = {} then a = 0 \<and> s' = s
     else unat a = Min (free_pages s) * 4096 \<and> LOW_MEMORY_RESERVATION \<le> a \<and>
          unat a div 4096 < unat (managed_page_count s) \<and>
          free_pages s' = free_pages s - {Min (free_pages s)})"
proof (cases "free_pages s = {}")
  case True
  then show ?thesis
    using assms by (simp add: pmm_allocate_exhausted)
next
  case False
  then have "Min (free_pages s) \<in> free_pages s"
    by simp
  then have "256 \<le> Min (free_pages s)" "Min (free_pages s) < unat (managed_page_count s)"
    using assms(1) by (auto simp: pmm_inv_def bitmap_inv_def)
  then show ?thesis
    using False pmm_allocate_lowest [OF assms] by (simp add: word_le_nat_alt)
qed

theorem pmm_allocate_page_correct_witness:
  "\<exists>a s'. xscore_pmm_allocate_page pmm_small = (a, s') \<and> unat a = 0x100000 \<and> free_pages s' = {257}"
proof -
  obtain a s' where eq: "xscore_pmm_allocate_page pmm_small = (a, s')"
    by fastforce
  have "Min {256..<258::nat} = 256"
    by (rule Min_eqI) auto
  then have "unat a = 0x100000 \<and> free_pages s' = {256..<258} - {256}"
    using pmm_allocate_page_correct [OF pmm_small_free(1) eq] by (simp add: pmm_small_free)
  moreover have "{256..<258} - {256} = {257::nat}"
    by auto
  ultimately show ?thesis
    using eq by simp
qed



text \<open>
  C17. Copy-on-write sharing: after one allocation and \<open>n\<close> increments of the reference count, the
  first \<open>n\<close> decrements leave the page allocated and the next one returns exactly that page to
  the free set. The table must have a vacant slot at the allocation and \<open>n\<close> must stay below the
  saturation value of the 16-bit count.
\<close>

theorem pmm_shared_page_lifetime:
  assumes "pmm_ok s" "ref_vacant (page_ref_table s)" "free_pages s \<noteq> {}"
    and "xscore_pmm_allocate_page s = (a, s1)" and "n < 65535" and "k \<le> n"
  shows "unat a div 4096 \<notin> free_pages
           (((\<lambda>s. snd (xscore_pmm_refcount_dec a s)) ^^ k) ((xscore_pmm_refcount_inc a ^^ n) s1)) \<and>
         free_pages (((\<lambda>s. snd (xscore_pmm_refcount_dec a s)) ^^ Suc n)
           ((xscore_pmm_refcount_inc a ^^ n) s1)) = free_pages s"
  using assms by (rule pmm_shared_page)

theorem pmm_shared_page_lifetime_witness:
  "\<exists>a s1. xscore_pmm_allocate_page pmm_small = (a, s1) \<and>
     unat a div 4096 \<notin> free_pages (snd (xscore_pmm_refcount_dec a (xscore_pmm_refcount_inc a s1))) \<and>
     free_pages (snd (xscore_pmm_refcount_dec a (snd (xscore_pmm_refcount_dec a
       (xscore_pmm_refcount_inc a s1))))) = {256..<258}"
proof -
  obtain a s1 where eq: "xscore_pmm_allocate_page pmm_small = (a, s1)"
    by fastforce
  then show ?thesis
    using pmm_shared_page_lifetime [OF pmm_small_ok _ eq, of 1 1] by (simp add: pmm_small_free)
qed



text \<open>
  C37. A defect: once no slot of the reference-count table is vacant, a page that has no slot never
  gets one. However often its count is incremented, the first decrement frees it, so a page
  that several address spaces share is handed out again while they still map it.
\<close>

theorem pmm_full_table_loses_sharing:
  assumes "\<forall>i < REFCOUNT_TABLE_SLOTS. ref_page (page_ref_table s i) \<notin> {-1, a div PAGE_SIZE}"
    and "4096 dvd unat a" "256 \<le> unat a div 4096" "unat a div 4096 < unat (managed_page_count s)"
    and "unat (managed_page_count s) \<le> 1048576" "unat a div 4096 \<notin> free_pages s"
  shows "unat a div 4096 \<in> free_pages (snd (xscore_pmm_refcount_dec a ((xscore_pmm_refcount_inc a ^^ n) s)))"
  using assms by (rule pmm_full_table)

theorem pmm_full_table_loses_sharing_witness:
  "let s = pmm_blank\<lparr>managed_page_count := 512, allocation_bitmap := (\<lambda>_. -1),
         page_ref_table := (\<lambda>_. \<lparr>ref_page = 7, ref_count = 0\<rparr>)\<rparr>
   in 256 \<notin> free_pages s \<and>
      256 \<in> free_pages (snd (xscore_pmm_refcount_dec 0x100000 ((xscore_pmm_refcount_inc 0x100000 ^^ 3) s)))"
proof -
  let ?s = "pmm_blank\<lparr>managed_page_count := 512, allocation_bitmap := (\<lambda>_. -1),
         page_ref_table := (\<lambda>_. \<lparr>ref_page = 7, ref_count = 0\<rparr>)\<rparr>"
  have used: "256 \<notin> free_pages ?s"
    by (simp add: free_pages_def page_is_used_bit)
  have "(0x100000 :: u64) div PAGE_SIZE = 256"
    by (simp add: PAGE_SIZE_def)
  then have "256 \<in> free_pages (snd (xscore_pmm_refcount_dec 0x100000 ((xscore_pmm_refcount_inc 0x100000 ^^ 3) ?s)))"
    using pmm_full_table_loses_sharing [of ?s "0x100000" 3] used by simp
  with used show ?thesis by (simp add: Let_def)
qed

end
