(* ===== verification/Virtual.thy ===== *)
theory Virtual
  imports Physical
begin

unbundle bit_operations_syntax

text \<open>
  The x86-64 page tables, \<^verbatim>\<open>xscore/memory/virtual.c\<close>. Physical memory is identity mapped in
  the kernel, so a page table is a run of 512 words of the store \<open>vm_mem\<close> and a table pointer
  is its physical address (0 is the null pointer). The state also holds the allocator, the
  page-table root register and the TLB shootdowns sent to the other processors, in order.
\<close>

section \<open>Constants and state\<close>

definition LARGE_PAGE_SIZE :: u64 where
  "LARGE_PAGE_SIZE = 2 * 1024 * 1024"

definition PAGE_ADDRESS_MASK :: u64 where
  "PAGE_ADDRESS_MASK = 0x000ffffffffff000"

definition LARGE_PAGE_FLAG :: u64 where
  "LARGE_PAGE_FLAG = 0x080"

definition ENTRIES_PER_TABLE :: nat where
  "ENTRIES_PER_TABLE = 512"

definition XSCORE_PAGE_PRESENT :: u64 where
  "XSCORE_PAGE_PRESENT = 0x001"

definition XSCORE_PAGE_WRITABLE :: u64 where
  "XSCORE_PAGE_WRITABLE = 0x002"

definition XSCORE_PAGE_USER :: u64 where
  "XSCORE_PAGE_USER = 0x004"

definition XSCORE_PAGE_NO_EXECUTE :: u64 where
  "XSCORE_PAGE_NO_EXECUTE = push_bit 63 1"

record vmm =
  vm_mem :: "u64 \<Rightarrow> u64"
  vm_pmm :: pmm
  root_table_address :: u64
  page_table_page_count :: u64
  cr3 :: u64
  cr0 :: u64
  efer :: u64
  tlb_shootdowns :: "(u64 \<times> u64) list"

record xscore_virtual_memory_stats =
  identity_mapped_bytes :: u64
  page_table_pages :: u64
  stat_root_table_address :: u64
  null_page_guarded :: u32

text \<open>\<^verbatim>\<open>table[index]\<close> for a table of 64-bit entries.\<close>

definition slot :: "u64 \<Rightarrow> nat \<Rightarrow> u64" where
  "slot table index = table + 8 * of_nat index"

definition get_entry :: "vmm \<Rightarrow> u64 \<Rightarrow> nat \<Rightarrow> u64" where
  "get_entry s table index = vm_mem s (slot table index)"

definition set_entry :: "u64 \<Rightarrow> nat \<Rightarrow> u64 \<Rightarrow> vmm \<Rightarrow> vmm" where
  "set_entry table index e s = s\<lparr>vm_mem := (vm_mem s)(slot table index := e)\<rparr>"

definition present :: "u64 \<Rightarrow> bool" where
  "present e \<longleftrightarrow> e AND XSCORE_PAGE_PRESENT \<noteq> 0"

definition large :: "u64 \<Rightarrow> bool" where
  "large e \<longleftrightarrow> e AND LARGE_PAGE_FLAG \<noteq> 0"

definition user :: "u64 \<Rightarrow> bool" where
  "user e \<longleftrightarrow> e AND XSCORE_PAGE_USER \<noteq> 0"

section \<open>Tables\<close>

definition zero_page :: "u64 \<Rightarrow> vmm \<Rightarrow> vmm" where
  "zero_page physical_address s =
     fold (\<lambda>index. set_entry physical_address index 0) [0 ..< ENTRIES_PER_TABLE] s"

definition allocate_table :: "vmm \<Rightarrow> u64 \<times> vmm" where
  "allocate_table s =
     (let (table, p) = xscore_pmm_allocate_page (vm_pmm s);
          s = s\<lparr>vm_pmm := p\<rparr>
      in if table = 0 then (0, s)
         else let s = zero_page table s
              in (table, s\<lparr>page_table_page_count := page_table_page_count s + 1\<rparr>))"

definition align_up :: "u64 \<Rightarrow> u64 \<Rightarrow> u64" where
  "align_up value alignment =
     (if value > -1 - (alignment - 1) then (-1) AND NOT (alignment - 1)
      else (value + alignment - 1) AND NOT (alignment - 1))"

definition next_level :: "u64 \<Rightarrow> nat \<Rightarrow> bool \<Rightarrow> u64 \<Rightarrow> vmm \<Rightarrow> u64 \<times> vmm" where
  "next_level table index create branch_flags s =
     (let entry = get_entry s table index;
          (failed, entry, s) =
            (if \<not> present entry then
               if \<not> create then (True, entry, s)
               else
                 let (child, s) = allocate_table s in
                 if child = 0 then (True, entry, s)
                 else
                   let e = child OR XSCORE_PAGE_PRESENT OR XSCORE_PAGE_WRITABLE OR
                           (branch_flags AND XSCORE_PAGE_USER);
                       s = set_entry table index e s
                   in (False, get_entry s table index, s)
             else (False, entry, s))
      in if failed then (0, s)
         else if large entry then (0, s)
         else
           let s = (if user branch_flags
                    then set_entry table index (get_entry s table index OR XSCORE_PAGE_USER) s else s)
           in (entry AND PAGE_ADDRESS_MASK, s))"

definition address_is_canonical :: "u64 \<Rightarrow> bool" where
  "address_is_canonical address =
     (let upper = drop_bit 48 address in
      if drop_bit 47 address AND 1 \<noteq> 0 then upper = 0xffff else upper = 0)"

definition pml4_index :: "u64 \<Rightarrow> nat" where
  "pml4_index va = unat (drop_bit 39 va AND 0x1ff)"

definition pdpt_index :: "u64 \<Rightarrow> nat" where
  "pdpt_index va = unat (drop_bit 30 va AND 0x1ff)"

definition directory_index :: "u64 \<Rightarrow> nat" where
  "directory_index va = unat (drop_bit 21 va AND 0x1ff)"

definition table_index :: "u64 \<Rightarrow> nat" where
  "table_index va = unat (drop_bit 12 va AND 0x1ff)"

definition xscore_smp_tlb_shootdown :: "u64 \<Rightarrow> u64 \<Rightarrow> vmm \<Rightarrow> vmm" where
  "xscore_smp_tlb_shootdown root va s = s\<lparr>tlb_shootdowns := tlb_shootdowns s @ [(root, va)]\<rparr>"

text \<open>
  The three \<^verbatim>\<open>next_level\<close> calls that every operation starts with, each behind the null test of
  the one before: the page directory, then the page table that holds the leaf entry.
\<close>

definition walk_directory :: "bool \<Rightarrow> u64 \<Rightarrow> u64 \<Rightarrow> u64 \<Rightarrow> vmm \<Rightarrow> u64 \<times> vmm" where
  "walk_directory create flags root va s =
     (let (pdpt, s) = next_level root (pml4_index va) create flags s in
      if pdpt = 0 then (0, s) else next_level pdpt (pdpt_index va) create flags s)"

definition walk_table :: "bool \<Rightarrow> u64 \<Rightarrow> u64 \<Rightarrow> u64 \<Rightarrow> vmm \<Rightarrow> u64 \<times> vmm" where
  "walk_table create flags root va s =
     (let (directory, s) = walk_directory create flags root va s in
      if directory = 0 then (0, s) else next_level directory (directory_index va) create flags s)"

section \<open>Mapping operations\<close>

definition xscore_vmm_map_page_in :: "u64 \<Rightarrow> u64 \<Rightarrow> u64 \<Rightarrow> u64 \<Rightarrow> vmm \<Rightarrow> bool \<times> vmm" where
  "xscore_vmm_map_page_in root va physical_address flags s =
     (if root = 0 \<or> va = 0 \<or> \<not> address_is_canonical va \<or> va AND (PAGE_SIZE - 1) \<noteq> 0 \<or>
         physical_address AND (PAGE_SIZE - 1) \<noteq> 0 then (False, s)
      else
        let (table, s) = walk_table True flags root va s in
        if table = 0 \<or> present (get_entry s table (table_index va)) then (False, s)
        else
          let s = set_entry table (table_index va) (physical_address OR flags OR XSCORE_PAGE_PRESENT) s
          in (True, xscore_smp_tlb_shootdown root va s))"

definition current_root :: "vmm \<Rightarrow> u64" where
  "current_root s = cr3 s AND PAGE_ADDRESS_MASK"

definition xscore_vmm_map_page :: "u64 \<Rightarrow> u64 \<Rightarrow> u64 \<Rightarrow> vmm \<Rightarrow> bool \<times> vmm" where
  "xscore_vmm_map_page va physical_address flags s =
     xscore_vmm_map_page_in (current_root s) va physical_address flags s"

text \<open>The result of an unmap is the physical address that was stored through the out parameter.\<close>

definition xscore_vmm_unmap_page_in :: "u64 \<Rightarrow> u64 \<Rightarrow> vmm \<Rightarrow> u64 option \<times> vmm" where
  "xscore_vmm_unmap_page_in root va s =
     (if root = 0 \<or> \<not> address_is_canonical va \<or> va AND (PAGE_SIZE - 1) \<noteq> 0 then (None, s)
      else
        let (table, s) = walk_table False 0 root va s in
        if table = 0 \<or> \<not> present (get_entry s table (table_index va)) then (None, s)
        else
          let physical_address = get_entry s table (table_index va) AND PAGE_ADDRESS_MASK;
              s = set_entry table (table_index va) 0 s
          in (Some physical_address, xscore_smp_tlb_shootdown root va s))"

definition xscore_vmm_unmap_page :: "u64 \<Rightarrow> vmm \<Rightarrow> u64 option \<times> vmm" where
  "xscore_vmm_unmap_page va s = xscore_vmm_unmap_page_in (current_root s) va s"

text \<open>The flags and the physical address of a mapped page.\<close>

definition xscore_vmm_is_mapped_in :: "u64 \<Rightarrow> u64 \<Rightarrow> vmm \<Rightarrow> (u64 \<times> u64) option" where
  "xscore_vmm_is_mapped_in root va s =
     (if root = 0 \<or> \<not> address_is_canonical va \<or> va AND (PAGE_SIZE - 1) \<noteq> 0 then None
      else
        let (table, s) = walk_table False 0 root va s in
        if table = 0 then None
        else
          let entry = get_entry s table (table_index va) in
          if \<not> present entry then None
          else Some (entry AND NOT PAGE_ADDRESS_MASK, entry AND PAGE_ADDRESS_MASK))"

definition xscore_vmm_is_mapped :: "u64 \<Rightarrow> vmm \<Rightarrow> u64 option" where
  "xscore_vmm_is_mapped va s = map_option fst (xscore_vmm_is_mapped_in (current_root s) va s)"

definition xscore_vmm_update_page_flags :: "u64 \<Rightarrow> u64 \<Rightarrow> vmm \<Rightarrow> bool \<times> vmm" where
  "xscore_vmm_update_page_flags va flags s =
     (let root = root_table_address s in
      if root = 0 \<or> \<not> address_is_canonical va \<or> va AND (PAGE_SIZE - 1) \<noteq> 0 then (False, s)
      else
        let (table, s) = walk_table False 0 root va s in
        if table = 0 \<or> \<not> present (get_entry s table (table_index va)) then (False, s)
        else
          let physical = get_entry s table (table_index va) AND PAGE_ADDRESS_MASK;
              s = set_entry table (table_index va) (physical OR flags OR XSCORE_PAGE_PRESENT) s
          in (True, xscore_smp_tlb_shootdown root va s))"

definition xscore_vmm_split_large_page :: "u64 \<Rightarrow> vmm \<Rightarrow> bool \<times> vmm" where
  "xscore_vmm_split_large_page va s =
     (let root = root_table_address s in
      if root = 0 \<or> \<not> address_is_canonical va \<or> va AND (LARGE_PAGE_SIZE - 1) \<noteq> 0 then (False, s)
      else
        let (directory, s) = walk_directory False 0 root va s in
        if directory = 0 then (False, s)
        else
          let entry = get_entry s directory (directory_index va) in
          if \<not> present entry \<or> \<not> large entry then (True, xscore_smp_tlb_shootdown root va s)
          else
            let (table, s) = allocate_table s in
            if table = 0 then (False, s)
            else
              let physical_base = entry AND PAGE_ADDRESS_MASK;
                  page_flags = entry AND (XSCORE_PAGE_PRESENT OR XSCORE_PAGE_WRITABLE OR
                                          XSCORE_PAGE_USER OR XSCORE_PAGE_NO_EXECUTE);
                  s = fold (\<lambda>index. set_entry table index
                              ((physical_base + of_nat index * PAGE_SIZE) OR page_flags))
                        [0 ..< ENTRIES_PER_TABLE] s;
                  branch_flags = XSCORE_PAGE_PRESENT OR XSCORE_PAGE_WRITABLE;
                  branch_flags = (if user entry then branch_flags OR XSCORE_PAGE_USER else branch_flags);
                  s = set_entry directory (directory_index va) (table OR branch_flags) s
              in (True, xscore_smp_tlb_shootdown root va s))"

section \<open>Address spaces\<close>

definition xscore_vmm_root_table :: "vmm \<Rightarrow> u64" where
  "xscore_vmm_root_table s = root_table_address s"

definition xscore_vmm_current_root :: "vmm \<Rightarrow> u64" where
  "xscore_vmm_current_root s = current_root s"

definition xscore_vmm_activate :: "u64 \<Rightarrow> vmm \<Rightarrow> bool \<times> vmm" where
  "xscore_vmm_activate root s =
     (if root = 0 \<or> root AND (PAGE_SIZE - 1) \<noteq> 0 then (False, s)
      else
        let s = (if current_root s \<noteq> root then s\<lparr>cr3 := root\<rparr> else s)
        in (current_root s = root, s))"

definition copy_kernel_entry :: "u64 \<Rightarrow> u64 \<Rightarrow> nat \<Rightarrow> vmm \<Rightarrow> vmm" where
  "copy_kernel_entry kernel_pml4 process_pml4 index s =
     (let entry = get_entry s kernel_pml4 index in
      if present entry \<and> \<not> user entry then set_entry process_pml4 index entry s else s)"

definition xscore_vmm_address_space_create :: "vmm \<Rightarrow> u64 \<times> vmm" where
  "xscore_vmm_address_space_create s =
     (if root_table_address s = 0 then (0, s)
      else
        let (new_root, s) = allocate_table s in
        if new_root = 0 then (0, s)
        else (new_root,
              fold (copy_kernel_entry (root_table_address s) new_root) [0 ..< ENTRIES_PER_TABLE] s))"

definition xscore_vmm_address_space_sync_kernel :: "u64 \<Rightarrow> vmm \<Rightarrow> vmm" where
  "xscore_vmm_address_space_sync_kernel root s =
     (if root_table_address s = 0 \<or> root = 0 then s
      else fold (copy_kernel_entry (root_table_address s) root) [0 ..< ENTRIES_PER_TABLE] s)"

fun free_user_tables :: "u64 \<Rightarrow> nat \<Rightarrow> vmm \<Rightarrow> vmm" where
  "free_user_tables table level s =
     fold (\<lambda>index s.
         let entry = get_entry s table index in
         if entry AND (XSCORE_PAGE_PRESENT OR XSCORE_PAGE_USER) \<noteq> XSCORE_PAGE_PRESENT OR XSCORE_PAGE_USER
         then s
         else
           let s = (if level > 1 \<and> \<not> large entry then
                      let child = entry AND PAGE_ADDRESS_MASK;
                          s = free_user_tables child (level - 1) s
                      in s\<lparr>vm_pmm := snd (xscore_pmm_free_page child (vm_pmm s))\<rparr>
                    else s)
           in set_entry table index 0 s)
       [0 ..< ENTRIES_PER_TABLE] s"

definition xscore_vmm_address_space_destroy :: "u64 \<Rightarrow> vmm \<Rightarrow> vmm" where
  "xscore_vmm_address_space_destroy root s =
     (if root = 0 \<or> root = root_table_address s \<or> root = current_root s then s
      else
        let s = free_user_tables root 4 s
        in s\<lparr>vm_pmm := snd (xscore_pmm_free_page root (vm_pmm s))\<rparr>)"

declare free_user_tables.simps [simp del]

section \<open>Initialisation\<close>

definition enable_nxe :: "vmm \<Rightarrow> vmm" where
  "enable_nxe s = (if efer s AND push_bit 11 1 = 0 then s\<lparr>efer := efer s OR push_bit 11 1\<rparr> else s)"

definition enable_write_protect :: "vmm \<Rightarrow> vmm" where
  "enable_write_protect s = s\<lparr>cr0 := cr0 s OR push_bit 16 1\<rparr>"

text \<open>
  One page directory of the identity map: the inner loop of \<^verbatim>\<open>xscore_vmm_initialize\<close>. The first
  2 MiB get a page table whose entry 0 stays empty, every other entry is a large page. The
  result is the address up to which memory is mapped, \<^const>\<open>None\<close> when no page is left.
\<close>

function identity_directory :: "u64 \<Rightarrow> u64 \<Rightarrow> nat \<Rightarrow> u64 \<Rightarrow> vmm \<Rightarrow> u64 option \<times> vmm" where
  "identity_directory identity_limit directory entry mapped s =
     (if entry < ENTRIES_PER_TABLE \<and> mapped < identity_limit then
        if mapped = 0 then
          let (table, s) = allocate_table s in
          if table = 0 then (None, s)
          else
            let s = set_entry directory entry (table OR XSCORE_PAGE_PRESENT OR XSCORE_PAGE_WRITABLE) s;
                s = fold (\<lambda>page. set_entry table page
                            (of_nat page * PAGE_SIZE OR XSCORE_PAGE_PRESENT OR XSCORE_PAGE_WRITABLE))
                      [1 ..< ENTRIES_PER_TABLE] s
            in identity_directory identity_limit directory (Suc entry) LARGE_PAGE_SIZE s
        else
          identity_directory identity_limit directory (Suc entry) (mapped + LARGE_PAGE_SIZE)
            (set_entry directory entry
               (mapped OR XSCORE_PAGE_PRESENT OR XSCORE_PAGE_WRITABLE OR LARGE_PAGE_FLAG) s)
      else (Some mapped, s))"
  by pat_completeness auto
termination
  by (relation "measure (\<lambda>(identity_limit, directory, entry, mapped, s). ENTRIES_PER_TABLE - entry)") auto

declare identity_directory.simps [simp del]

function identity_map :: "u64 \<Rightarrow> u64 \<Rightarrow> nat \<Rightarrow> u64 \<Rightarrow> vmm \<Rightarrow> u64 option \<times> vmm" where
  "identity_map identity_limit pdpt pdpt_idx mapped s =
     (if mapped < identity_limit then
        if pdpt_idx \<ge> ENTRIES_PER_TABLE then (None, s)
        else
          let (directory, s) = allocate_table s in
          if directory = 0 then (None, s)
          else
            let s = set_entry pdpt pdpt_idx
                      (directory OR XSCORE_PAGE_PRESENT OR XSCORE_PAGE_WRITABLE) s
            in (case identity_directory identity_limit directory 0 mapped s of
                  (None, s) \<Rightarrow> (None, s)
                | (Some mapped, s) \<Rightarrow> identity_map identity_limit pdpt (Suc pdpt_idx) mapped s)
      else (Some mapped, s))"
  by pat_completeness auto
termination
  by (relation "measure (\<lambda>(identity_limit, pdpt, pdpt_idx, mapped, s). ENTRIES_PER_TABLE - pdpt_idx)") auto

declare identity_map.simps [simp del]

definition xscore_vmm_initialize ::
  "u64 \<Rightarrow> u64 \<Rightarrow> u64 \<Rightarrow> vmm \<Rightarrow> xscore_virtual_memory_stats option \<times> vmm" where
  "xscore_vmm_initialize framebuffer_address framebuffer_size highest s =
     (let s = enable_nxe s;
          framebuffer_end = framebuffer_address + framebuffer_size
      in if framebuffer_end < framebuffer_address then (None, s)
         else
           let identity_limit = (if framebuffer_end > highest then framebuffer_end else highest);
               identity_limit = align_up identity_limit LARGE_PAGE_SIZE
           in if identity_limit = 0 \<or> identity_limit > 512 * 1024 * 1024 * 1024 then (None, s)
              else
                let (root, s) = allocate_table (s\<lparr>page_table_page_count := 0\<rparr>);
                    s = s\<lparr>root_table_address := root\<rparr>;
                    (pdpt, s) = allocate_table s
                in if root = 0 \<or> pdpt = 0 then (None, s)
                   else
                     let s = set_entry root 0 (pdpt OR XSCORE_PAGE_PRESENT OR XSCORE_PAGE_WRITABLE) s
                     in (case identity_map identity_limit pdpt 0 0 s of
                           (None, s) \<Rightarrow> (None, s)
                         | (Some mapped, s) \<Rightarrow>
                             let s = enable_write_protect (s\<lparr>cr3 := root\<rparr>) in
                             if current_root s \<noteq> root then (None, s)
                             else (Some \<lparr>identity_mapped_bytes = mapped,
                                         page_table_pages = page_table_page_count s,
                                         stat_root_table_address = root,
                                         null_page_guarded = 1\<rparr>, s)))"

end
