(* ===== verification/Virtual_Walk.thy ===== *)
theory Virtual_Walk
  imports Virtual
begin

unbundle bit_operations_syntax

text \<open>
  Facts on the page-table walk of \<^verbatim>\<open>xscore/memory/virtual.c\<close>: the four indices determine a
  page, the bits of an entry, the forest of tables (\<open>vm_wf\<close>: which table lies at which level
  and that no table below the root has two parents), and that \<^verbatim>\<open>next_level\<close> with
  \<^verbatim>\<open>create\<close> extends the forest without changing a translation.
\<close>

section \<open>Indices and slots\<close>

definition page_aligned :: "u64 \<Rightarrow> bool" where
  "page_aligned a \<longleftrightarrow> 4096 dvd unat a"

lemma slot_unat: "page_aligned t \<Longrightarrow> i < 512 \<Longrightarrow> unat (slot t i) = unat t + 8 * i"
proof -
  assume t: "page_aligned t" and i: "i < 512"
  have "unat t \<le> 18446744073709551616 - 4096"
  proof -
    obtain k where k: "unat t = 4096 * k"
      using t unfolding page_aligned_def by (elim dvdE)
    then have "k < 4503599627370496"
      using unat_lt_max64 [of t] by simp
    with k show ?thesis by simp
  qed
  moreover have "unat (8 * of_nat i :: u64) = 8 * i"
    using i by (simp add: unat_word_ariths unat_of_nat)
  ultimately show ?thesis
    using i by (simp add: slot_def unat_word_ariths)
qed

lemma slot_eq_iff:
  assumes "page_aligned t" "page_aligned t'" "i < 512" "i' < 512"
  shows "slot t i = slot t' i' \<longleftrightarrow> t = t' \<and> i = i'"
proof
  assume "slot t i = slot t' i'"
  then have eq: "unat t + 8 * i = unat t' + 8 * i'"
    using assms by (metis slot_unat)
  obtain k k' where k: "unat t = 4096 * k" "unat t' = 4096 * k'"
    using assms(1,2) unfolding page_aligned_def by (elim dvdE)
  have "(4096 * k + 8 * i) div 4096 = k" "(4096 * k' + 8 * i') div 4096 = k'"
    using assms(3,4) by simp_all
  then have "k = k'"
    using eq k by metis
  then show "t = t' \<and> i = i'"
    using eq k by (simp add: word_unat_eq_iff)
qed simp

lemma index_bounds [simp]:
  "pml4_index va < 512" "pdpt_index va < 512" "directory_index va < 512" "table_index va < 512"
proof -
  have "unat (x AND 0x1ff) < 512" for x :: u64
  proof -
    have "x AND 0x1ff = take_bit 9 x"
      by (simp add: take_bit_eq_mask mask_eq_exp_minus_1)
    then show ?thesis
      by (simp add: take_bit_eq_mod unat_mod)
  qed
  then show "pml4_index va < 512" "pdpt_index va < 512" "directory_index va < 512" "table_index va < 512"
    by (simp_all add: pml4_index_def pdpt_index_def directory_index_def table_index_def)
qed

lemma index_bit:
  fixes x y :: u64
  assumes eq: "unat (drop_bit m x AND 0x1ff) = unat (drop_bit m y AND 0x1ff)" and n: "n < 9"
  shows "bit x (m + n) = bit y (m + n)"
proof -
  have m: "(0x1ff :: u64) = mask 9"
    by (simp add: mask_eq_exp_minus_1)
  have "drop_bit m x AND 0x1ff = drop_bit m y AND 0x1ff"
    using eq by (rule word_unat_eq_iff [THEN iffD2])
  then have "bit (drop_bit m x AND mask 9) n = bit (drop_bit m y AND mask 9) n"
    unfolding m by simp
  then show ?thesis
    using n by (simp add: bit_simps)
qed

lemma canonical_bit:
  assumes "address_is_canonical x" "48 \<le> n" "n < 64"
  shows "bit x n \<longleftrightarrow> bit x 47"
proof -
  have one: "drop_bit 47 x AND 1 \<noteq> 0 \<longleftrightarrow> bit x 47"
    by (simp add: and_one_eq odd_iff_mod_2_eq_one [symmetric] bit_iff_odd_drop_bit)
  have up: "bit x n = bit (drop_bit 48 x) (n - 48)"
    using assms(2) by (simp add: bit_simps)
  show ?thesis
  proof (cases "bit x 47")
    case True
    then have "drop_bit 48 x = mask 16"
      using assms(1) one by (simp add: address_is_canonical_def Let_def mask_eq_exp_minus_1)
    then have "bit x n = bit (mask 16 :: u64) (n - 48)"
      using up by metis
    also have "\<dots>"
      using assms(2,3) by (auto simp: bit_mask_iff)
    finally show ?thesis
      using True by simp
  next
    case False
    then have "drop_bit 48 x = 0"
      using assms(1) one by (simp add: address_is_canonical_def Let_def)
    with False up show ?thesis by simp
  qed
qed

lemma aligned_bit: "x AND (PAGE_SIZE - 1) = 0 \<Longrightarrow> n < 12 \<Longrightarrow> \<not> bit (x :: u64) n"
proof -
  assume "x AND (PAGE_SIZE - 1) = 0" and n: "n < 12"
  moreover have "PAGE_SIZE - 1 = mask 12"
    by (simp add: PAGE_SIZE_def mask_eq_exp_minus_1)
  ultimately have "bit (x AND mask 12) n = False"
    by simp
  then show ?thesis
    using n by (simp add: bit_simps)
qed

lemma va_indices_inj:
  assumes "address_is_canonical x" "address_is_canonical y"
    "x AND (PAGE_SIZE - 1) = 0" "y AND (PAGE_SIZE - 1) = 0"
    "pml4_index x = pml4_index y" "pdpt_index x = pdpt_index y"
    "directory_index x = directory_index y" "table_index x = table_index y"
  shows "x = y"
proof (rule bit_word_eqI)
  fix n assume n: "n < LENGTH(64)"
  have low: "bit x n = bit y n" if lt: "n < 48" for n
  proof -
    consider "n < 12" | "12 \<le> n" "n < 21" | "21 \<le> n" "n < 30" | "30 \<le> n" "n < 39" | "39 \<le> n" "n < 48"
      using lt by linarith
    then show ?thesis
    proof cases
      case 1
      then show ?thesis using aligned_bit assms(3,4) by blast
    next
      case 2
      then show ?thesis using index_bit [of 12 x y "n - 12"] assms(8) by (simp add: table_index_def)
    next
      case 3
      then show ?thesis using index_bit [of 21 x y "n - 21"] assms(7) by (simp add: directory_index_def)
    next
      case 4
      then show ?thesis using index_bit [of 30 x y "n - 30"] assms(6) by (simp add: pdpt_index_def)
    next
      case 5
      then show ?thesis using index_bit [of 39 x y "n - 39"] assms(5) by (simp add: pml4_index_def)
    qed
  qed
  show "bit x n = bit y n"
  proof (cases "n < 48")
    case False
    then show ?thesis
      using canonical_bit [of _ n] assms(1,2) n low [of 47] by simp
  qed (rule low)
qed

section \<open>Entries and the forest of tables\<close>

lemma present_bit: "present e \<longleftrightarrow> bit e 0"
proof -
  have "XSCORE_PAGE_PRESENT = 2 ^ 0" by (simp add: XSCORE_PAGE_PRESENT_def)
  then show ?thesis unfolding present_def by (metis and_exp_eq_0_iff_not_bit)
qed

lemma user_bit: "user e \<longleftrightarrow> bit e 2"
proof -
  have "XSCORE_PAGE_USER = 2 ^ 2" by (simp add: XSCORE_PAGE_USER_def)
  then show ?thesis unfolding user_def by (metis and_exp_eq_0_iff_not_bit)
qed

lemma large_bit: "large e \<longleftrightarrow> bit e 7"
proof -
  have "LARGE_PAGE_FLAG = 2 ^ 7" by (simp add: LARGE_PAGE_FLAG_def)
  then show ?thesis unfolding large_def by (metis and_exp_eq_0_iff_not_bit)
qed

lemma bit_flag: "x = 2 ^ k \<Longrightarrow> k < 64 \<Longrightarrow> bit (x :: u64) n \<longleftrightarrow> n = k"
  by (auto simp: bit_exp_iff possible_bit_def)

lemma flag_bits:
  "bit XSCORE_PAGE_PRESENT n \<longleftrightarrow> n = 0" "bit XSCORE_PAGE_WRITABLE n \<longleftrightarrow> n = 1"
  "bit XSCORE_PAGE_USER n \<longleftrightarrow> n = 2" "bit LARGE_PAGE_FLAG n \<longleftrightarrow> n = 7"
  "bit XSCORE_PAGE_NO_EXECUTE n \<longleftrightarrow> n = 63"
  by (rule bit_flag; simp add: XSCORE_PAGE_PRESENT_def XSCORE_PAGE_WRITABLE_def
      XSCORE_PAGE_USER_def LARGE_PAGE_FLAG_def XSCORE_PAGE_NO_EXECUTE_def push_bit_of_1)+

lemma mask_bit: "bit PAGE_ADDRESS_MASK n \<longleftrightarrow> 12 \<le> n \<and> n < 52"
proof -
  have eq: "PAGE_ADDRESS_MASK = push_bit 12 (mask 40)"
    by (simp add: PAGE_ADDRESS_MASK_def mask_eq_exp_minus_1 push_bit_eq_mult)
  show ?thesis
    unfolding eq bit_push_bit_iff bit_mask_iff possible_bit_word by auto
qed

lemmas entry_bits = present_bit user_bit large_bit flag_bits mask_bit bit_or_iff bit_and_iff

definition table_address :: "u64 \<Rightarrow> bool" where
  "table_address t \<longleftrightarrow> t \<noteq> 0 \<and> page_aligned t \<and> t AND PAGE_ADDRESS_MASK = t"

lemma table_address_bits:
  assumes "t AND PAGE_ADDRESS_MASK = t" "bit t n"
  shows "12 \<le> n \<and> n < 52"
  using assms by (metis bit_and_iff mask_bit)

lemma page_aligned_and: "page_aligned a \<longleftrightarrow> a AND (PAGE_SIZE - 1) = 0"
  by (simp add: page_aligned_def page_offset_zero)

lemma masked_aligned: "page_aligned (e AND PAGE_ADDRESS_MASK)"
proof -
  have "(e AND PAGE_ADDRESS_MASK) AND (PAGE_SIZE - 1) = 0"
  proof (rule bit_word_eqI)
    fix n assume "n < LENGTH(64)"
    have eq: "PAGE_SIZE - 1 = mask 12"
      by (simp add: PAGE_SIZE_def mask_eq_exp_minus_1)
    show "bit ((e AND PAGE_ADDRESS_MASK) AND (PAGE_SIZE - 1)) n = bit 0 n"
      unfolding eq bit_and_iff mask_bit bit_mask_iff by simp
  qed
  then show ?thesis
    by (simp add: page_aligned_and)
qed

lemma or_flags_mask:
  assumes "t AND PAGE_ADDRESS_MASK = t" and "\<And>n. bit f n \<Longrightarrow> n < 12 \<or> 52 \<le> n"
  shows "(t OR f) AND PAGE_ADDRESS_MASK = t"
proof (rule bit_word_eqI)
  fix n assume "n < LENGTH(64)"
  show "bit ((t OR f) AND PAGE_ADDRESS_MASK) n = bit t n"
    using assms(2) [of n] table_address_bits [OF assms(1), of n] by (auto simp: entry_bits)
qed

definition child :: "vmm \<Rightarrow> u64 \<Rightarrow> nat \<Rightarrow> u64" where
  "child s t i = (let e = get_entry s t i in if present e \<and> \<not> large e then e AND PAGE_ADDRESS_MASK else 0)"

lemma next_level_lookup: "next_level t i False 0 s = (child s t i, s)"
  by (simp add: next_level_def child_def user_def Let_def)

lemma get_entry_set_entry:
  assumes "page_aligned t" "page_aligned t'" "i < 512" "i' < 512"
  shows "get_entry (set_entry t i e s) t' i' = (if t = t' \<and> i = i' then e else get_entry s t' i')"
  using slot_eq_iff [OF assms] by (auto simp: get_entry_def set_entry_def)

lemma set_entry_fields [simp]:
  "vm_pmm (set_entry t i e s) = vm_pmm s" "root_table_address (set_entry t i e s) = root_table_address s"
  "cr3 (set_entry t i e s) = cr3 s" "tlb_shootdowns (set_entry t i e s) = tlb_shootdowns s"
  "page_table_page_count (set_entry t i e s) = page_table_page_count s"
  by (simp_all add: set_entry_def)

lemma fold_set_entry_fields [simp]:
  "vm_pmm (fold (\<lambda>i. set_entry t i (g i)) is s) = vm_pmm s"
  "root_table_address (fold (\<lambda>i. set_entry t i (g i)) is s) = root_table_address s"
  "cr3 (fold (\<lambda>i. set_entry t i (g i)) is s) = cr3 s"
  "tlb_shootdowns (fold (\<lambda>i. set_entry t i (g i)) is s) = tlb_shootdowns s"
  by (induction "is" arbitrary: s) simp_all

lemma get_entry_fold:
  assumes "page_aligned t" "page_aligned t'" "hi \<le> 512" "j < 512"
  shows "get_entry (fold (\<lambda>i. set_entry t i (g i)) [lo..<hi] s) t' j =
    (if t = t' \<and> lo \<le> j \<and> j < hi then g j else get_entry s t' j)"
  using assms(3)
proof (induction hi)
  case 0
  then show ?case by simp
next
  case (Suc hi)
  show ?case
  proof (cases "lo \<le> hi")
    case True
    then show ?thesis
      using Suc assms by (auto simp: get_entry_set_entry)
  next
    case False
    then show ?thesis by auto
  qed
qed

lemma get_entry_state [simp]:
  "get_entry (s\<lparr>vm_pmm := p\<rparr>) t i = get_entry s t i"
  "get_entry (s\<lparr>page_table_page_count := n\<rparr>) t i = get_entry s t i"
  "get_entry (xscore_smp_tlb_shootdown r va s) t i = get_entry s t i"
  by (simp_all add: get_entry_def xscore_smp_tlb_shootdown_def)

text \<open>
  The ghost map \<open>L\<close> gives the level of every live table: 4 for a root, 1 for a table of leaves.
  Roots may share kernel tables, every other table has one parent entry.
\<close>

definition tables_ok :: "(u64 \<Rightarrow> nat option) \<Rightarrow> pmm \<Rightarrow> bool" where
  "tables_ok L p \<longleftrightarrow> (\<forall>t l. L t = Some l \<longrightarrow>
     table_address t \<and> 1 \<le> l \<and> l \<le> 4 \<and> unat t div 4096 \<notin> free_pages p)"

definition children_ok :: "(u64 \<Rightarrow> nat option) \<Rightarrow> vmm \<Rightarrow> bool" where
  "children_ok L s \<longleftrightarrow> (\<forall>t l i. L t = Some l \<longrightarrow> 1 < l \<longrightarrow> i < 512 \<longrightarrow> child s t i \<noteq> 0 \<longrightarrow>
     L (child s t i) = Some (l - 1))"

definition parents_ok :: "(u64 \<Rightarrow> nat option) \<Rightarrow> vmm \<Rightarrow> bool" where
  "parents_ok L s \<longleftrightarrow> (\<forall>t t' l i i'. L t = Some l \<longrightarrow> L t' = Some l \<longrightarrow> 1 < l \<longrightarrow> i < 512 \<longrightarrow> i' < 512 \<longrightarrow>
     child s t i = child s t' i' \<longrightarrow> child s t i \<noteq> 0 \<longrightarrow> l < 4 \<or> t = t' \<longrightarrow> t = t' \<and> i = i')"

definition vm_wf :: "(u64 \<Rightarrow> nat option) \<Rightarrow> vmm \<Rightarrow> bool" where
  "vm_wf L s \<longleftrightarrow> pmm_inv (vm_pmm s) \<and> tables_ok L (vm_pmm s) \<and> children_ok L s \<and> parents_ok L s"

lemma vm_wf_pmm: "vm_wf L s \<Longrightarrow> pmm_inv (vm_pmm s)"
  by (simp add: vm_wf_def)

lemma tables_okD:
  assumes "tables_ok L p" "L t = Some l"
  shows "table_address t \<and> 1 \<le> l \<and> l \<le> 4 \<and> unat t div 4096 \<notin> free_pages p"
  using assms unfolding tables_ok_def by (elim allE impE) assumption+

lemma vm_wf_table:
  assumes "vm_wf L s" "L t = Some l"
  shows "table_address t" "1 \<le> l" "l \<le> 4" "unat t div 4096 \<notin> free_pages (vm_pmm s)" "page_aligned t" "t \<noteq> 0"
  using tables_okD [of L "vm_pmm s" t l] assms by (simp_all add: vm_wf_def table_address_def)

lemma vm_wf_child:
  assumes "vm_wf L s" "L t = Some l" "1 < l" "i < 512" "child s t i \<noteq> 0"
  shows "L (child s t i) = Some (l - 1)"
proof -
  have "children_ok L s" using assms(1) by (simp add: vm_wf_def)
  then show ?thesis
    using assms(2-) unfolding children_ok_def by (elim allE impE) assumption+
qed

lemma vm_wf_parent:
  assumes "vm_wf L s" "L t = Some l" "L t' = Some l" "1 < l" "i < 512" "i' < 512"
    "child s t i = child s t' i'" "child s t i \<noteq> 0" "l < 4 \<or> t = t'"
  shows "t = t' \<and> i = i'"
proof -
  have "parents_ok L s" using assms(1) by (simp add: vm_wf_def)
  then show ?thesis
    using assms(2-) unfolding parents_ok_def by (elim allE impE) assumption+
qed

lemma vm_wfI:
  assumes "pmm_inv (vm_pmm s)"
    and "\<And>t l. L t = Some l \<Longrightarrow> table_address t \<and> 1 \<le> l \<and> l \<le> 4 \<and> unat t div 4096 \<notin> free_pages (vm_pmm s)"
    and "\<And>t l i. L t = Some l \<Longrightarrow> 1 < l \<Longrightarrow> i < 512 \<Longrightarrow> child s t i \<noteq> 0 \<Longrightarrow> L (child s t i) = Some (l - 1)"
    and "\<And>t t' l i i'. L t = Some l \<Longrightarrow> L t' = Some l \<Longrightarrow> 1 < l \<Longrightarrow> i < 512 \<Longrightarrow> i' < 512 \<Longrightarrow>
        child s t i = child s t' i' \<Longrightarrow> child s t i \<noteq> 0 \<Longrightarrow> l < 4 \<or> t = t' \<Longrightarrow> t = t' \<and> i = i'"
  shows "vm_wf L s"
proof -
  have "tables_ok L (vm_pmm s)"
    unfolding tables_ok_def using assms(2) by (intro allI impI)
  moreover have "children_ok L s"
    unfolding children_ok_def using assms(3) by (intro allI impI)
  moreover have "parents_ok L s"
    unfolding parents_ok_def using assms(4) by (intro allI impI)
  ultimately show ?thesis
    using assms(1) by (simp add: vm_wf_def)
qed

section \<open>Fresh tables and leaf entries\<close>

lemma mask_small:
  assumes "page_aligned a" "unat a < 2 ^ 52"
  shows "a AND PAGE_ADDRESS_MASK = a"
proof (rule bit_word_eqI)
  fix n assume n: "n < LENGTH(64)"
  have "\<not> bit a n" if "n < 12"
    using that aligned_bit [of a n] assms(1) by (simp add: page_aligned_and)
  moreover have "\<not> bit a n" if "52 \<le> n"
  proof -
    have "unat a < 2 ^ n"
      using assms(2) that power_increasing [of 52 n "2::nat"] by simp
    then have "\<not> bit (unat a) n"
      by (simp add: bit_iff_odd)
    then show ?thesis
      by (simp add: bit_unsigned_iff)
  qed
  ultimately show "bit (a AND PAGE_ADDRESS_MASK) n = bit a n"
    unfolding bit_and_iff mask_bit by (metis not_le)
qed

lemma pmm_alloc_table_address:
  assumes "pmm_inv p" "xscore_pmm_allocate_page p = (a, p')" "a \<noteq> 0"
  shows "table_address a"
proof -
  have ne: "free_pages p \<noteq> {}"
    using pmm_pages.alloc_zero_iff [OF assms(1,2)] assms(3) by simp
  have a: "4096 dvd unat a" "unat a div 4096 \<in> free_pages p"
    using pmm_pages.alloc_some [OF assms(1) ne assms(2)] by blast+
  then have "unat a < 2 ^ 32"
    by (auto simp: free_pages_def MAX_PAGE_COUNT_def MAX_PHYSICAL_MEMORY_def PAGE_SIZE_def elim!: dvdE)
  then show ?thesis
    using a assms(3) mask_small [of a] by (simp add: table_address_def page_aligned_def)
qed

lemma zero_page_entry:
  assumes "page_aligned t" "page_aligned t'" "j < 512"
  shows "get_entry (zero_page t s) t' j = (if t = t' then 0 else get_entry s t' j)"
  using get_entry_fold [OF assms(1,2) order_refl assms(3), of "\<lambda>i. 0" 0 s] assms(3)
  by (simp add: zero_page_def ENTRIES_PER_TABLE_def)

lemma zero_page_fields [simp]:
  "vm_pmm (zero_page t s) = vm_pmm s" "root_table_address (zero_page t s) = root_table_address s"
  "cr3 (zero_page t s) = cr3 s" "tlb_shootdowns (zero_page t s) = tlb_shootdowns s"
  by (simp_all add: zero_page_def)

lemma allocate_table_fields:
  assumes "allocate_table s = (c, s')"
  shows "root_table_address s' = root_table_address s" "cr3 s' = cr3 s"
    "tlb_shootdowns s' = tlb_shootdowns s"
  using assms by (auto simp: allocate_table_def Let_def split: prod.splits if_splits)

text \<open>A table fresh from the allocator.\<close>

lemma allocate_table_spec:
  assumes wf: "vm_wf L s" and al: "allocate_table s = (c, s')"
  shows "pmm_inv (vm_pmm s')" "free_pages (vm_pmm s') \<subseteq> free_pages (vm_pmm s)"
    and "c = 0 \<Longrightarrow> get_entry s' = get_entry s"
    and "c \<noteq> 0 \<Longrightarrow> table_address c \<and> L c = None \<and> unat c div 4096 \<notin> free_pages (vm_pmm s') \<and>
      (\<forall>t j. page_aligned t \<longrightarrow> j < 512 \<longrightarrow> get_entry s' t j = (if t = c then 0 else get_entry s t j))"
proof -
  obtain a p where a: "xscore_pmm_allocate_page (vm_pmm s) = (a, p)"
    by fastforce
  have c: "c = a" and s': "s' = (if a = 0 then s\<lparr>vm_pmm := p\<rparr> else
      (let u = zero_page a (s\<lparr>vm_pmm := p\<rparr>) in u\<lparr>page_table_page_count := page_table_page_count u + 1\<rparr>))"
    using al a by (auto simp: allocate_table_def Let_def split: if_splits)
  have p: "vm_pmm s' = p"
    by (simp add: s' Let_def)
  note inv = vm_wf_pmm [OF wf]
  show "pmm_inv (vm_pmm s')" "free_pages (vm_pmm s') \<subseteq> free_pages (vm_pmm s)"
    using pmm_pages.alloc_ok [OF inv a] pmm_pages.alloc_shrinks [OF inv a] by (simp_all add: p)
  show "get_entry s' = get_entry s" if "c = 0"
    using that c by (simp add: s' fun_eq_iff)
  show "table_address c \<and> L c = None \<and> unat c div 4096 \<notin> free_pages (vm_pmm s') \<and>
      (\<forall>t j. page_aligned t \<longrightarrow> j < 512 \<longrightarrow> get_entry s' t j = (if t = c then 0 else get_entry s t j))"
    if nz: "c \<noteq> 0"
  proof (intro conjI allI impI)
    show ta: "table_address c"
      using pmm_alloc_table_address [OF inv a] nz c by simp
    have fr: "unat c div 4096 \<in> free_pages (vm_pmm s)" "unat c div 4096 \<notin> free_pages p"
      using pmm_pages.alloc_fresh [OF inv a] nz c by simp_all
    then show "unat c div 4096 \<notin> free_pages (vm_pmm s')"
      by (simp add: p)
    show "L c = None"
      using vm_wf_table(4) [OF wf, of c] fr(1) by (cases "L c") auto
    fix t j assume "page_aligned t" "j < (512::nat)"
    then show "get_entry s' t j = (if t = c then 0 else get_entry s t j)"
      using nz c ta by (simp add: s' Let_def zero_page_entry table_address_def)
  qed
qed

definition empty_table :: "vmm \<Rightarrow> u64 \<Rightarrow> bool" where
  "empty_table s t \<longleftrightarrow> (\<forall>j < 512. \<not> present (get_entry s t j))"


definition leaf_table :: "vmm \<Rightarrow> u64 \<Rightarrow> u64 \<Rightarrow> u64" where
  "leaf_table s root va =
     (let pdpt = child s root (pml4_index va) in
      if pdpt = 0 then 0
      else let directory = child s pdpt (pdpt_index va) in
      if directory = 0 then 0 else child s directory (directory_index va))"

definition leaf_entry :: "vmm \<Rightarrow> u64 \<Rightarrow> u64 \<Rightarrow> u64 option" where
  "leaf_entry s root va =
     (let t = leaf_table s root va; e = get_entry s t (table_index va)
      in if t \<noteq> 0 \<and> present e then Some e else None)"

lemma walk_table_lookup: "walk_table False 0 root va s = (leaf_table s root va, s)"
  by (simp add: walk_table_def walk_directory_def next_level_lookup leaf_table_def Let_def)

lemma child_empty: "empty_table s t \<Longrightarrow> j < 512 \<Longrightarrow> child s t j = 0"
  by (simp add: empty_table_def child_def Let_def)

lemma leaf_entry_step:
  assumes wf: "vm_wf L s" and R: "L R = Some 4"
    and leaf: "\<And>t j. L t = Some 1 \<Longrightarrow> j < 512 \<Longrightarrow> get_entry s' t j = get_entry s t j"
    and branch: "\<And>t l j. L t = Some l \<Longrightarrow> 1 < l \<Longrightarrow> j < 512 \<Longrightarrow>
      child s' t j = child s t j \<or> child s t j = 0 \<and> (child s' t j = 0 \<or> empty_table s' (child s' t j))"
  shows "leaf_entry s' R va = leaf_entry s R va"
proof -
  define a where "a = child s R (pml4_index va)"
  define b where "b = child s a (pdpt_index va)"
  define c where "c = child s b (directory_index va)"
  have a: "child s' R (pml4_index va) = a \<or>
      a = 0 \<and> (child s' R (pml4_index va) = 0 \<or> empty_table s' (child s' R (pml4_index va)))"
    unfolding a_def using branch [OF R] by simp
  show ?thesis
  proof (cases "a = 0")
    case True
    then show ?thesis
      using a by (auto simp: leaf_entry_def leaf_table_def a_def [symmetric] Let_def child_empty)
  next
    case anz: False
    then have L3: "L a = Some 3"
      using vm_wf_child [OF wf R, of "pml4_index va"] by (simp add: a_def)
    have b: "child s' a (pdpt_index va) = b \<or>
        b = 0 \<and> (child s' a (pdpt_index va) = 0 \<or> empty_table s' (child s' a (pdpt_index va)))"
      unfolding b_def using branch [OF L3] by simp
    have a': "child s' R (pml4_index va) = a" using a anz by simp
    show ?thesis
    proof (cases "b = 0")
      case True
      then show ?thesis
        using b by (auto simp: leaf_entry_def leaf_table_def a' a_def [symmetric] b_def [symmetric] Let_def child_empty)
    next
      case bnz: False
      then have L2: "L b = Some 2"
        using vm_wf_child [OF wf L3, of "pdpt_index va"] by (simp add: b_def)
      have c: "child s' b (directory_index va) = c \<or>
          c = 0 \<and> (child s' b (directory_index va) = 0 \<or> empty_table s' (child s' b (directory_index va)))"
        unfolding c_def using branch [OF L2] by simp
      have b': "child s' a (pdpt_index va) = b" using b bnz by simp
      have c1: "L c = Some 1" if "c \<noteq> 0"
        using vm_wf_child [OF wf L2, of "directory_index va"] that by (simp add: c_def)
      show ?thesis
      proof (cases "c = 0")
        case True
        then show ?thesis
          using c by (auto simp: leaf_entry_def leaf_table_def a' b' a_def [symmetric] b_def [symmetric]
              c_def [symmetric] Let_def empty_table_def)
      next
        case False
        then have "child s' b (directory_index va) = c" using c by simp
        then show ?thesis
          using leaf [OF c1 [OF False], of "table_index va"]
          by (simp add: leaf_entry_def leaf_table_def a' b' a_def [symmetric] b_def [symmetric]
              c_def [symmetric] Let_def)
      qed
    qed
  qed
qed

lemma vm_wf_cong:
  assumes wf: "vm_wf L s" and "pmm_inv (vm_pmm s')" and sub: "free_pages (vm_pmm s') \<subseteq> free_pages (vm_pmm s)"
    and eq: "\<And>t l i. L t = Some l \<Longrightarrow> 1 < l \<Longrightarrow> i < 512 \<Longrightarrow> child s' t i = child s t i"
  shows "vm_wf L s'"
proof (rule vm_wfI)
  show "table_address t \<and> 1 \<le> l \<and> l \<le> 4 \<and> unat t div 4096 \<notin> free_pages (vm_pmm s')" if "L t = Some l" for t l
    using vm_wf_table [OF wf that] sub by blast
  show "L (child s' t i) = Some (l - 1)" if "L t = Some l" "1 < l" "i < 512" "child s' t i \<noteq> 0" for t l i
    using vm_wf_child [OF wf that(1-3)] that(4) eq [OF that(1-3)] by simp
  show "t = t' \<and> i = i'" if "L t = Some l" "L t' = Some l" "1 < l" "i < 512" "i' < 512"
    "child s' t i = child s' t' i'" "child s' t i \<noteq> 0" "l < 4 \<or> t = t'" for t t' l i i'
    by (rule vm_wf_parent [OF wf that(1-5) _ _ that(8)])
      (use that eq [OF that(1,3,4)] eq [OF that(2,3,5)] in simp_all)
qed (rule assms(2))

lemma vm_wf_add:
  assumes wf: "vm_wf L s" and "pmm_inv (vm_pmm s')" and sub: "free_pages (vm_pmm s') \<subseteq> free_pages (vm_pmm s)"
    and t: "L t = Some l" "1 < l" "i < 512" "child s t i = 0"
    and c: "table_address c" "L c = None" "unat c div 4096 \<notin> free_pages (vm_pmm s')"
    and new: "child s' t i = c" "1 < l - 1 \<Longrightarrow> empty_table s' c"
    and eq: "\<And>t' l i'. L t' = Some l \<Longrightarrow> 1 < l \<Longrightarrow> i' < 512 \<Longrightarrow> (t', i') \<noteq> (t, i) \<Longrightarrow> child s' t' i' = child s t' i'"
  shows "vm_wf (L(c \<mapsto> l - 1)) s'"
proof (rule vm_wfI)
  have lev: "1 \<le> l - 1" "l - 1 \<le> 4"
    using t(2) vm_wf_table(3) [OF wf t(1)] by simp_all
  show "table_address u \<and> 1 \<le> k \<and> k \<le> 4 \<and> unat u div 4096 \<notin> free_pages (vm_pmm s')"
    if "(L(c \<mapsto> l - 1)) u = Some k" for u k
  proof (cases "u = c")
    case True
    then show ?thesis using that c lev by simp
  next
    case False
    then have "L u = Some k" using that by simp
    then show ?thesis using vm_wf_table [OF wf] sub by blast
  qed
  have old: "child s' u j = (if (u, j) = (t, i) then c else child s u j) \<and> L u = Some k"
    if "(L(c \<mapsto> l - 1)) u = Some k" "1 < k" "j < 512" "child s' u j \<noteq> 0" for u k j
  proof (cases "u = c")
    case True
    then show ?thesis using that child_empty [OF new(2), of j] by simp
  next
    case False
    then show ?thesis using that eq [of u k j] new(1) by auto
  qed
  have inL: "L (child s u j) = Some (k - 1)" if "L u = Some k" "1 < k" "j < 512" "child s u j \<noteq> 0" for u k j
    by (rule vm_wf_child [OF wf that])
  show "(L(c \<mapsto> l - 1)) (child s' u j) = Some (k - 1)"
    if "(L(c \<mapsto> l - 1)) u = Some k" "1 < k" "j < 512" "child s' u j \<noteq> 0" for u k j
  proof (cases "(u, j) = (t, i)")
    case True
    then show ?thesis using old [OF that] t(1) by simp
  next
    case False
    then show ?thesis using old [OF that] inL [of u k j] that c(2) by auto
  qed
  show "u = u' \<and> j = j'" if h: "(L(c \<mapsto> l - 1)) u = Some k" "(L(c \<mapsto> l - 1)) u' = Some k" "1 < k" "j < 512" "j' < 512"
    "child s' u j = child s' u' j'" "child s' u j \<noteq> 0" "k < 4 \<or> u = u'" for u u' k j j'
  proof -
    have o1: "child s' u j = (if (u, j) = (t, i) then c else child s u j)" "L u = Some k"
      using old [OF h(1,3,4)] h(7) by auto
    have o2: "child s' u' j' = (if (u', j') = (t, i) then c else child s u' j')" "L u' = Some k"
      using old [OF h(2,3,5)] h(6,7) by auto
    have "child s u j \<noteq> c" "child s u' j' \<noteq> c"
      using inL [OF o1(2) h(3,4)] inL [OF o2(2) h(3,5)] c by (auto simp: table_address_def)
    moreover have "child s u j = child s u' j' \<Longrightarrow> child s u j \<noteq> 0 \<Longrightarrow> ?thesis"
      by (rule vm_wf_parent [OF wf o1(2) o2(2) h(3-5) _ _ h(8)])
    ultimately show ?thesis
      using o1(1) o2(1) h(6,7) by (metis prod.inject)
  qed
qed (rule assms(2))

section \<open>Creating walks\<close>

lemma get_set_same [simp]: "get_entry (set_entry t i e s) t i = e"
  by (simp add: get_entry_def set_entry_def)

lemma next_level_create_cases:
  "next_level t i True f s =
     (let e = get_entry s t i in
      if present e then
        if large e then (0, s)
        else (e AND PAGE_ADDRESS_MASK, if user f then set_entry t i (e OR XSCORE_PAGE_USER) s else s)
      else
        let (c, s1) = allocate_table s in
        if c = 0 then (0, s1)
        else
          let e2 = c OR XSCORE_PAGE_PRESENT OR XSCORE_PAGE_WRITABLE OR (f AND XSCORE_PAGE_USER);
              s2 = set_entry t i e2 s1
          in if large e2 then (0, s2)
             else (e2 AND PAGE_ADDRESS_MASK, if user f then set_entry t i (e2 OR XSCORE_PAGE_USER) s2 else s2))"
  by (simp add: next_level_def Let_def split: prod.splits)

lemma branch_entry:
  assumes "table_address c" and "f' = XSCORE_PAGE_USER \<or> f' = 0"
    and "e = c OR XSCORE_PAGE_PRESENT OR XSCORE_PAGE_WRITABLE OR (f AND XSCORE_PAGE_USER) OR f'"
  shows "present e" "\<not> large e" "e AND PAGE_ADDRESS_MASK = c"
proof -
  have mask: "c AND PAGE_ADDRESS_MASK = c"
    using assms(1) by (simp add: table_address_def)
  have "\<not> bit c 7"
    using table_address_bits [OF mask, of 7] by auto
  then show "present e" "\<not> large e"
    using assms(2,3) by (auto simp: entry_bits)
  have "e = c OR (XSCORE_PAGE_PRESENT OR XSCORE_PAGE_WRITABLE OR (f AND XSCORE_PAGE_USER) OR f')"
    by (simp add: assms(3) or.assoc)
  moreover have "n < 12" if "bit (XSCORE_PAGE_PRESENT OR XSCORE_PAGE_WRITABLE OR (f AND XSCORE_PAGE_USER) OR f') n" for n
    using that assms(2) by (auto simp: entry_bits)
  ultimately show "e AND PAGE_ADDRESS_MASK = c"
    using or_flags_mask [OF mask] by blast
qed

lemma or_user_entry:
  "present (e OR XSCORE_PAGE_USER) = present e" "large (e OR XSCORE_PAGE_USER) = large e"
  "(e OR XSCORE_PAGE_USER) AND PAGE_ADDRESS_MASK = e AND PAGE_ADDRESS_MASK"
proof -
  show "present (e OR XSCORE_PAGE_USER) = present e" "large (e OR XSCORE_PAGE_USER) = large e"
    by (simp_all add: entry_bits)
  show "(e OR XSCORE_PAGE_USER) AND PAGE_ADDRESS_MASK = e AND PAGE_ADDRESS_MASK"
  proof (rule bit_word_eqI)
    fix n assume "n < LENGTH(64)"
    show "bit ((e OR XSCORE_PAGE_USER) AND PAGE_ADDRESS_MASK) n = bit (e AND PAGE_ADDRESS_MASK) n"
      by (auto simp: entry_bits)
  qed
qed

lemma child_of_entry:
  assumes "present e" "\<not> large e" "get_entry s t i = e"
  shows "child s t i = e AND PAGE_ADDRESS_MASK"
  using assms by (simp add: child_def)

lemma child_cong: "get_entry s' t i = get_entry s t i \<Longrightarrow> child s' t i = child s t i"
  by (simp add: child_def)

text \<open>
  What a creating step or walk keeps: the tables it found, the translation of every root, the
  registers and the contents of the tables outside \<open>T\<close>.
\<close>

definition vm_extends :: "u64 set \<Rightarrow> (u64 \<Rightarrow> nat option) \<Rightarrow> vmm \<Rightarrow> (u64 \<Rightarrow> nat option) \<Rightarrow> vmm \<Rightarrow> bool" where
  "vm_extends T L s L' s' \<longleftrightarrow> L \<subseteq>\<^sub>m L' \<and> vm_wf L' s' \<and>
     (\<forall>R va. L R = Some 4 \<longrightarrow> leaf_entry s' R va = leaf_entry s R va) \<and>
     (\<forall>t j. L t \<noteq> None \<longrightarrow> t \<notin> T \<longrightarrow> j < 512 \<longrightarrow> get_entry s' t j = get_entry s t j) \<and>
     root_table_address s' = root_table_address s \<and> cr3 s' = cr3 s \<and>
     tlb_shootdowns s' = tlb_shootdowns s"

lemma vm_extends_refl: "vm_wf L s \<Longrightarrow> vm_extends T L s L s"
  by (simp add: vm_extends_def)

lemma map_le_Some: "L \<subseteq>\<^sub>m L' \<Longrightarrow> L t = Some l \<Longrightarrow> L' t = Some l"
  unfolding map_le_def by (metis domI)

lemma vm_extendsD:
  assumes "vm_extends T L s L' s'"
  shows "vm_wf L' s'" "L t = Some l \<Longrightarrow> L' t = Some l"
    "L R = Some 4 \<Longrightarrow> leaf_entry s' R va = leaf_entry s R va"
    "L t = Some l \<Longrightarrow> t \<notin> T \<Longrightarrow> j < 512 \<Longrightarrow> get_entry s' t j = get_entry s t j"
    "root_table_address s' = root_table_address s" "cr3 s' = cr3 s"
    "tlb_shootdowns s' = tlb_shootdowns s"
  using assms by (simp_all add: vm_extends_def map_le_Some [of L L'])

lemma vm_extends_trans:
  assumes 1: "vm_extends T L s L' s'" and 2: "vm_extends T' L' s' L'' s''"
  shows "vm_extends (T \<union> T') L s L'' s''"
  unfolding vm_extends_def
proof (intro conjI allI impI)
  show "L \<subseteq>\<^sub>m L''"
    using 1 2 map_le_trans by (auto simp: vm_extends_def)
  show "leaf_entry s'' R va = leaf_entry s R va" if "L R = Some 4" for R va
    using vm_extendsD(3) [OF 1 that] vm_extendsD(3) [OF 2 vm_extendsD(2) [OF 1 that]] by simp
  show "get_entry s'' t j = get_entry s t j" if h: "L t \<noteq> None" "t \<notin> T \<union> T'" "j < 512" for t j
  proof -
    obtain l where l: "L t = Some l" using h(1) by auto
    show ?thesis
      using vm_extendsD(4) [OF 1 l _ h(3)] vm_extendsD(4) [OF 2 vm_extendsD(2) [OF 1 l] _ h(3)] h(2)
      by simp
  qed
qed (simp_all add: vm_extendsD [OF 1] vm_extendsD [OF 2])

lemma set_entry_extends:
  assumes wf: "vm_wf L s" and t: "L t = Some l" "1 < l" "i < 512"
    and e: "present e = present (get_entry s t i)" "large e = large (get_entry s t i)"
      "e AND PAGE_ADDRESS_MASK = get_entry s t i AND PAGE_ADDRESS_MASK"
  shows "vm_extends {t} L s L (set_entry t i e s)"
proof -
  let ?s = "set_entry t i e s"
  have entry: "get_entry ?s u j = get_entry s u j" if "L u = Some k" "j < 512" "(u, j) \<noteq> (t, i)" for u k j
    using get_entry_set_entry [of t u i j e s] vm_wf_table(5) [OF wf t(1)] vm_wf_table(5) [OF wf that(1)] that t(3)
    by auto
  have same: "child ?s t i = child s t i"
    using e by (simp add: child_def Let_def)
  have child: "child ?s u j = child s u j" if "L u = Some k" "j < 512" for u k j
  proof (cases "(u, j) = (t, i)")
    case True
    then show ?thesis using same by simp
  next
    case False
    then show ?thesis using entry [OF that] by (intro child_cong)
  qed
  have "vm_wf L ?s"
    by (rule vm_wf_cong [OF wf]) (use vm_wf_pmm [OF wf] child in simp_all)
  moreover have "leaf_entry ?s R va = leaf_entry s R va" if "L R = Some 4" for R va
  proof (rule leaf_entry_step [OF wf that])
    show "get_entry ?s u j = get_entry s u j" if "L u = Some 1" "j < 512" for u j
      using entry [OF that] t(1,2) that(1) by fastforce
  qed (use child in blast)
  moreover have "get_entry ?s u j = get_entry s u j" if "L u \<noteq> None" "u \<notin> {t}" "j < 512" for u j
    using that entry by fastforce
  ultimately show ?thesis
    by (simp add: vm_extends_def)
qed

lemma allocate_table_failed:
  assumes "vm_wf L s" "allocate_table s = (0, s')"
  shows "vm_extends T L s L s'"
proof -
  note al = allocate_table_spec [OF assms]
  have get: "get_entry s' = get_entry s"
    using al(3) by simp
  then have child: "child s' = child s"
    by (simp add: child_def fun_eq_iff)
  have "vm_wf L s'"
    by (rule vm_wf_cong [OF assms(1) al(1,2)]) (simp add: child)
  then show ?thesis
    using allocate_table_fields [OF assms(2)]
    by (simp add: vm_extends_def leaf_entry_def leaf_table_def get child Let_def)
qed

lemma new_table_extends:
  assumes wf: "vm_wf L s" and t: "L t = Some l" "1 < l" "i < 512" "child s t i = 0"
    and al: "allocate_table s = (c, s1)" "c \<noteq> 0"
    and e: "present e" "\<not> large e" "e AND PAGE_ADDRESS_MASK = c"
  shows "vm_extends {t} L s (L(c \<mapsto> l - 1)) (set_entry t i e s1)"
proof -
  let ?s = "set_entry t i e s1"
  note spec = allocate_table_spec [OF wf al(1)]
  have c: "table_address c" "L c = None" "unat c div 4096 \<notin> free_pages (vm_pmm s1)"
    and get1: "\<And>u j. page_aligned u \<Longrightarrow> j < 512 \<Longrightarrow> get_entry s1 u j = (if u = c then 0 else get_entry s u j)"
    using spec(4) [OF al(2)] by blast+
  have entry: "get_entry ?s u j = (if u = t \<and> j = i then e else if u = c then 0 else get_entry s u j)"
    if "page_aligned u" "j < 512" for u j
    using get_entry_set_entry [of t u i j e s1] vm_wf_table(5) [OF wf t(1)] that t(3) get1 [OF that] by auto
  have al_u: "page_aligned u" "u \<noteq> c" if "L u = Some k" for u k
    using vm_wf_table(5) [OF wf that] that c(2) by auto
  have tc: "t \<noteq> c" using al_u [OF t(1)] by simp
  have new: "child ?s t i = c"
    using child_of_entry [OF e(1,2), of ?s t i] e(3) by simp
  have empty: "empty_table ?s c"
    using entry [of c] c(1) tc by (simp add: empty_table_def table_address_def present_def)
  have child: "child ?s u j = child s u j" if "L u = Some k" "j < 512" "(u, j) \<noteq> (t, i)" for u k j
    using entry [OF al_u(1) [OF that(1)] that(2)] al_u(2) [OF that(1)] that(3) by (intro child_cong) auto
  have "vm_wf (L(c \<mapsto> l - 1)) ?s"
    by (rule vm_wf_add [OF wf _ _ t c(1,2) _ new empty]) (use spec(1,2) c(3) child in simp_all)
  moreover have "leaf_entry ?s R va = leaf_entry s R va" if "L R = Some 4" for R va
  proof (rule leaf_entry_step [OF wf that])
    show "get_entry ?s u j = get_entry s u j" if "L u = Some 1" "j < 512" for u j
      using entry [OF al_u(1) [OF that(1)] that(2)] al_u(2) [OF that(1)] t(1,2) that(1) by auto
    show "child ?s u j = child s u j \<or> child s u j = 0 \<and> (child ?s u j = 0 \<or> empty_table ?s (child ?s u j))"
      if "L u = Some k" "1 < k" "j < 512" for u k j
      using child [OF that(1,3)] new empty t(4) by (cases "(u, j) = (t, i)") auto
  qed
  moreover have "get_entry ?s u j = get_entry s u j" if "L u \<noteq> None" "u \<notin> {t}" "j < 512" for u j
  proof -
    have "page_aligned u" "u \<noteq> c" using al_u that(1) by auto
    then show ?thesis using entry [of u j] that(2,3) by simp
  qed
  moreover have "L \<subseteq>\<^sub>m L(c \<mapsto> l - 1)"
    using c(2) by (auto simp: map_le_def)
  ultimately show ?thesis
    using allocate_table_fields [OF al(1)] by (simp add: vm_extends_def)
qed

lemma next_level_create:
  assumes wf: "vm_wf L s" and t: "L t = Some l" "1 < l" "i < 512"
    and nl: "next_level t i True f s = (c, s')"
  obtains L' where "vm_extends {t} L s L' s'" "c \<noteq> 0 \<Longrightarrow> child s' t i = c"
proof (cases "present (get_entry s t i)")
  case True
  let ?e = "get_entry s t i"
  show ?thesis
  proof (cases "large ?e")
    case True
    then show ?thesis
      using nl \<open>present ?e\<close> vm_extends_refl [OF wf] that [of L] by (simp add: next_level_create_cases)
  next
    case False
    have c: "c = ?e AND PAGE_ADDRESS_MASK" and s': "s' = (if user f then set_entry t i (?e OR XSCORE_PAGE_USER) s else s)"
      using nl True False by (auto simp: next_level_create_cases Let_def)
    have "vm_extends {t} L s L s'"
      using set_entry_extends [OF wf t or_user_entry] vm_extends_refl [OF wf] by (simp add: s')
    moreover have "child s' t i = c"
      using True False by (simp add: s' c child_def or_user_entry)
    ultimately show ?thesis
      using that by blast
  qed
next
  case False
  obtain d s1 where al: "allocate_table s = (d, s1)" by fastforce
  show ?thesis
  proof (cases "d = 0")
    case True
    then have "c = 0" "s' = s1"
      using nl al False by (auto simp: next_level_create_cases)
    then show ?thesis
      using that [of L] allocate_table_failed [OF wf, of s1] al True by simp
  next
    case nz: False
    define e where "e = d OR XSCORE_PAGE_PRESENT OR XSCORE_PAGE_WRITABLE OR (f AND XSCORE_PAGE_USER)"
    define e' where "e' = (if user f then e OR XSCORE_PAGE_USER else e)"
    have d: "table_address d"
      using allocate_table_spec(4) [OF wf al nz] by blast
    have e: "present e" "\<not> large e" "e AND PAGE_ADDRESS_MASK = d"
      using branch_entry [OF d, of 0 e f] by (simp_all add: e_def)
    then have e': "present e'" "\<not> large e'" "e' AND PAGE_ADDRESS_MASK = d"
      by (simp_all add: e'_def or_user_entry)
    have "c = d" "s' = set_entry t i e' s1"
      using nl al False nz e
      by (auto simp: next_level_create_cases Let_def e_def [symmetric] e'_def set_entry_def)
    moreover have "child s t i = 0"
      using False by (simp add: child_def)
    ultimately show ?thesis
      using that [OF new_table_extends [OF wf t _ al nz e', folded \<open>s' = _\<close>]] child_of_entry [OF e'(1,2), of s' t i] e'(3)
      by simp
  qed
qed

lemma child_kept:
  assumes "vm_extends {t} L s L' s'" "L u = Some k" "u \<noteq> t" "j < 512"
  shows "child s' u j = child s u j"
  using vm_extendsD(4) [OF assms(1,2) _ assms(4)] assms(3) by (intro child_cong) simp

lemma walk_table_create:
  assumes wf: "vm_wf L s" and R: "L R = Some 4" and walk: "walk_table True f R va s = (t, s')"
  obtains T L' where "vm_extends T L s L' s'" "t \<noteq> 0 \<Longrightarrow> leaf_table s' R va = t \<and> L' t = Some 1"
proof -
  obtain a s1 where n1: "next_level R (pml4_index va) True f s = (a, s1)" by fastforce
  obtain L1 where x1: "vm_extends {R} L s L1 s1" and c1: "a \<noteq> 0 \<Longrightarrow> child s1 R (pml4_index va) = a"
    using next_level_create [OF wf R _ _ n1] by auto
  note wf1 = vm_extendsD(1) [OF x1]
  have R1: "L1 R = Some 4" by (rule vm_extendsD(2) [OF x1 R])
  show ?thesis
  proof (cases "a = 0")
    case True
    then show ?thesis
      using walk n1 x1 that by (auto simp: walk_table_def walk_directory_def)
  next
    case a: False
    have La: "L1 a = Some 3"
      using vm_wf_child [OF wf1 R1, of "pml4_index va"] c1 a by simp
    obtain b s2 where n2: "next_level a (pdpt_index va) True f s1 = (b, s2)" by fastforce
    obtain L2 where x2: "vm_extends {a} L1 s1 L2 s2" and c2: "b \<noteq> 0 \<Longrightarrow> child s2 a (pdpt_index va) = b"
      using next_level_create [OF wf1 La _ _ n2] by auto
    note wf2 = vm_extendsD(1) [OF x2] and x12 = vm_extends_trans [OF x1 x2]
    have R2: "L2 R = Some 4" "L2 a = Some 3"
      using vm_extendsD(2) [OF x2] R1 La by blast+
    have "R \<noteq> a" using La R1 by auto
    then have Ra: "child s2 R (pml4_index va) = a"
      using child_kept [OF x2 R1, of "pml4_index va"] c1 a by simp
    show ?thesis
    proof (cases "b = 0")
      case True
      then show ?thesis
        using walk n1 n2 a x12 that by (auto simp: walk_table_def walk_directory_def)
    next
      case b: False
      have Lb: "L2 b = Some 2"
        using vm_wf_child [OF wf2 R2(2), of "pdpt_index va"] c2 b by simp
      have n3: "next_level b (directory_index va) True f s2 = (t, s')"
        using walk n1 n2 a b by (simp add: walk_table_def walk_directory_def)
      obtain L3 where x3: "vm_extends {b} L2 s2 L3 s'" and c3: "t \<noteq> 0 \<Longrightarrow> child s' b (directory_index va) = t"
        using next_level_create [OF wf2 Lb _ _ n3] by auto
      have "R \<noteq> b" "a \<noteq> b" using Lb R2 by auto
      then have "child s' R (pml4_index va) = a" "child s' a (pdpt_index va) = b"
        using child_kept [OF x3 R2(1), of "pml4_index va"] child_kept [OF x3 R2(2), of "pdpt_index va"]
          Ra c2 b by simp_all
      then have "t \<noteq> 0 \<Longrightarrow> leaf_table s' R va = t"
        using c3 a b by (simp add: leaf_table_def)
      moreover have "t \<noteq> 0 \<Longrightarrow> L3 t = Some 1"
        using vm_wf_child [OF vm_extendsD(1) [OF x3] vm_extendsD(2) [OF x3 Lb], of "directory_index va"] c3 by simp
      ultimately show ?thesis
        using that [OF vm_extends_trans [OF x12 x3]] by blast
    qed
  qed
qed

text \<open>Which leaf slots two walks reach.\<close>

lemma leaf_table_path:
  assumes wf: "vm_wf L s" and R: "L R = Some 4" and "leaf_table s R va \<noteq> 0"
  obtains a b where "child s R (pml4_index va) = a" "L a = Some 3" "a \<noteq> 0"
    "child s a (pdpt_index va) = b" "L b = Some 2" "b \<noteq> 0"
    "child s b (directory_index va) = leaf_table s R va" "L (leaf_table s R va) = Some 1"
proof -
  define a where "a = child s R (pml4_index va)"
  define b where "b = child s a (pdpt_index va)"
  have nz: "a \<noteq> 0" "b \<noteq> 0" "child s b (directory_index va) = leaf_table s R va"
    using assms(3) by (auto simp: leaf_table_def a_def b_def Let_def split: if_splits)
  have a: "L a = Some 3"
    using vm_wf_child [OF wf R, of "pml4_index va"] nz by (simp add: a_def)
  have b: "L b = Some 2"
    using vm_wf_child [OF wf a, of "pdpt_index va"] nz by (simp add: b_def)
  have "L (leaf_table s R va) = Some 1"
    using vm_wf_child [OF wf b, of "directory_index va"] nz assms(3) by simp
  then show ?thesis
    using that a b nz a_def b_def by blast
qed

lemma leaf_table_shared:
  assumes wf: "vm_wf L s" and R: "L R = Some 4" "L R' = Some 4"
    and eq: "leaf_table s R va = leaf_table s R' va'" "leaf_table s R va \<noteq> 0"
  shows "child s R (pml4_index va) = child s R' (pml4_index va') \<and>
    pdpt_index va = pdpt_index va' \<and> directory_index va = directory_index va'"
proof -
  obtain a b where 1: "child s R (pml4_index va) = a" "L a = Some 3" "a \<noteq> 0"
    "child s a (pdpt_index va) = b" "L b = Some 2" "b \<noteq> 0" "child s b (directory_index va) = leaf_table s R va"
    using leaf_table_path [OF wf R(1) eq(2)] by blast
  obtain a' b' where 2: "child s R' (pml4_index va') = a'" "L a' = Some 3" "a' \<noteq> 0"
    "child s a' (pdpt_index va') = b'" "L b' = Some 2" "b' \<noteq> 0" "child s b' (directory_index va') = leaf_table s R' va'"
    using leaf_table_path [OF wf R(2), of va'] eq by metis
  have "b = b' \<and> directory_index va = directory_index va'"
    using 1 2 eq by (intro vm_wf_parent [OF wf 1(5) 2(5)]) simp_all
  moreover from this have "a = a' \<and> pdpt_index va = pdpt_index va'"
    using 1 2 eq by (intro vm_wf_parent [OF wf 1(2) 2(2)]) simp_all
  ultimately show ?thesis
    using 1(1) 2(1) by simp
qed

lemma leaf_table_shared_root:
  assumes "vm_wf L s" "L R = Some 4" "leaf_table s R va = leaf_table s R va'" "leaf_table s R va \<noteq> 0"
    "table_index va = table_index va'" "address_is_canonical va" "address_is_canonical va'"
    "va AND (PAGE_SIZE - 1) = 0" "va' AND (PAGE_SIZE - 1) = 0"
  shows "va = va'"
proof -
  have sh: "child s R (pml4_index va) = child s R (pml4_index va')"
    "pdpt_index va = pdpt_index va'" "directory_index va = directory_index va'"
    using leaf_table_shared [OF assms(1,2,2,3,4)] by blast+
  have "child s R (pml4_index va) \<noteq> 0"
    using assms(4) by (auto simp: leaf_table_def Let_def)
  then have "pml4_index va = pml4_index va'"
    using vm_wf_parent [OF assms(1,2,2), of "pml4_index va" "pml4_index va'"] sh by simp
  then show ?thesis
    using va_indices_inj assms sh by blast
qed

text \<open>Writing a leaf entry.\<close>

lemma set_leaf:
  assumes wf: "vm_wf L s" and t: "L t = Some 1" and i: "i < 512"
  shows "vm_wf L (set_entry t i e s)"
    and "L u = Some k \<Longrightarrow> k \<noteq> 1 \<Longrightarrow> j < 512 \<Longrightarrow> child (set_entry t i e s) u j = child s u j"
    and "L R = Some 4 \<Longrightarrow> leaf_table (set_entry t i e s) R va = leaf_table s R va"
    and "L R = Some 4 \<Longrightarrow> leaf_entry (set_entry t i e s) R va =
      (if leaf_table s R va = t \<and> table_index va = i then (if present e then Some e else None)
       else leaf_entry s R va)"
proof -
  let ?s = "set_entry t i e s"
  show child: "child ?s u j = child s u j" if "L u = Some k" "k \<noteq> 1" "j < 512" for u k j
    using get_entry_set_entry [of t u i j e s] vm_wf_table(5) [OF wf t] vm_wf_table(5) [OF wf that(1)] that t i
    by (intro child_cong) auto
  show "vm_wf L ?s"
    by (rule vm_wf_cong [OF wf]) (use vm_wf_pmm [OF wf] child in simp_all)
  show table: "leaf_table ?s R va = leaf_table s R va" if R: "L R = Some 4" for R va
  proof -
    have a: "child ?s R (pml4_index va) = child s R (pml4_index va)"
      using child [OF R] by simp
    have b: "child ?s (child s R (pml4_index va)) (pdpt_index va) = child s (child s R (pml4_index va)) (pdpt_index va)"
      if "child s R (pml4_index va) \<noteq> 0"
      using child [OF vm_wf_child [OF wf R _ _ that]] by simp
    have c: "child ?s (child s (child s R (pml4_index va)) (pdpt_index va)) (directory_index va) =
        child s (child s (child s R (pml4_index va)) (pdpt_index va)) (directory_index va)"
      if "child s R (pml4_index va) \<noteq> 0" "child s (child s R (pml4_index va)) (pdpt_index va) \<noteq> 0"
      using child [OF vm_wf_child [OF wf vm_wf_child [OF wf R _ _ that(1)] _ _ that(2)]] by simp
    show ?thesis
      using a b c by (simp add: leaf_table_def Let_def)
  qed
  show "leaf_entry ?s R va = (if leaf_table s R va = t \<and> table_index va = i then (if present e then Some e else None)
       else leaf_entry s R va)" if R: "L R = Some 4" for R va
  proof (cases "leaf_table s R va = 0")
    case True
    then show ?thesis
      using vm_wf_table(6) [OF wf t] by (simp add: leaf_entry_def table [OF R])
  next
    case False
    then have "page_aligned (leaf_table s R va)"
      using leaf_table_path [OF wf R False] vm_wf_table(5) [OF wf] by metis
    then show ?thesis
      using False get_entry_set_entry [of t "leaf_table s R va" i "table_index va" e s] vm_wf_table(5) [OF wf t] i
      by (auto simp: leaf_entry_def table [OF R] Let_def)
  qed
qed

end
