(* ===== verification/Virtual_Map.thy ===== *)
theory Virtual_Map
  imports Physical_Refs Virtual_Walk
begin

unbundle bit_operations_syntax

text \<open>
  Mapping, unmapping and new address spaces: what the operations of
  \<^verbatim>\<open>xscore/memory/virtual.c\<close> do to the translation that \<^verbatim>\<open>xscore_vmm_is_mapped_in\<close> reports, for
  the root they work on and for the others, and when mapping succeeds.
\<close>

section \<open>Leaf writes\<close>

definition va_ok :: "u64 \<Rightarrow> bool" where
  "va_ok va \<longleftrightarrow> address_is_canonical va \<and> va AND (PAGE_SIZE - 1) = 0"

lemma is_mapped_in_leaf:
  "xscore_vmm_is_mapped_in R va s =
     (if R = 0 \<or> \<not> va_ok va then None
      else map_option (\<lambda>e. (e AND NOT PAGE_ADDRESS_MASK, e AND PAGE_ADDRESS_MASK)) (leaf_entry s R va))"
  by (simp add: xscore_vmm_is_mapped_in_def va_ok_def walk_table_lookup leaf_entry_def Let_def)

lemma shootdown_same [simp]:
  "leaf_table (xscore_smp_tlb_shootdown r v s) = leaf_table s"
  "leaf_entry (xscore_smp_tlb_shootdown r v s) = leaf_entry s"
  "child (xscore_smp_tlb_shootdown r v s) = child s"
  "vm_wf L (xscore_smp_tlb_shootdown r v s) = vm_wf L s"
  "tlb_shootdowns (xscore_smp_tlb_shootdown r v s) = tlb_shootdowns s @ [(r, v)]"
  "vm_pmm (xscore_smp_tlb_shootdown r v s) = vm_pmm s"
proof -
  have g: "get_entry (xscore_smp_tlb_shootdown r v s) = get_entry s"
    by (simp add: fun_eq_iff)
  then show c: "child (xscore_smp_tlb_shootdown r v s) = child s"
    by (simp add: child_def fun_eq_iff)
  show t: "leaf_table (xscore_smp_tlb_shootdown r v s) = leaf_table s"
    by (simp add: leaf_table_def c fun_eq_iff Let_def)
  show "leaf_entry (xscore_smp_tlb_shootdown r v s) = leaf_entry s"
    by (simp add: leaf_entry_def t fun_eq_iff Let_def)
  show p: "vm_pmm (xscore_smp_tlb_shootdown r v s) = vm_pmm s"
    by (simp add: xscore_smp_tlb_shootdown_def)
  show "vm_wf L (xscore_smp_tlb_shootdown r v s) = vm_wf L s"
    by (simp add: vm_wf_def children_ok_def parents_ok_def c p)
qed (simp add: xscore_smp_tlb_shootdown_def)

text \<open>A leaf write at the slot of \<open>(R, va)\<close>, seen from every root.\<close>

lemma set_leaf_lookup:
  assumes wf: "vm_wf L s" and R: "L R = Some 4" and t: "leaf_table s R va = t" "t \<noteq> 0" and va: "va_ok va"
    and s': "s' = set_entry t (table_index va) e s"
  shows "vm_wf L s'" "leaf_entry s' R va = (if present e then Some e else None)"
    and "va' \<noteq> va \<Longrightarrow> va_ok va' \<Longrightarrow> leaf_entry s' R va' = leaf_entry s R va'"
    and "L R' = Some 4 \<Longrightarrow> child s R' (pml4_index va') \<noteq> child s R (pml4_index va) \<Longrightarrow>
      leaf_entry s' R' va' = leaf_entry s R' va'"
proof -
  have t1: "L t = Some 1"
    using leaf_table_path [OF wf R, of va] t by metis
  note set = set_leaf [OF wf t1 index_bounds(4) [of va], where e = e]
  show "vm_wf L s'" "leaf_entry s' R va = (if present e then Some e else None)"
    using set R t by (simp_all add: s')
  show "leaf_entry s' R va' = leaf_entry s R va'" if "va' \<noteq> va" "va_ok va'"
  proof -
    have "\<not> (leaf_table s R va' = t \<and> table_index va' = table_index va)"
      using leaf_table_shared_root [OF wf R, of va' va] t va that by (auto simp: va_ok_def)
    then show ?thesis
      using set(4) [OF R, of va'] by (auto simp: s')
  qed
  show "leaf_entry s' R' va' = leaf_entry s R' va'"
    if "L R' = Some 4" "child s R' (pml4_index va') \<noteq> child s R (pml4_index va)"
  proof -
    have "leaf_table s R' va' \<noteq> t"
      using leaf_table_shared [OF wf that(1) R, of va' va] t that(2) by auto
    then show ?thesis
      using set(4) [OF that(1), of va'] by (simp add: s')
  qed
qed

lemma leaf_flags:
  assumes "pa AND PAGE_ADDRESS_MASK = pa" "flags AND PAGE_ADDRESS_MASK = 0"
  defines "e \<equiv> pa OR flags OR XSCORE_PAGE_PRESENT"
  shows "present e" "e AND PAGE_ADDRESS_MASK = pa" "e AND NOT PAGE_ADDRESS_MASK = flags OR XSCORE_PAGE_PRESENT"
proof -
  have f: "\<not> bit flags n" if "12 \<le> n" "n < 52" for n
    using assms(2) that mask_bit [of n] by (metis bit_0_eq bit_and_iff bot_apply bot_bool_def)
  show "present e"
    by (simp add: e_def entry_bits)
  show "e AND PAGE_ADDRESS_MASK = pa" "e AND NOT PAGE_ADDRESS_MASK = flags OR XSCORE_PAGE_PRESENT"
  proof (rule_tac [!] bit_word_eqI)
    fix n assume n: "n < LENGTH(64)"
    show "bit (e AND PAGE_ADDRESS_MASK) n = bit pa n"
      using f [of n] table_address_bits [OF assms(1), of n] by (auto simp: e_def entry_bits)
    show "bit (e AND NOT PAGE_ADDRESS_MASK) n = bit (flags OR XSCORE_PAGE_PRESENT) n"
      using f [of n] table_address_bits [OF assms(1), of n] n by (auto simp: e_def entry_bits bit_not_iff)
  qed
qed

lemma map_page_in_spec:
  assumes wf: "vm_wf L s" and R: "L R = Some 4"
    and flags: "pa AND PAGE_ADDRESS_MASK = pa" "flags AND PAGE_ADDRESS_MASK = 0"
    and map: "xscore_vmm_map_page_in R va pa flags s = (ok, s')"
  obtains L' where "vm_wf L' s'" "L \<subseteq>\<^sub>m L'"
    "ok \<Longrightarrow> xscore_vmm_is_mapped_in R va s = None \<and>
        xscore_vmm_is_mapped_in R va s' = Some (flags OR XSCORE_PAGE_PRESENT, pa) \<and>
        tlb_shootdowns s' = tlb_shootdowns s @ [(R, va)]"
    "\<And>va'. va' \<noteq> va \<or> \<not> ok \<Longrightarrow> xscore_vmm_is_mapped_in R va' s' = xscore_vmm_is_mapped_in R va' s"
    "\<And>R' va'. L R' = Some 4 \<Longrightarrow> \<not> ok \<or> child s' R' (pml4_index va') \<noteq> child s' R (pml4_index va) \<Longrightarrow>
        xscore_vmm_is_mapped_in R' va' s' = xscore_vmm_is_mapped_in R' va' s"
proof -
  have Rnz: "R \<noteq> 0" using vm_wf_table(6) [OF wf R] .
  show ?thesis
  proof (cases "va = 0 \<or> \<not> va_ok va \<or> pa AND (PAGE_SIZE - 1) \<noteq> 0")
    case True
    then have "ok = False" "s' = s"
      using map by (auto simp: xscore_vmm_map_page_in_def va_ok_def)
    then show ?thesis
      using that [of L] wf by simp
  next
    case False
    obtain t s1 where walk: "walk_table True flags R va s = (t, s1)" by fastforce
    obtain T L1 where x: "vm_extends T L s L1 s1" and t: "t \<noteq> 0 \<Longrightarrow> leaf_table s1 R va = t \<and> L1 t = Some 1"
      using walk_table_create [OF wf R walk] by blast
    have sub: "L \<subseteq>\<^sub>m L1" using x by (simp add: vm_extends_def)
    have same: "leaf_entry s1 R' va' = leaf_entry s R' va'" if "L R' = Some 4" for R' va'
      by (rule vm_extendsD(3) [OF x that])
    let ?e = "pa OR flags OR XSCORE_PAGE_PRESENT"
    show ?thesis
    proof (cases "t = 0 \<or> present (get_entry s1 t (table_index va))")
      case True
      then have "ok = False" "s' = s1"
        using map False walk Rnz by (auto simp: xscore_vmm_map_page_in_def va_ok_def)
      then show ?thesis
        using that [of L1] vm_extendsD(1) [OF x] sub same R by (simp add: is_mapped_in_leaf)
    next
      case new: False
      define s2 where "s2 = set_entry t (table_index va) ?e s1"
      have ok: "ok" and s': "s' = xscore_smp_tlb_shootdown R va s2"
        using map False walk new Rnz by (auto simp: xscore_vmm_map_page_in_def va_ok_def s2_def)
      have tt: "leaf_table s1 R va = t" "t \<noteq> 0" and ok_va: "va_ok va"
        using t new False by simp_all
      note R1 = vm_extendsD(2) [OF x]
      note leaf = set_leaf_lookup [OF vm_extendsD(1) [OF x] R1 [OF R] tt ok_va s2_def]
      have child2: "child s2 R' i = child s1 R' i" if "L R' = Some 4" "i < 512" for R' i
        using set_leaf(2) [OF vm_extendsD(1) [OF x], of t "table_index va" R' 4 i ?e] R1 [OF that(1)] t new that(2)
        by (simp add: s2_def)
      have was: "leaf_entry s R va = None"
        using same [OF R, of va] tt new by (simp add: leaf_entry_def)
      show ?thesis
      proof (rule that [of L1])
        show "vm_wf L1 s'" "L \<subseteq>\<^sub>m L1" using leaf(1) sub by (simp_all add: s')
        show "xscore_vmm_is_mapped_in R va s = None \<and>
            xscore_vmm_is_mapped_in R va s' = Some (flags OR XSCORE_PAGE_PRESENT, pa) \<and>
            tlb_shootdowns s' = tlb_shootdowns s @ [(R, va)]"
          using was leaf(2) leaf_flags [OF flags] Rnz ok_va vm_extendsD(7) [OF x]
          by (simp add: is_mapped_in_leaf s') (simp add: s2_def)
        show "xscore_vmm_is_mapped_in R va' s' = xscore_vmm_is_mapped_in R va' s" if "va' \<noteq> va \<or> \<not> ok" for va'
          using that ok leaf(3) [of va'] same [OF R] by (simp add: is_mapped_in_leaf s')
        show "xscore_vmm_is_mapped_in R' va' s' = xscore_vmm_is_mapped_in R' va' s"
          if "L R' = Some 4" "\<not> ok \<or> child s' R' (pml4_index va') \<noteq> child s' R (pml4_index va)" for R' va'
          using that(2) ok leaf(4) [OF R1 [OF that(1)]] same [OF that(1)] child2 [OF that(1)] child2 [OF R]
          by (simp add: is_mapped_in_leaf s')
      qed
    qed
  qed
qed

lemma unmap_page_in_cases:
  assumes "R \<noteq> 0" and unmap: "xscore_vmm_unmap_page_in R va s = (r, s')"
  obtains (none) "r = None" "s' = s" "xscore_vmm_is_mapped_in R va s = None"
    | (some) "va_ok va" "leaf_table s R va \<noteq> 0" "xscore_vmm_is_mapped_in R va s \<noteq> None"
      "r = map_option snd (xscore_vmm_is_mapped_in R va s)"
      "s' = xscore_smp_tlb_shootdown R va (set_entry (leaf_table s R va) (table_index va) 0 s)"
proof (cases "va_ok va \<and> leaf_table s R va \<noteq> 0 \<and> present (get_entry s (leaf_table s R va) (table_index va))")
  case False
  then have "r = None" "s' = s" "xscore_vmm_is_mapped_in R va s = None"
    using unmap by (auto simp: xscore_vmm_unmap_page_in_def va_ok_def walk_table_lookup is_mapped_in_leaf leaf_entry_def Let_def
        split: if_splits)
  then show ?thesis by (rule none)
next
  case True
  then show ?thesis
    using unmap assms(1) by (intro some) (auto simp: xscore_vmm_unmap_page_in_def va_ok_def
        walk_table_lookup is_mapped_in_leaf leaf_entry_def Let_def split: if_splits)
qed

lemma unmap_page_in_spec:
  assumes wf: "vm_wf L s" and R: "L R = Some 4"
    and unmap: "xscore_vmm_unmap_page_in R va s = (r, s')"
  shows "r = map_option snd (xscore_vmm_is_mapped_in R va s) \<and> vm_wf L s' \<and>
    xscore_vmm_is_mapped_in R va s' = None \<and>
    (\<forall>va'. va' \<noteq> va \<longrightarrow> xscore_vmm_is_mapped_in R va' s' = xscore_vmm_is_mapped_in R va' s) \<and>
    (\<forall>R' va'. L R' = Some 4 \<longrightarrow> child s R' (pml4_index va') \<noteq> child s R (pml4_index va) \<longrightarrow>
       xscore_vmm_is_mapped_in R' va' s' = xscore_vmm_is_mapped_in R' va' s) \<and>
    tlb_shootdowns s' = tlb_shootdowns s @ (if r = None then [] else [(R, va)]) \<and>
    vm_pmm s' = vm_pmm s"
  using vm_wf_table(6) [OF wf R] unmap
proof (cases rule: unmap_page_in_cases)
  case none
  then show ?thesis using wf by simp
next
  case some
  let ?s = "set_entry (leaf_table s R va) (table_index va) 0 s"
  note leaf = set_leaf_lookup [OF wf R refl some(2,1) refl]
  have "xscore_vmm_is_mapped_in R va s' = None"
    using leaf(2) by (simp add: is_mapped_in_leaf some(5) present_def)
  moreover have "xscore_vmm_is_mapped_in R va' s' = xscore_vmm_is_mapped_in R va' s" if "va' \<noteq> va" for va'
    using leaf(3) [OF that] by (simp add: is_mapped_in_leaf some(5))
  moreover have "xscore_vmm_is_mapped_in R' va' s' = xscore_vmm_is_mapped_in R' va' s"
    if "L R' = Some 4" "child s R' (pml4_index va') \<noteq> child s R (pml4_index va)" for R' va'
    using leaf(4) [OF that] by (simp add: is_mapped_in_leaf some(5))
  ultimately show ?thesis
    using leaf(1) some by auto
qed

section \<open>Progress\<close>

text \<open>A present entry of the path does not lead to a table: a large page is in the way.\<close>

fun blocked :: "vmm \<Rightarrow> u64 \<Rightarrow> nat list \<Rightarrow> bool" where
  "blocked s t [] = False"
| "blocked s t (i # is) = (present (get_entry s t i) \<and> (child s t i = 0 \<or> blocked s (child s t i) is))"

definition walk_path :: "u64 \<Rightarrow> nat list" where
  "walk_path va = [pml4_index va, pdpt_index va, directory_index va]"

lemma blocked_empty: "empty_table s t \<Longrightarrow> \<forall>i \<in> set is. i < 512 \<Longrightarrow> \<not> blocked s t is"
  by (cases "is") (simp_all add: empty_table_def)

lemma blocked_frame:
  assumes wf: "vm_wf L s"
    and eq: "\<And>u k j. L u = Some k \<Longrightarrow> k \<le> m \<Longrightarrow> j < 512 \<Longrightarrow> get_entry s' u j = get_entry s u j"
  shows "L t = Some l \<Longrightarrow> l \<le> m \<Longrightarrow> length is < l \<Longrightarrow> \<forall>i \<in> set is. i < 512 \<Longrightarrow> blocked s' t is = blocked s t is"
proof (induction "is" arbitrary: t l)
  case (Cons i "is")
  have e: "get_entry s' t i = get_entry s t i"
    using eq [OF Cons.prems(1,2)] Cons.prems(4) by simp
  have c: "child s' t i = child s t i"
    using e by (rule child_cong)
  show ?case
  proof (cases "child s t i = 0")
    case False
    have "L (child s t i) = Some (l - 1)"
      using vm_wf_child [OF wf Cons.prems(1) _ _ False] Cons.prems(3,4) by simp
    then show ?thesis
      using Cons.IH [of "child s t i" "l - 1"] Cons.prems e c by simp
  qed (simp add: e c)
qed simp

lemma allocate_table_progress:
  assumes "pmm_inv (vm_pmm s)" "allocate_table s = (c, s')" "n < card (free_pages (vm_pmm s))"
  shows "c \<noteq> 0 \<and> n \<le> card (free_pages (vm_pmm s'))"
proof -
  obtain a p where a: "xscore_pmm_allocate_page (vm_pmm s) = (a, p)"
    by fastforce
  have c: "c = a" "vm_pmm s' = p"
    using assms(2) a by (auto simp: allocate_table_def Let_def split: if_splits)
  have ne: "free_pages (vm_pmm s) \<noteq> {}"
    using assms(3) by auto
  have "free_pages p = free_pages (vm_pmm s) - {unat a div 4096}" "unat a div 4096 \<in> free_pages (vm_pmm s)"
    using pmm_pages.alloc_some [OF assms(1) ne a] by blast+
  then have "n \<le> card (free_pages p)"
    using assms(3) by simp
  then show ?thesis
    using pmm_pages.alloc_zero_iff [OF assms(1) a] ne c by simp
qed

lemma next_level_progress:
  assumes wf: "vm_wf L s" and t: "L t = Some l" "1 < l" "i < 512"
    and nl: "next_level t i True f s = (c, s')"
    and free: "n < card (free_pages (vm_pmm s))"
    and path: "\<not> blocked s t (i # is)" "length is < l - 1" "\<forall>i \<in> set is. i < 512"
  shows "c \<noteq> 0 \<and> \<not> blocked s' c is \<and> n \<le> card (free_pages (vm_pmm s'))"
proof (cases "present (get_entry s t i)")
  case True
  then have ch: "child s t i \<noteq> 0" "\<not> blocked s (child s t i) is"
    using path(1) by simp_all
  then have nl': "\<not> large (get_entry s t i)" "child s t i = get_entry s t i AND PAGE_ADDRESS_MASK"
    using True by (auto simp: child_def Let_def)
  define e where "e = get_entry s t i OR XSCORE_PAGE_USER"
  have c: "c = child s t i" and s': "s' = (if user f then set_entry t i e s else s)"
    using nl True nl' by (auto simp: next_level_create_cases Let_def e_def)
  have "blocked (set_entry t i e s) (child s t i) is = blocked s (child s t i) is"
  proof (rule blocked_frame [OF wf, where m = "l - 1" and l = "l - 1"])
    show "L (child s t i) = Some (l - 1)"
      by (rule vm_wf_child [OF wf t ch(1)])
    show "get_entry (set_entry t i e s) u j = get_entry s u j" if "L u = Some k" "k \<le> l - 1" "j < 512" for u k j
    proof -
      have "u \<noteq> t" using that(1,2) t(1,2) by auto
      then show ?thesis
        using get_entry_set_entry [of t u i j e s] vm_wf_table(5) [OF wf] that(1,3) t by auto
    qed
  qed (use path in simp_all)
  then show ?thesis
    using c s' ch free by simp
next
  case False
  obtain d s1 where al: "allocate_table s = (d, s1)" by fastforce
  have d: "d \<noteq> 0" "n \<le> card (free_pages (vm_pmm s1))"
    using allocate_table_progress [OF vm_wf_pmm [OF wf] al free] by simp_all
  note spec = allocate_table_spec(4) [OF wf al d(1)]
  define e where "e = d OR XSCORE_PAGE_PRESENT OR XSCORE_PAGE_WRITABLE OR (f AND XSCORE_PAGE_USER)"
  define e' where "e' = (if user f then e OR XSCORE_PAGE_USER else e)"
  have e: "present e" "\<not> large e" "e AND PAGE_ADDRESS_MASK = d"
    using branch_entry [of d 0 e f] spec by (simp_all add: e_def)
  have c: "c = d" "s' = set_entry t i e' s1"
    using nl al False d e
    by (auto simp: next_level_create_cases Let_def e_def [symmetric] e'_def set_entry_def)
  have "t \<noteq> d" using spec t(1) by auto
  then have "empty_table s' d"
    using spec get_entry_set_entry [of t d i _ e' s1] vm_wf_table(5) [OF wf t(1)] t(3)
    by (simp add: empty_table_def c table_address_def present_def)
  then show ?thesis
    using blocked_empty [OF _ path(3)] c d by simp
qed

lemma walk_table_progress:
  assumes wf: "vm_wf L s" and R: "L R = Some 4"
    and "3 \<le> card (free_pages (vm_pmm s))" "\<not> blocked s R (walk_path va)"
    and walk: "walk_table True f R va s = (t, s')"
  shows "t \<noteq> 0"
proof -
  obtain a s1 where n1: "next_level R (pml4_index va) True f s = (a, s1)" by fastforce
  obtain L1 where x1: "vm_extends {R} L s L1 s1" and c1: "a \<noteq> 0 \<Longrightarrow> child s1 R (pml4_index va) = a"
    using next_level_create [OF wf R _ _ n1] by auto
  have p1: "a \<noteq> 0" "\<not> blocked s1 a [pdpt_index va, directory_index va]" "2 \<le> card (free_pages (vm_pmm s1))"
    using next_level_progress [OF wf R _ _ n1, of 2 "[pdpt_index va, directory_index va]"] assms(3,4)
    by (simp_all add: walk_path_def)
  note wf1 = vm_extendsD(1) [OF x1]
  have La: "L1 a = Some 3"
    using vm_wf_child [OF wf1 vm_extendsD(2) [OF x1 R], of "pml4_index va"] c1 p1 by simp
  obtain b s2 where n2: "next_level a (pdpt_index va) True f s1 = (b, s2)" by fastforce
  obtain L2 where x2: "vm_extends {a} L1 s1 L2 s2" and c2: "b \<noteq> 0 \<Longrightarrow> child s2 a (pdpt_index va) = b"
    using next_level_create [OF wf1 La _ _ n2] by auto
  have p2: "b \<noteq> 0" "\<not> blocked s2 b [directory_index va]" "1 \<le> card (free_pages (vm_pmm s2))"
    using next_level_progress [OF wf1 La _ _ n2, of 1 "[directory_index va]"] p1 by simp_all
  note wf2 = vm_extendsD(1) [OF x2]
  have Lb: "L2 b = Some 2"
    using vm_wf_child [OF wf2 vm_extendsD(2) [OF x2 La], of "pdpt_index va"] c2 p2 by simp
  have n3: "next_level b (directory_index va) True f s2 = (t, s')"
    using walk n1 n2 p1 p2 by (simp add: walk_table_def walk_directory_def)
  show ?thesis
    using next_level_progress [OF wf2 Lb _ _ n3, of 0 "[]"] p2 by simp
qed

lemma map_page_in_succeeds:
  assumes wf: "vm_wf L s" and R: "L R = Some 4" and va: "va_ok va" "va \<noteq> 0" "pa AND (PAGE_SIZE - 1) = 0"
    and "3 \<le> card (free_pages (vm_pmm s))" "\<not> blocked s R (walk_path va)"
    and "xscore_vmm_is_mapped_in R va s = None"
  shows "fst (xscore_vmm_map_page_in R va pa flags s)"
proof -
  have Rnz: "R \<noteq> 0" using vm_wf_table(6) [OF wf R] .
  obtain t s1 where walk: "walk_table True flags R va s = (t, s1)" by fastforce
  obtain T L1 where x: "vm_extends T L s L1 s1" and t: "t \<noteq> 0 \<Longrightarrow> leaf_table s1 R va = t \<and> L1 t = Some 1"
    using walk_table_create [OF wf R walk] by blast
  have tnz: "t \<noteq> 0" by (rule walk_table_progress [OF wf R assms(6,7) walk])
  have "leaf_entry s1 R va = None"
    using vm_extendsD(3) [OF x R, of va] assms(8) Rnz va by (simp add: is_mapped_in_leaf)
  then have "\<not> present (get_entry s1 t (table_index va))"
    using t tnz by (auto simp: leaf_entry_def Let_def)
  then show ?thesis
    using walk tnz va Rnz by (simp add: xscore_vmm_map_page_in_def va_ok_def Let_def)
qed

section \<open>New address spaces\<close>

lemma vm_wf_new_root:
  assumes wf: "vm_wf L s" and al: "allocate_table s = (c, s1)" "c \<noteq> 0" and p: "vm_pmm s2 = vm_pmm s1"
    and old: "\<And>u k i. L u = Some k \<Longrightarrow> i < 512 \<Longrightarrow> child s2 u i = child s u i"
    and new: "\<And>i. i < 512 \<Longrightarrow> child s2 c i = 0 \<or> L R0 = Some 4 \<and> child s2 c i = child s R0 i"
  shows "vm_wf (L(c \<mapsto> 4)) s2"
proof (rule vm_wfI)
  note spec = allocate_table_spec [OF wf al(1)]
  have c: "table_address c" "L c = None" "unat c div 4096 \<notin> free_pages (vm_pmm s1)"
    using spec(4) [OF al(2)] by blast+
  show "pmm_inv (vm_pmm s2)" using spec(1) by (simp add: p)
  show "table_address u \<and> 1 \<le> k \<and> k \<le> 4 \<and> unat u div 4096 \<notin> free_pages (vm_pmm s2)"
    if "(L(c \<mapsto> 4)) u = Some k" for u k
  proof (cases "u = c")
    case True
    then show ?thesis using that c by (simp add: p)
  next
    case False
    then have "L u = Some k" using that by simp
    then show ?thesis using vm_wf_table [OF wf] spec(2) p by (metis subsetD)
  qed
  show "(L(c \<mapsto> 4)) (child s2 u i) = Some (k - 1)"
    if h: "(L(c \<mapsto> 4)) u = Some k" "1 < k" "i < 512" "child s2 u i \<noteq> 0" for u k i
  proof (cases "u = c")
    case True
    then have R0: "L R0 = Some 4" "child s2 u i = child s R0 i" "k = 4"
      using new [OF h(3)] h(1,4) by auto
    then have "L (child s R0 i) = Some 3"
      using vm_wf_child [OF wf R0(1) _ h(3)] h(4) by simp
    then show ?thesis using R0 c(2) by auto
  next
    case False
    then have "L u = Some k" using h(1) by simp
    then show ?thesis using old [OF _ h(3)] vm_wf_child [OF wf _ h(2,3)] h(4) c(2) by auto
  qed
  show "u = u' \<and> i = i'" if h: "(L(c \<mapsto> 4)) u = Some k" "(L(c \<mapsto> 4)) u' = Some k" "1 < k" "i < 512" "i' < 512"
    "child s2 u i = child s2 u' i'" "child s2 u i \<noteq> 0" "k < 4 \<or> u = u'" for u u' k i i'
  proof (cases "u = c")
    case True
    then have u': "u' = c" using h(1,8) by auto
    have R0: "L R0 = Some 4" "child s2 c i = child s R0 i" "child s2 c i' = child s R0 i'"
      using new [OF h(4)] new [OF h(5)] h(6,7) True u' by auto
    show ?thesis
      using vm_wf_parent [OF wf R0(1) R0(1) _ h(4,5)] R0 h(6,7) True u' by simp
  next
    case False
    have L: "L u = Some k" "L u' = Some k"
      using False h(1,2,8) by (auto split: if_splits)
    show ?thesis
      using vm_wf_parent [OF wf L h(3-5) _ _ h(8)] old [OF L(1) h(4)] old [OF L(2) h(5)] h(6,7) by simp
  qed
qed

lemma copy_kernel_entry_fields [simp]:
  "vm_pmm (copy_kernel_entry k p i s) = vm_pmm s"
  "root_table_address (copy_kernel_entry k p i s) = root_table_address s"
  "tlb_shootdowns (copy_kernel_entry k p i s) = tlb_shootdowns s"
  "cr3 (copy_kernel_entry k p i s) = cr3 s"
  by (simp_all add: copy_kernel_entry_def Let_def)

lemma copy_kernel_fields [simp]:
  "vm_pmm (fold (copy_kernel_entry k p) xs s) = vm_pmm s"
  "root_table_address (fold (copy_kernel_entry k p) xs s) = root_table_address s"
  "tlb_shootdowns (fold (copy_kernel_entry k p) xs s) = tlb_shootdowns s"
  "cr3 (fold (copy_kernel_entry k p) xs s) = cr3 s"
  by (induction xs arbitrary: s) simp_all

definition kernel_entry :: "u64 \<Rightarrow> bool" where
  "kernel_entry e \<longleftrightarrow> present e \<and> \<not> user e"

lemma copy_kernel_entries:
  assumes "page_aligned k" "page_aligned p" "k \<noteq> p" "hi \<le> 512"
    and "page_aligned t" "j < 512"
  shows "get_entry (fold (copy_kernel_entry k p) [0..<hi] s) t j =
    (if t = p \<and> j < hi \<and> kernel_entry (get_entry s k j) then get_entry s k j else get_entry s t j)"
  using assms(4-)
proof (induction hi arbitrary: t j)
  case (Suc hi)
  let ?s = "fold (copy_kernel_entry k p) [0..<hi] s"
  have k: "get_entry ?s k i = get_entry s k i" if "i < 512" for i
    using Suc.IH [of k i] Suc.prems(1) assms(1,3) that by simp
  have "get_entry (copy_kernel_entry k p hi ?s) t j =
    (if kernel_entry (get_entry s k hi) \<and> t = p \<and> j = hi then get_entry s k hi else get_entry ?s t j)"
    using k [of hi] Suc.prems get_entry_set_entry [of p t hi j "get_entry s k hi" ?s] assms(2)
    by (auto simp: copy_kernel_entry_def kernel_entry_def Let_def)
  then show ?case
    using Suc.IH [of t j] Suc.prems by (auto simp: less_Suc_eq)
qed simp

lemma leaf_entry_from_child:
  assumes "child s' R' (pml4_index va) = child s R (pml4_index va)"
    and "\<And>t l i. L t = Some l \<Longrightarrow> i < 512 \<Longrightarrow> get_entry s' t i = get_entry s t i"
    and wf: "vm_wf L s" and R: "L R = Some 4"
  shows "leaf_entry s' R' va = leaf_entry s R va"
proof -
  define a where "a = child s R (pml4_index va)"
  define b where "b = child s a (pdpt_index va)"
  define c where "c = child s b (directory_index va)"
  have a': "child s' R' (pml4_index va) = a"
    using assms(1) by (simp add: a_def)
  have La: "L a = Some 3" if "a \<noteq> 0"
    using vm_wf_child [OF wf R, of "pml4_index va"] that by (simp add: a_def)
  have b': "child s' a (pdpt_index va) = b" if "a \<noteq> 0"
    unfolding b_def by (rule child_cong [OF assms(2) [OF La [OF that]]]) simp
  have Lb: "L b = Some 2" if "a \<noteq> 0" "b \<noteq> 0"
    using vm_wf_child [OF wf La [OF that(1)], of "pdpt_index va"] that by (simp add: b_def)
  have c': "child s' b (directory_index va) = c" if "a \<noteq> 0" "b \<noteq> 0"
    unfolding c_def by (rule child_cong [OF assms(2) [OF Lb [OF that]]]) simp
  have Lc: "L c = Some 1" if "a \<noteq> 0" "b \<noteq> 0" "c \<noteq> 0"
    using vm_wf_child [OF wf Lb [OF that(1,2)], of "directory_index va"] that by (simp add: c_def)
  have t: "leaf_table s R va = (if a = 0 then 0 else if b = 0 then 0 else c)"
    "leaf_table s' R' va = (if a = 0 then 0 else if b = 0 then 0 else c)"
    using a' b' c' by (simp_all add: leaf_table_def a_def [symmetric] b_def [symmetric] c_def [symmetric] Let_def)
  show ?thesis
  proof (cases "a = 0 \<or> b = 0 \<or> c = 0")
    case True
    then show ?thesis by (auto simp: leaf_entry_def t)
  next
    case False
    then show ?thesis
      using assms(2) [OF Lc, of "table_index va"] by (simp add: leaf_entry_def t)
  qed
qed

lemma address_space_create_spec:
  assumes wf: "vm_wf L s" and R: "L (root_table_address s) = Some 4"
    and create: "xscore_vmm_address_space_create s = (c, s')" "c \<noteq> 0"
  shows "L c = None" "vm_wf (L(c \<mapsto> 4)) s'"
    "L R' = Some 4 \<Longrightarrow> leaf_entry s' R' va = leaf_entry s R' va"
    "leaf_entry s' c va = (if kernel_entry (get_entry s (root_table_address s) (pml4_index va))
       then leaf_entry s (root_table_address s) va else None)"
    "i < 512 \<Longrightarrow> get_entry s' c i = (if kernel_entry (get_entry s (root_table_address s) i)
       then get_entry s (root_table_address s) i else 0)"
proof -
  let ?R = "root_table_address s"
  obtain d s1 where al: "allocate_table s = (d, s1)" by fastforce
  note f1 = allocate_table_fields [OF al]
  have d: "d = c" and s': "s' = fold (copy_kernel_entry ?R c) [0..<512] s1"
    using create al f1 by (auto simp: xscore_vmm_address_space_create_def ENTRIES_PER_TABLE_def split: if_splits)
  note al = al [unfolded d]
  note spec = allocate_table_spec(4) [OF wf al create(2)]
  show Lc: "L c = None" using spec by blast
  have Rc: "?R \<noteq> c" using R Lc by auto
  have alR: "page_aligned ?R" "page_aligned c"
    using vm_wf_table(5) [OF wf R] spec by (simp_all add: table_address_def)
  have entry: "get_entry s' t j = (if t = c then if kernel_entry (get_entry s ?R j) then get_entry s ?R j else 0
      else get_entry s t j)" if "page_aligned t" "j < 512" for t j
    using copy_kernel_entries [OF alR Rc order_refl that, of s1] spec that alR Rc by (simp add: s')
  have old: "get_entry s' u i = get_entry s u i" if "L u = Some k" "i < 512" for u k i
    using entry [OF vm_wf_table(5) [OF wf that(1)] that(2)] that(1) Lc by auto
  show ec: "get_entry s' c i = (if kernel_entry (get_entry s ?R i) then get_entry s ?R i else 0)" if "i < 512" for i
    using entry [OF alR(2) that] by simp
  have cc: "child s' c i = (if kernel_entry (get_entry s ?R i) then child s ?R i else 0)" if "i < 512" for i
    using ec [OF that] by (simp add: child_def present_def)
  have old_child: "child s' u i = child s u i" if "L u = Some k" "i < 512" for u k i
    by (rule child_cong [OF old [OF that]])
  show "vm_wf (L(c \<mapsto> 4)) s'"
    by (rule vm_wf_new_root [OF wf al create(2), of _ ?R]) (simp_all add: s' [symmetric] old_child cc R, simp add: s')
  show "leaf_entry s' R' va = leaf_entry s R' va" if "L R' = Some 4" for R' va
    by (rule leaf_entry_from_child [OF _ old wf that]) (simp add: old_child [OF that])
  show "leaf_entry s' c va = (if kernel_entry (get_entry s ?R (pml4_index va)) then leaf_entry s ?R va else None)"
  proof (cases "kernel_entry (get_entry s ?R (pml4_index va))")
    case True
    then show ?thesis
      using leaf_entry_from_child [OF _ old wf R, where R' = c and va = va] cc [of "pml4_index va"] by simp
  next
    case False
    then show ?thesis
      using cc [of "pml4_index va"] by (simp add: leaf_entry_def leaf_table_def)
  qed
qed

section \<open>A small machine\<close>

text \<open>Sixteen free pages and one empty root table, the first of them.\<close>

definition pmm_demo :: pmm where
  "pmm_demo = snd (xscore_pmm_init_direct 0x110000 0x100000 pmm_blank)"

definition vmm_blank :: vmm where
  "vmm_blank = \<lparr>vm_mem = (\<lambda>_. 0), vm_pmm = pmm_demo, root_table_address = 0x100000,
     page_table_page_count = 0, cr3 = 0, cr0 = 0, efer = 0, tlb_shootdowns = []\<rparr>"

definition vmm_demo :: vmm where
  "vmm_demo = snd (allocate_table vmm_blank)"

definition demo_tables :: "u64 \<Rightarrow> nat option" where
  "demo_tables = [0x100000 \<mapsto> 4]"

lemma pmm_demo_free: "pmm_inv pmm_demo" "free_pages pmm_demo = {256..<272}"
proof -
  have "fst (xscore_pmm_init_direct 0x110000 0x100000 pmm_blank)"
    by (simp add: xscore_pmm_init_direct_def Let_def PAGE_SIZE_def MAX_PAGE_COUNT_def MAX_PHYSICAL_MEMORY_def)
  then have init: "xscore_pmm_init_direct 0x110000 0x100000 pmm_blank = (True, pmm_demo)"
    by (simp add: pmm_demo_def prod_eq_iff)
  show "pmm_inv pmm_demo" "free_pages pmm_demo = {256..<272}"
    using pmm_init_direct_exact [OF init] by simp_all
qed

lemma vm_wf_no_tables: "pmm_inv (vm_pmm s) \<Longrightarrow> vm_wf Map.empty s"
  by (simp add: vm_wf_def tables_ok_def children_ok_def parents_ok_def)

lemma vmm_demo_wf:
  "vm_wf demo_tables vmm_demo" "demo_tables 0x100000 = Some 4"
  "free_pages (vm_pmm vmm_demo) = {257..<272}" "root_table_address vmm_demo = 0x100000"
  "i < 512 \<Longrightarrow> get_entry vmm_demo 0x100000 i = 0"
proof -
  obtain a s1 where al: "allocate_table vmm_blank = (a, s1)" by fastforce
  have s1: "s1 = vmm_demo" using al by (simp add: vmm_demo_def)
  have pm: "vm_pmm vmm_blank = pmm_demo" by (simp add: vmm_blank_def)
  have wf0: "vm_wf Map.empty vmm_blank"
    by (rule vm_wf_no_tables) (simp add: pm pmm_demo_free)
  obtain b p where alp: "xscore_pmm_allocate_page pmm_demo = (b, p)" by fastforce
  have ab: "a = b" "vm_pmm s1 = p"
    using al alp pm by (auto simp: allocate_table_def Let_def split: if_splits)
  have min: "Min {256..<272::nat} = 256"
    by (rule Min_eqI) auto
  have "unat b = 256 * 4096" "free_pages p = {256..<272} - {256}"
    using pmm_allocate_lowest(2) [OF pmm_demo_free(1) alp] by (simp_all add: pmm_demo_free min)
  moreover have "{256..<272} - {256} = {257..<272::nat}" by auto
  ultimately have b: "b = 0x100000" and fr: "free_pages p = {257..<272}"
    by (simp_all add: word_unat_eq_iff)
  show "demo_tables 0x100000 = Some 4" by (simp add: demo_tables_def)
  show "free_pages (vm_pmm vmm_demo) = {257..<272}" using fr ab s1 by simp
  show "root_table_address vmm_demo = 0x100000"
    using allocate_table_fields(1) [OF al] s1 by (simp add: vmm_blank_def)
  have nz: "a \<noteq> 0" by (simp add: ab b)
  show zero: "get_entry vmm_demo 0x100000 i = 0" if "i < 512" for i
    using allocate_table_spec(4) [OF wf0 al nz] that s1 ab b by (simp add: table_address_def)
  have "vm_wf (Map.empty(a \<mapsto> 4)) vmm_demo"
    by (rule vm_wf_new_root [OF wf0 al nz, of _ 0]) (simp_all add: s1 child_def zero ab b present_def)
  then show "vm_wf demo_tables vmm_demo"
    by (simp add: demo_tables_def ab b)
qed

lemma vmm_demo_unmapped:
  "xscore_vmm_is_mapped_in 0x100000 va vmm_demo = None" "\<not> blocked vmm_demo 0x100000 (walk_path va)"
  using vmm_demo_wf(5)
  by (simp_all add: is_mapped_in_leaf leaf_entry_def leaf_table_def child_def walk_path_def present_def)

section \<open>Properties\<close>

text \<open>
  C1. Mapping a page. In a well-formed forest of tables, \<^verbatim>\<open>xscore_vmm_map_page_in\<close> keeps the
  forest well formed and all its tables; it succeeds when the address is valid and unmapped,
  no large page is in the way and three pages are free. On success the address, unmapped
  before, is mapped to the given page with the given flags and one TLB shootdown was sent; no
  other address of the root changed, and none of another root unless the two share the upper
  table. On failure no translation changed.
\<close>

theorem vmm_map_page_correct:
  assumes "vm_wf L s" and "L R = Some 4"
    and "pa AND PAGE_ADDRESS_MASK = pa" and "flags AND PAGE_ADDRESS_MASK = 0"
    and "xscore_vmm_map_page_in R va pa flags s = (ok, s')"
  shows "\<exists>L'. vm_wf L' s' \<and> L \<subseteq>\<^sub>m L' \<and>
    (va \<noteq> 0 \<and> va_ok va \<and> xscore_vmm_is_mapped_in R va s = None \<and>
       \<not> blocked s R (walk_path va) \<and> 3 \<le> card (free_pages (vm_pmm s)) \<longrightarrow> ok) \<and>
    (ok \<longrightarrow> xscore_vmm_is_mapped_in R va s = None \<and>
       xscore_vmm_is_mapped_in R va s' = Some (flags OR XSCORE_PAGE_PRESENT, pa) \<and>
       tlb_shootdowns s' = tlb_shootdowns s @ [(R, va)]) \<and>
    (\<forall>va'. va' \<noteq> va \<or> \<not> ok \<longrightarrow> xscore_vmm_is_mapped_in R va' s' = xscore_vmm_is_mapped_in R va' s) \<and>
    (\<forall>R' va'. L R' = Some 4 \<and> (\<not> ok \<or> child s' R' (pml4_index va') \<noteq> child s' R (pml4_index va)) \<longrightarrow>
       xscore_vmm_is_mapped_in R' va' s' = xscore_vmm_is_mapped_in R' va' s)"
proof -
  have aligned: "pa AND (PAGE_SIZE - 1) = 0"
    using masked_aligned [of pa] assms(3) by (simp add: page_aligned_and)
  have ok: "ok" if "va \<noteq> 0" "va_ok va" "xscore_vmm_is_mapped_in R va s = None"
    "\<not> blocked s R (walk_path va)" "3 \<le> card (free_pages (vm_pmm s))"
    using map_page_in_succeeds [OF assms(1,2) that(2,1) aligned that(5,4,3), of flags] assms(5) by simp
  obtain L' where "vm_wf L' s'" "L \<subseteq>\<^sub>m L'"
    "ok \<Longrightarrow> xscore_vmm_is_mapped_in R va s = None \<and>
        xscore_vmm_is_mapped_in R va s' = Some (flags OR XSCORE_PAGE_PRESENT, pa) \<and>
        tlb_shootdowns s' = tlb_shootdowns s @ [(R, va)]"
    "\<And>va'. va' \<noteq> va \<or> \<not> ok \<Longrightarrow> xscore_vmm_is_mapped_in R va' s' = xscore_vmm_is_mapped_in R va' s"
    "\<And>R' va'. L R' = Some 4 \<Longrightarrow> \<not> ok \<or> child s' R' (pml4_index va') \<noteq> child s' R (pml4_index va) \<Longrightarrow>
        xscore_vmm_is_mapped_in R' va' s' = xscore_vmm_is_mapped_in R' va' s"
    using map_page_in_spec [OF assms] by blast
  then show ?thesis
    using ok by (intro exI [of _ L']) simp
qed

theorem vmm_map_page_correct_witness:
  "\<exists>s'. xscore_vmm_map_page_in 0x100000 0x8000000000 0x42000 XSCORE_PAGE_WRITABLE vmm_demo = (True, s') \<and>
     xscore_vmm_is_mapped_in 0x100000 0x8000000000 s' = Some (XSCORE_PAGE_WRITABLE OR XSCORE_PAGE_PRESENT, 0x42000) \<and>
     xscore_vmm_is_mapped_in 0x100000 0x8000001000 s' = None"
proof -
  obtain ok s' where eq:
    "xscore_vmm_map_page_in 0x100000 0x8000000000 0x42000 XSCORE_PAGE_WRITABLE vmm_demo = (ok, s')"
    by fastforce
  have va: "va_ok 0x8000000000"
    by (simp add: va_ok_def address_is_canonical_def PAGE_SIZE_def drop_bit_eq_div)
  have pa: "0x42000 AND PAGE_ADDRESS_MASK = 0x42000" "XSCORE_PAGE_WRITABLE AND PAGE_ADDRESS_MASK = 0"
    by (simp_all add: PAGE_ADDRESS_MASK_def XSCORE_PAGE_WRITABLE_def)
  note res = vmm_map_page_correct [OF vmm_demo_wf(1,2) pa eq]
  have "ok"
    using res va vmm_demo_unmapped by (auto simp: vmm_demo_wf(3))
  then show ?thesis
    using res eq vmm_demo_unmapped by auto
qed

text \<open>
  C3. Unmapping a page returns the physical address that was mapped (none if none was), leaves
  the address unmapped and sends a shootdown exactly when something was mapped. Every other
  translation of the root, and of a root with a different upper table, is kept, and no page
  of memory is freed or allocated.
\<close>

theorem vmm_unmap_page_correct:
  assumes "vm_wf L s" and "L R = Some 4" and "xscore_vmm_unmap_page_in R va s = (r, s')"
  shows "r = map_option snd (xscore_vmm_is_mapped_in R va s) \<and> vm_wf L s' \<and>
    xscore_vmm_is_mapped_in R va s' = None \<and>
    (\<forall>va'. va' \<noteq> va \<longrightarrow> xscore_vmm_is_mapped_in R va' s' = xscore_vmm_is_mapped_in R va' s) \<and>
    (\<forall>R' va'. L R' = Some 4 \<longrightarrow> child s R' (pml4_index va') \<noteq> child s R (pml4_index va) \<longrightarrow>
       xscore_vmm_is_mapped_in R' va' s' = xscore_vmm_is_mapped_in R' va' s) \<and>
    tlb_shootdowns s' = tlb_shootdowns s @ (if r = None then [] else [(R, va)]) \<and>
    vm_pmm s' = vm_pmm s"
  by (rule unmap_page_in_spec [OF assms])

theorem vmm_unmap_page_correct_witness:
  "\<exists>s'. xscore_vmm_unmap_page_in 0x100000 0x8000000000 vmm_demo = (None, s') \<and> vm_pmm s' = vm_pmm vmm_demo"
proof -
  obtain r s' where eq: "xscore_vmm_unmap_page_in 0x100000 0x8000000000 vmm_demo = (r, s')"
    by fastforce
  show ?thesis
    using vmm_unmap_page_correct [OF vmm_demo_wf(1,2) eq] eq vmm_demo_unmapped(1) by simp
qed

text \<open>
  C4. A new address space. When \<^verbatim>\<open>xscore_vmm_address_space_create\<close> returns a root it is a page no
  table used, the forest stays well formed with it, every translation of the old roots is
  kept, and the new root translates an address as the kernel root does where the kernel's top
  entry is not a user entry and not at all elsewhere: no user mapping is inherited.
\<close>

theorem vmm_address_space_create_correct:
  assumes "vm_wf L s" and "L (root_table_address s) = Some 4"
    and "xscore_vmm_address_space_create s = (c, s')" and "c \<noteq> 0"
  shows "L c = None \<and> vm_wf (L(c \<mapsto> 4)) s' \<and>
    (\<forall>R va. L R = Some 4 \<longrightarrow> xscore_vmm_is_mapped_in R va s' = xscore_vmm_is_mapped_in R va s) \<and>
    (\<forall>va. xscore_vmm_is_mapped_in c va s' =
       (if kernel_entry (get_entry s (root_table_address s) (pml4_index va))
        then xscore_vmm_is_mapped_in (root_table_address s) va s else None))"
  using address_space_create_spec [OF assms] vm_wf_table(6) [OF assms(1,2)] assms(4)
  by (simp add: is_mapped_in_leaf)

theorem vmm_address_space_create_correct_witness:
  "\<exists>c s'. xscore_vmm_address_space_create vmm_demo = (c, s') \<and> c \<noteq> 0 \<and> demo_tables c = None \<and>
     vm_wf (demo_tables(c \<mapsto> 4)) s' \<and> xscore_vmm_is_mapped_in c 0x8000000000 s' = None"
proof -
  obtain c s' where eq: "xscore_vmm_address_space_create vmm_demo = (c, s')"
    by fastforce
  obtain d s1 where al: "allocate_table vmm_demo = (d, s1)"
    by fastforce
  have "d \<noteq> 0"
    using allocate_table_progress [OF vm_wf_pmm [OF vmm_demo_wf(1)] al, of 0] by (simp add: vmm_demo_wf(3))
  then have c: "c \<noteq> 0"
    using eq al by (auto simp: xscore_vmm_address_space_create_def vmm_demo_wf(4))
  show ?thesis
    using vmm_address_space_create_correct [OF vmm_demo_wf(1) _ eq c] eq c vmm_demo_unmapped(1)
    by (auto simp: vmm_demo_wf(2,4))
qed

end
