(* ===== verification/Virtual_Split.thy ===== *)
theory Virtual_Split
  imports Virtual_Map
begin

unbundle bit_operations_syntax

text \<open>
  Splitting a large page, \<^verbatim>\<open>xscore_vmm_split_large_page\<close>, against the translation the processor
  performs on the tables.
\<close>

section \<open>The translation of the processor\<close>

text \<open>
  The translation the processor performs, per 4 KiB page: the frame and whether the page is
  writable, open to user mode and not executable, the first two being the conjunction and the
  last the disjunction over the entries of the walk. An entry whose address field is 0 counts as absent.
\<close>

definition mmu_rights :: "u64 list \<Rightarrow> bool \<times> bool \<times> bool" where
  "mmu_rights es = (list_all (\<lambda>e. e AND XSCORE_PAGE_WRITABLE \<noteq> 0) es, list_all user es,
     list_ex (\<lambda>e. e AND XSCORE_PAGE_NO_EXECUTE \<noteq> 0) es)"

definition large_frame :: "u64 \<Rightarrow> u64 \<Rightarrow> u64 \<Rightarrow> u64" where
  "large_frame span e va =
     (e AND PAGE_ADDRESS_MASK AND NOT (span - 1)) OR (va AND (span - 1) AND NOT (PAGE_SIZE - 1))"

definition mmu_table :: "vmm \<Rightarrow> u64 \<Rightarrow> u64 list \<Rightarrow> u64 \<Rightarrow> (u64 \<times> bool \<times> bool \<times> bool) option" where
  "mmu_table s t es va =
     (let e = get_entry s t (table_index va) in
      if present e then Some (e AND PAGE_ADDRESS_MASK, mmu_rights (es @ [e])) else None)"

definition mmu_directory :: "vmm \<Rightarrow> u64 \<Rightarrow> u64 list \<Rightarrow> u64 \<Rightarrow> (u64 \<times> bool \<times> bool \<times> bool) option" where
  "mmu_directory s t es va =
     (let e = get_entry s t (directory_index va) in
      if present e \<and> large e then Some (large_frame LARGE_PAGE_SIZE e va, mmu_rights (es @ [e]))
      else if child s t (directory_index va) = 0 then None
      else mmu_table s (child s t (directory_index va)) (es @ [e]) va)"

definition mmu_pdpt :: "vmm \<Rightarrow> u64 \<Rightarrow> u64 list \<Rightarrow> u64 \<Rightarrow> (u64 \<times> bool \<times> bool \<times> bool) option" where
  "mmu_pdpt s t es va =
     (let e = get_entry s t (pdpt_index va) in
      if present e \<and> large e then Some (large_frame (512 * LARGE_PAGE_SIZE) e va, mmu_rights (es @ [e]))
      else if child s t (pdpt_index va) = 0 then None
      else mmu_directory s (child s t (pdpt_index va)) (es @ [e]) va)"

definition mmu_translate :: "vmm \<Rightarrow> u64 \<Rightarrow> u64 \<Rightarrow> (u64 \<times> bool \<times> bool \<times> bool) option" where
  "mmu_translate s root va =
     (if child s root (pml4_index va) = 0 then None
      else mmu_pdpt s (child s root (pml4_index va)) [get_entry s root (pml4_index va)] va)"

lemma table_index_offset:
  "of_nat (table_index va) * PAGE_SIZE = va AND (LARGE_PAGE_SIZE - 1) AND NOT (PAGE_SIZE - 1)"
proof -
  have m: "(0x1ff :: u64) = mask 9" "LARGE_PAGE_SIZE - 1 = mask 21" "PAGE_SIZE - 1 = mask 12"
    by (simp_all add: mask_eq_exp_minus_1 LARGE_PAGE_SIZE_def PAGE_SIZE_def)
  have "of_nat (table_index va) * PAGE_SIZE = push_bit 12 (drop_bit 12 va AND mask 9)"
    by (simp add: table_index_def m(1) push_bit_eq_mult PAGE_SIZE_def)
  also have "\<dots> = va AND (LARGE_PAGE_SIZE - 1) AND NOT (PAGE_SIZE - 1)"
    unfolding m(2,3)
  proof (rule bit_word_eqI)
    fix n assume "n < LENGTH(64)"
    then show "bit (push_bit 12 (drop_bit 12 va AND mask 9)) n = bit (va AND mask 21 AND NOT (mask 12)) n"
      by (auto simp: bit_push_bit_iff bit_and_iff bit_drop_bit_eq bit_mask_iff bit_not_iff)
  qed
  finally show ?thesis .
qed

lemma split_entry:
  assumes base: "(e AND PAGE_ADDRESS_MASK) AND (LARGE_PAGE_SIZE - 1) = 0"
    and e: "present e"
    and g: "g = ((e AND PAGE_ADDRESS_MASK) + of_nat (table_index va) * PAGE_SIZE) OR
      (e AND (XSCORE_PAGE_PRESENT OR XSCORE_PAGE_WRITABLE OR XSCORE_PAGE_USER OR XSCORE_PAGE_NO_EXECUTE))"
  shows "present g" "g AND PAGE_ADDRESS_MASK = large_frame LARGE_PAGE_SIZE e va"
    "bit g 1 = bit e 1" "bit g 2 = bit e 2" "bit g 63 = bit e 63"
proof -
  have m: "LARGE_PAGE_SIZE - 1 = mask 21" "PAGE_SIZE - 1 = mask 12"
    by (simp_all add: mask_eq_exp_minus_1 LARGE_PAGE_SIZE_def PAGE_SIZE_def)
  have low: "\<not> (bit e n \<and> 12 \<le> n \<and> n < 21)" for n
  proof -
    have "bit ((e AND PAGE_ADDRESS_MASK) AND mask 21) n = False"
      using base unfolding m by simp
    then show ?thesis
      by (auto simp: bit_and_iff mask_bit bit_mask_iff)
  qed
  define off where "off = va AND (LARGE_PAGE_SIZE - 1) AND NOT (PAGE_SIZE - 1)"
  have o: "bit off n \<longleftrightarrow> bit va n \<and> 12 \<le> n \<and> n < 21" for n
    unfolding off_def m by (auto simp: bit_and_iff bit_mask_iff bit_not_iff dest: bit_imp_le_length)
  have "(e AND PAGE_ADDRESS_MASK) + off = (e AND PAGE_ADDRESS_MASK) OR off"
  proof (rule disjunctive_add)
    fix n
    show "\<not> bit (e AND PAGE_ADDRESS_MASK) n \<or> \<not> bit off n"
      using low [of n] o [of n] by (auto simp: bit_and_iff)
  qed
  then have g': "g = ((e AND PAGE_ADDRESS_MASK) OR off) OR
      (e AND (XSCORE_PAGE_PRESENT OR XSCORE_PAGE_WRITABLE OR XSCORE_PAGE_USER OR XSCORE_PAGE_NO_EXECUTE))"
    unfolding g table_index_offset off_def by simp
  have bits: "bit g n \<longleftrightarrow> bit e n \<and> 12 \<le> n \<and> n < 52 \<or> bit va n \<and> 12 \<le> n \<and> n < 21 \<or>
      bit e n \<and> (n = 0 \<or> n = 1 \<or> n = 2 \<or> n = 63)" for n
    unfolding g' bit_or_iff o bit_and_iff mask_bit flag_bits by auto
  show "present g"
    using e bits [of 0] by (simp add: present_bit)
  show "bit g 1 = bit e 1" "bit g 2 = bit e 2" "bit g 63 = bit e 63"
    using bits [of 1] bits [of 2] bits [of 63] by simp_all
  show "g AND PAGE_ADDRESS_MASK = large_frame LARGE_PAGE_SIZE e va"
  proof (rule bit_word_eqI)
    fix n assume n: "n < LENGTH(64)"
    then have n': "n < 64" by simp
    have "bit (large_frame LARGE_PAGE_SIZE e va) n \<longleftrightarrow> bit e n \<and> 21 \<le> n \<and> n < 52 \<or> bit va n \<and> 12 \<le> n \<and> n < 21"
      unfolding large_frame_def off_def [symmetric] bit_or_iff o unfolding m
      using n' by (auto simp: bit_and_iff mask_bit bit_mask_iff bit_not_iff)
    then show "bit (g AND PAGE_ADDRESS_MASK) n = bit (large_frame LARGE_PAGE_SIZE e va) n"
      using low [of n] bits [of n] by (auto simp: bit_and_iff mask_bit)
  qed
qed

lemma rights_bits:
  "mmu_rights es = (list_all (\<lambda>e. bit e 1) es, list_all (\<lambda>e. bit e 2) es, list_ex (\<lambda>e. bit e 63) es)"
proof -
  have "e AND XSCORE_PAGE_WRITABLE \<noteq> 0 \<longleftrightarrow> bit e 1" "e AND XSCORE_PAGE_NO_EXECUTE \<noteq> 0 \<longleftrightarrow> bit e 63" for e :: u64
  proof -
    have "XSCORE_PAGE_WRITABLE = 2 ^ 1" "XSCORE_PAGE_NO_EXECUTE = 2 ^ 63"
      by (simp_all add: XSCORE_PAGE_WRITABLE_def XSCORE_PAGE_NO_EXECUTE_def push_bit_of_1)
    then show "e AND XSCORE_PAGE_WRITABLE \<noteq> 0 \<longleftrightarrow> bit e 1" "e AND XSCORE_PAGE_NO_EXECUTE \<noteq> 0 \<longleftrightarrow> bit e 63"
      by (metis and_exp_eq_0_iff_not_bit)+
  qed
  then show ?thesis
    by (simp add: mmu_rights_def user_bit [abs_def])
qed

section \<open>Splitting\<close>

lemma mmu_translate_frame:
  assumes wf: "vm_wf L s" and R: "L R = Some 4"
    and hi: "\<And>t l i. L t = Some l \<Longrightarrow> 2 < l \<Longrightarrow> i < 512 \<Longrightarrow> get_entry s' t i = get_entry s t i"
    and dir: "\<And>t es. L t = Some 2 \<Longrightarrow> mmu_directory s' t es va = mmu_directory s t es va"
  shows "mmu_translate s' R va = mmu_translate s R va"
proof -
  define a where "a = child s R (pml4_index va)"
  have e4: "get_entry s' R (pml4_index va) = get_entry s R (pml4_index va)"
    using hi [OF R] by simp
  then have a: "child s' R (pml4_index va) = a"
    unfolding a_def by (rule child_cong)
  have "mmu_pdpt s' a es va = mmu_pdpt s a es va" if nz: "a \<noteq> 0" for es
  proof -
    have La: "L a = Some 3"
      using vm_wf_child [OF wf R, of "pml4_index va"] nz by (simp add: a_def)
    define b where "b = child s a (pdpt_index va)"
    have e3: "get_entry s' a (pdpt_index va) = get_entry s a (pdpt_index va)"
      using hi [OF La] by simp
    then have b: "child s' a (pdpt_index va) = b"
      unfolding b_def by (rule child_cong)
    have "mmu_directory s' b es' va = mmu_directory s b es' va" if "b \<noteq> 0" for es'
      using dir vm_wf_child [OF wf La, of "pdpt_index va"] that by (simp add: b_def)
    then show ?thesis
      by (simp add: mmu_pdpt_def e3 b b_def [symmetric] Let_def)
  qed
  then show ?thesis
    by (simp add: mmu_translate_def a e4 a_def [symmetric])
qed

lemma mmu_directory_frame:
  assumes wf: "vm_wf L s" and t: "L t = Some 2"
    and e: "get_entry s' t (directory_index va) = get_entry s t (directory_index va)"
    and leaf: "\<And>u i. L u = Some 1 \<Longrightarrow> i < 512 \<Longrightarrow> get_entry s' u i = get_entry s u i"
  shows "mmu_directory s' t es va = mmu_directory s t es va"
proof -
  have c: "child s' t (directory_index va) = child s t (directory_index va)"
    using e by (rule child_cong)
  have "mmu_table s' (child s t (directory_index va)) es' va = mmu_table s (child s t (directory_index va)) es' va"
    if "child s t (directory_index va) \<noteq> 0" for es'
    using leaf [of _ "table_index va"] vm_wf_child [OF wf t, of "directory_index va"] that by (simp add: mmu_table_def)
  then show ?thesis
    by (simp add: mmu_directory_def e c Let_def)
qed

lemma walk_directory_lookup:
  "walk_directory False 0 root va s =
     (if child s root (pml4_index va) = 0 then 0 else child s (child s root (pml4_index va)) (pdpt_index va), s)"
  by (simp add: walk_directory_def next_level_lookup)

definition split_leaf :: "u64 \<Rightarrow> nat \<Rightarrow> u64" where
  "split_leaf e i = ((e AND PAGE_ADDRESS_MASK) + of_nat i * PAGE_SIZE) OR
     (e AND (XSCORE_PAGE_PRESENT OR XSCORE_PAGE_WRITABLE OR XSCORE_PAGE_USER OR XSCORE_PAGE_NO_EXECUTE))"

definition split_branch :: "u64 \<Rightarrow> u64 \<Rightarrow> u64" where
  "split_branch e t = t OR (if user e then (XSCORE_PAGE_PRESENT OR XSCORE_PAGE_WRITABLE) OR XSCORE_PAGE_USER
     else XSCORE_PAGE_PRESENT OR XSCORE_PAGE_WRITABLE)"

lemma split_branch_entry:
  assumes "table_address t"
  shows "present (split_branch e t)" "\<not> large (split_branch e t)" "split_branch e t AND PAGE_ADDRESS_MASK = t"
    "bit (split_branch e t) 1" "bit (split_branch e t) 2 = bit e 2" "\<not> bit (split_branch e t) 63"
proof -
  have mask: "t AND PAGE_ADDRESS_MASK = t"
    using assms by (simp add: table_address_def)
  have "\<not> bit t 7" "\<not> bit t 2" "\<not> bit t 63"
    using table_address_bits [OF mask] by fastforce+
  then show "present (split_branch e t)" "\<not> large (split_branch e t)"
    "bit (split_branch e t) 1" "bit (split_branch e t) 2 = bit e 2" "\<not> bit (split_branch e t) 63"
    by (auto simp: split_branch_def entry_bits)
  show "split_branch e t AND PAGE_ADDRESS_MASK = t"
    unfolding split_branch_def by (rule or_flags_mask [OF mask]) (auto simp: entry_bits split: if_splits)
qed

lemma split_large_page_cases:
  assumes wf: "vm_wf L s" and R: "L (root_table_address s) = Some 4"
    and split: "xscore_vmm_split_large_page va s = (ok, s')"
  obtains (refused) "\<not> ok" "s' = s"
    | (same) d where "ok" "walk_directory False 0 (root_table_address s) va s = (d, s)" "d \<noteq> 0"
      "\<not> (present (get_entry s d (directory_index va)) \<and> large (get_entry s d (directory_index va)))"
      "s' = xscore_smp_tlb_shootdown (root_table_address s) va s"
    | (full) "\<not> ok" "allocate_table s = (0, s')"
    | (table) d t s1 e where "ok" "walk_directory False 0 (root_table_address s) va s = (d, s)" "L d = Some 2" "e = get_entry s d (directory_index va)" "present e" "large e"
      "allocate_table s = (t, s1)" "t \<noteq> 0"
      "s' = xscore_smp_tlb_shootdown (root_table_address s) va
         (set_entry d (directory_index va) (split_branch e t)
           (fold (\<lambda>i. set_entry t i (split_leaf e i)) [0..<512] s1))"
proof -
  let ?R = "root_table_address s"
  have Rnz: "?R \<noteq> 0" using vm_wf_table(6) [OF wf R] .
  define a where "a = child s ?R (pml4_index va)"
  define d where "d = child s a (pdpt_index va)"
  consider (bad) "\<not> address_is_canonical va \<or> va AND (LARGE_PAGE_SIZE - 1) \<noteq> 0 \<or> a = 0 \<or> d = 0"
    | (walk) "address_is_canonical va" "va AND (LARGE_PAGE_SIZE - 1) = 0" "a \<noteq> 0" "d \<noteq> 0"
    by blast
  then show ?thesis
  proof cases
    case bad
    then show ?thesis
      using split refused
      by (auto simp: xscore_vmm_split_large_page_def walk_directory_lookup Let_def a_def d_def split: if_splits)
  next
    case walk
    have "L a = Some 3"
      using vm_wf_child [OF wf R, of "pml4_index va"] walk by (simp add: a_def)
    then have Ld: "L d = Some 2"
      using vm_wf_child [OF wf, of a 3 "pdpt_index va"] walk by (simp add: d_def)
    define e where "e = get_entry s d (directory_index va)"
    have dir: "walk_directory False 0 ?R va s = (d, s)"
      using walk by (simp add: walk_directory_lookup a_def d_def)
    obtain t s1 where al: "allocate_table s = (t, s1)" by fastforce
    show ?thesis
    proof (cases "present e \<and> large e")
      case False
      then show ?thesis
        using split walk Rnz same [OF _ dir]
        by (auto simp: dir xscore_vmm_split_large_page_def Let_def e_def [symmetric])
    next
      case large: True
      show ?thesis
      proof (cases "t = 0")
        case True
        then show ?thesis
          using split walk Rnz dir full large al
          by (auto simp: xscore_vmm_split_large_page_def Let_def e_def [symmetric])
      next
        case False
        then show ?thesis
          using split walk Rnz dir large al table [OF _ dir Ld e_def]
          by (auto simp: xscore_vmm_split_large_page_def Let_def e_def [symmetric] split_branch_def
              split_leaf_def [abs_def] ENTRIES_PER_TABLE_def)
      qed
    qed
  qed
qed
lemma mmu_translate_shootdown [simp]:
  "mmu_translate (xscore_smp_tlb_shootdown r v s) R va = mmu_translate s R va"
  by (simp add: mmu_translate_def mmu_pdpt_def mmu_directory_def mmu_table_def Let_def)

lemma mmu_translate_failed_table:
  assumes "vm_wf L s" "allocate_table s = (0, s')"
  shows "mmu_translate s' R va = mmu_translate s R va"
proof -
  have get: "get_entry s' = get_entry s"
    using allocate_table_spec(3) [OF assms] by simp
  then have "child s' = child s"
    by (simp add: child_def fun_eq_iff)
  with get show ?thesis
    by (simp add: mmu_translate_def mmu_pdpt_def mmu_directory_def mmu_table_def Let_def)
qed

text \<open>The page directory entry turned into a table of 512 pages.\<close>

lemma split_table_spec:
  assumes wf: "vm_wf L s" and d: "L d = Some 2" and j: "j < 512"
    and e: "e = get_entry s d j" "present e" "large e" "(e AND PAGE_ADDRESS_MASK) AND (LARGE_PAGE_SIZE - 1) = 0"
    and al: "allocate_table s = (t, s1)" "t \<noteq> 0"
    and s2: "s2 = set_entry d j (split_branch e t) (fold (\<lambda>i. set_entry t i (split_leaf e i)) [0..<512] s1)"
  shows "vm_wf (L(t \<mapsto> 1)) s2" "L t = None" "child s2 d j = t"
    "L R = Some 4 \<Longrightarrow> mmu_translate s2 R va = mmu_translate s R va"
    "L R = Some 4 \<Longrightarrow> walk_directory False 0 R va s2 = (fst (walk_directory False 0 R va s), s2)"
proof -
  note spec = allocate_table_spec [OF wf al(1)]
  have t: "table_address t" "L t = None" "unat t div 4096 \<notin> free_pages (vm_pmm s1)"
    and get1: "\<And>u i. page_aligned u \<Longrightarrow> i < 512 \<Longrightarrow> get_entry s1 u i = (if u = t then 0 else get_entry s u i)"
    using spec(4) [OF al(2)] by blast+
  show "L t = None" by (rule t(2))
  have al_t: "page_aligned t" "page_aligned d" "t \<noteq> d"
    using t vm_wf_table(5) [OF wf d] d by (auto simp: table_address_def)
  have entry: "get_entry s2 u i = (if u = d \<and> i = j then split_branch e t
      else if u = t then split_leaf e i else get_entry s u i)" if "page_aligned u" "i < 512" for u i
    using get_entry_set_entry [OF al_t(2) that(1) j that(2), of "split_branch e t"]
      get_entry_fold [OF al_t(1) that(1) order_refl that(2), of "split_leaf e" 0 s1] get1 [OF that] that al_t
    by (auto simp: s2)
  have old: "get_entry s2 u i = get_entry s u i" if "L u = Some k" "i < 512" "(u, i) \<noteq> (d, j)" for u k i
    using entry [OF vm_wf_table(5) [OF wf that(1)] that(2)] that(1,3) t(2) by auto
  note br = split_branch_entry [OF t(1), of e]
  have dj: "get_entry s2 d j = split_branch e t"
    using entry [OF al_t(2) j] by simp
  then show dj': "child s2 d j = t"
    using child_of_entry [OF br(1,2)] br(3) by simp
  have "child s d j = 0" using e by (simp add: child_def)
  then have "vm_wf (L(t \<mapsto> 2 - 1)) s2"
    by (intro vm_wf_add [OF wf _ _ d _ j _ t(1,2) _ dj'])
      (use spec(1,2) t(3) old in \<open>auto simp: s2 intro: child_cong\<close>)
  then show "vm_wf (L(t \<mapsto> 1)) s2" by simp
  have "mmu_directory s2 u es va = mmu_directory s u es va" if u: "L u = Some 2" for u es
  proof (cases "u = d \<and> directory_index va = j")
    case False
    show ?thesis
    proof (rule mmu_directory_frame [OF wf u])
      show "get_entry s2 u (directory_index va) = get_entry s u (directory_index va)"
        using old [OF u] False by auto
      show "get_entry s2 v i = get_entry s v i" if "L v = Some 1" "i < 512" for v i
      proof -
        have "v \<noteq> d" using that(1) d by auto
        then show ?thesis using old [OF that] by simp
      qed
    qed
  next
    case True
    define g where "g = split_leaf e (table_index va)"
    have tg: "get_entry s2 t (table_index va) = g"
      using entry [OF al_t(1), of "table_index va"] al_t(3) by (simp add: g_def)
    note le = split_entry [OF e(4,2) g_def [unfolded split_leaf_def]]
    have "mmu_rights (es @ [split_branch e t, g]) = mmu_rights (es @ [e])"
      using le(3-5) br(4-6) by (auto simp: rights_bits)
    then show ?thesis
      using True e(2,3) dj dj' al(2) br(2) tg le(1,2)
      by (simp add: mmu_directory_def mmu_table_def e(1) [symmetric] Let_def)
  qed
  moreover have hi: "get_entry s2 u i = get_entry s u i" if "L u = Some k" "2 < k" "i < 512" for u k i
  proof -
    have "u \<noteq> d" using that(1,2) d by auto
    then show ?thesis using old [OF that(1,3)] by simp
  qed
  ultimately show "mmu_translate s2 R va = mmu_translate s R va" if "L R = Some 4"
    by (rule mmu_translate_frame [OF wf that, rotated])
  show "walk_directory False 0 R va s2 = (fst (walk_directory False 0 R va s), s2)" if R: "L R = Some 4"
  proof -
    have a: "child s2 R (pml4_index va) = child s R (pml4_index va)"
      by (rule child_cong [OF hi [OF R]]) simp_all
    have "child s2 (child s R (pml4_index va)) (pdpt_index va) = child s (child s R (pml4_index va)) (pdpt_index va)"
      if "child s R (pml4_index va) \<noteq> 0"
      by (rule child_cong [OF hi [OF vm_wf_child [OF wf R _ _ that]]]) simp_all
    then show ?thesis
      by (simp add: walk_directory_lookup a)
  qed
qed

lemma shootdown_walk_directory:
  "walk_directory False 0 R va (xscore_smp_tlb_shootdown r v s) =
     (fst (walk_directory False 0 R va s), xscore_smp_tlb_shootdown r v s)"
  by (simp add: walk_directory_lookup)

definition large_aligned :: "(u64 \<Rightarrow> nat option) \<Rightarrow> vmm \<Rightarrow> bool" where
  "large_aligned L s \<longleftrightarrow> (\<forall>d i. L d = Some 2 \<and> i < 512 \<and> present (get_entry s d i) \<and> large (get_entry s d i) \<longrightarrow>
     (get_entry s d i AND PAGE_ADDRESS_MASK) AND (LARGE_PAGE_SIZE - 1) = 0)"

text \<open>
  C2. Splitting a 2 MiB page into 4 KiB pages keeps, for every address and every root, the frame
  and the access rights the processor computes, and the tables stay a well-formed forest; when
  the call reports success there is no large page at the address any more. The large pages
  must be 2 MiB aligned, as the identity map makes them.
\<close>

theorem vmm_split_keeps_translation:
  assumes "vm_wf L s" and "L (root_table_address s) = Some 4" and "large_aligned L s"
    and "xscore_vmm_split_large_page va s = (ok, s')"
  shows "\<exists>L'. vm_wf L' s' \<and> L \<subseteq>\<^sub>m L' \<and>
    (\<forall>R va'. L R = Some 4 \<longrightarrow> mmu_translate s' R va' = mmu_translate s R va') \<and>
    (ok \<longrightarrow> (\<exists>d. walk_directory False 0 (root_table_address s) va s' = (d, s') \<and> d \<noteq> 0 \<and>
       \<not> (present (get_entry s' d (directory_index va)) \<and> large (get_entry s' d (directory_index va)))))"
  using assms(1,2,4)
proof (cases rule: split_large_page_cases)
  case refused
  then show ?thesis using assms(1) by auto
next
  case (same d)
  then show ?thesis
    using assms(1) by (intro exI [of _ L]) (simp add: shootdown_walk_directory)
next
  case full
  then show ?thesis
    using allocate_table_failed [OF assms(1), of s' "{}"] mmu_translate_failed_table [OF assms(1)]
    by (intro exI [of _ L]) (simp add: vm_extends_def)
next
  case (table d t s1 e)
  have base: "(e AND PAGE_ADDRESS_MASK) AND (LARGE_PAGE_SIZE - 1) = 0"
    using assms(3) table(3-6) unfolding large_aligned_def by (metis index_bounds(3))
  note spec = split_table_spec [OF assms(1) table(3) index_bounds(3) [of va] table(4-6) base table(7,8) refl]
  have "table_address t" using vm_wf_table(1) [OF spec(1), of t 1] by simp
  then have br: "\<not> large (split_branch e t)" by (rule split_branch_entry)
  show ?thesis
    using spec table(2,3,9) br spec(5) [OF assms(2), of va] vm_wf_table(6) [OF assms(1) table(3)]
    by (intro exI [of _ "L(t \<mapsto> 1)"]) (auto simp: map_le_def shootdown_walk_directory)
qed

text \<open>A machine with one 2 MiB page at 0x200000, identity mapped.\<close>

definition vmm_large :: vmm where
  "vmm_large = set_entry 0x102000 1 0x200083 (set_entry 0x101000 0 0x102003 (set_entry 0x100000 0 0x101003
     (vmm_blank\<lparr>vm_pmm := snd (xscore_pmm_init_direct 0x110000 0x103000 pmm_blank)\<rparr>)))"

definition large_tables :: "u64 \<Rightarrow> nat option" where
  "large_tables = [0x100000 \<mapsto> 4, 0x101000 \<mapsto> 3, 0x102000 \<mapsto> 2]"

lemma vmm_large_entry:
  assumes "i < 512"
  shows "get_entry vmm_large 0x100000 i = (if i = 0 then 0x101003 else 0)"
    "get_entry vmm_large 0x101000 i = (if i = 0 then 0x102003 else 0)"
    "get_entry vmm_large 0x102000 i = (if i = 1 then 0x200083 else 0)"
  using assms
  by (simp_all add: vmm_large_def get_entry_set_entry page_aligned_def)
    (simp_all add: get_entry_def vmm_blank_def)

lemma vmm_large_child:
  assumes "i < 512"
  shows "child vmm_large 0x100000 i = (if i = 0 then 0x101000 else 0)"
    "child vmm_large 0x101000 i = (if i = 0 then 0x102000 else 0)"
    "child vmm_large 0x102000 i = 0"
  using vmm_large_entry [OF assms]
  by (simp_all add: child_def present_def large_def XSCORE_PAGE_PRESENT_def LARGE_PAGE_FLAG_def PAGE_ADDRESS_MASK_def)

lemma vmm_large_wf: "vm_wf large_tables vmm_large"
proof (rule vm_wfI)
  have "fst (xscore_pmm_init_direct 0x110000 0x103000 pmm_blank)"
    by (simp add: xscore_pmm_init_direct_def Let_def PAGE_SIZE_def MAX_PAGE_COUNT_def MAX_PHYSICAL_MEMORY_def)
  then have init: "xscore_pmm_init_direct 0x110000 0x103000 pmm_blank = (True, vm_pmm vmm_large)"
    by (simp add: vmm_large_def prod_eq_iff)
  note pmm = pmm_init_direct_exact [OF init]
  show "pmm_inv (vm_pmm vmm_large)" using pmm by simp
  have free: "free_pages (vm_pmm vmm_large) = {259..<272}" using pmm by simp
  show "table_address t \<and> 1 \<le> l \<and> l \<le> 4 \<and> unat t div 4096 \<notin> free_pages (vm_pmm vmm_large)"
    if "large_tables t = Some l" for t l
    using that by (auto simp: large_tables_def table_address_def page_aligned_def PAGE_ADDRESS_MASK_def free
        split: if_splits)
  show "large_tables (child vmm_large t i) = Some (l - 1)"
    if "large_tables t = Some l" "1 < l" "i < 512" "child vmm_large t i \<noteq> 0" for t l i
    using that vmm_large_child [OF that(3)] by (auto simp: large_tables_def split: if_splits)
  show "t = t' \<and> i = i'" if "large_tables t = Some l" "large_tables t' = Some l" "1 < l" "i < 512" "i' < 512"
    "child vmm_large t i = child vmm_large t' i'" "child vmm_large t i \<noteq> 0" "l < 4 \<or> t = t'" for t t' l i i'
    using that vmm_large_child [OF that(4)] vmm_large_child [OF that(5)]
    by (auto simp: large_tables_def split: if_splits)
qed

lemma vmm_large_translate:
  "mmu_translate vmm_large 0x100000 0x234000 = Some (0x234000, True, False, False)"
proof -
  have idx: "pml4_index 0x234000 = 0" "pdpt_index 0x234000 = 0" "directory_index 0x234000 = 1"
    by (simp_all add: pml4_index_def pdpt_index_def directory_index_def drop_bit_eq_div)
  show ?thesis
    by (simp add: mmu_translate_def mmu_pdpt_def mmu_directory_def idx vmm_large_child vmm_large_entry
        present_def large_def user_def XSCORE_PAGE_PRESENT_def LARGE_PAGE_FLAG_def XSCORE_PAGE_USER_def
        XSCORE_PAGE_WRITABLE_def XSCORE_PAGE_NO_EXECUTE_def large_frame_def LARGE_PAGE_SIZE_def PAGE_SIZE_def
        PAGE_ADDRESS_MASK_def mmu_rights_def)
qed

theorem vmm_split_keeps_translation_witness:
  "\<exists>ok s'. xscore_vmm_split_large_page 0x200000 vmm_large = (ok, s') \<and>
     mmu_translate s' 0x100000 0x234000 = Some (0x234000, True, False, False)"
proof -
  obtain ok s' where eq: "xscore_vmm_split_large_page 0x200000 vmm_large = (ok, s')"
    by fastforce
  have root: "root_table_address vmm_large = 0x100000" "large_tables 0x100000 = Some 4"
    by (simp_all add: vmm_large_def vmm_blank_def large_tables_def)
  have "large_aligned large_tables vmm_large"
    by (auto simp: large_aligned_def large_tables_def vmm_large_entry PAGE_ADDRESS_MASK_def LARGE_PAGE_SIZE_def
        present_def split: if_splits)
  from vmm_split_keeps_translation [OF vmm_large_wf _ this eq] show ?thesis
    using eq root vmm_large_translate by auto
qed

end
