(* ===== verification/Heap.thy ===== *)
theory Heap
  imports Virtual_Map
begin

unbundle bit_operations_syntax

text \<open>
  The kernel heap, \<^verbatim>\<open>xscore/memory/heap.c\<close>: a first-fit allocator over a chain of blocks, each
  a 24-byte header followed by its payload, that grows at \<^verbatim>\<open>HEAP_BASE\<close> by mapping pages from
  the page allocator. The headers are a store of their own, indexed by address: the kernel's
  clients write payloads only. The pages that back the heap are those of the page-table model,
  whose state is a field of the heap's, and growing performs its calls. The loops over the
  chain are partial functions, since a chain with a cycle would not end.
\<close>

section \<open>The code\<close>

definition HEAP_BASE :: u64 where "HEAP_BASE = 0xffff800000000000"
definition HEAP_GROWTH_PAGES :: u64 where "HEAP_GROWTH_PAGES = 16"
definition HEAP_INITIAL_PAGES :: u64 where "HEAP_INITIAL_PAGES = 256"
definition HEAP_MAGIC :: u32 where "HEAP_MAGIC = 0x58484d42"

definition HEAP_HEADER :: u64 where
  "HEAP_HEADER = 24"

record heap_block =
  hb_size :: u64
  hb_next :: u64
  hb_magic :: u32
  hb_free :: bool

record heap =
  hb_at :: "u64 \<Rightarrow> heap_block"
  first_block :: u64
  mapped_bytes :: u64
  allocated_bytes :: u64
  allocation_count :: u64
  heap_locked :: bool
  heap_vm :: vmm


partial_function (option) last_block_from :: "(u64 \<Rightarrow> heap_block) \<Rightarrow> u64 \<Rightarrow> u64 option" where
  "last_block_from h block =
     (if hb_next (h block) \<noteq> 0 then last_block_from h (hb_next (h block)) else Some block)"

definition last_block :: "heap \<Rightarrow> u64 option" where
  "last_block s = (if first_block s = 0 then Some 0 else last_block_from (hb_at s) (first_block s))"

definition growth_page_count :: "u64 \<Rightarrow> u64" where
  "growth_page_count minimum_payload =
     (let required = minimum_payload + HEAP_HEADER;
          page_count = (required + PAGE_SIZE - 1) div PAGE_SIZE
      in if page_count < HEAP_GROWTH_PAGES then HEAP_GROWTH_PAGES else page_count)"

definition rollback_growth :: "u64 \<Rightarrow> nat \<Rightarrow> vmm \<Rightarrow> vmm" where
  "rollback_growth growth_start page vm =
     fold (\<lambda>rollback vm.
         let (physical, vm) = xscore_vmm_unmap_page (growth_start + of_nat rollback * PAGE_SIZE) vm
         in vm\<lparr>vm_pmm := snd (xscore_pmm_free_page (case physical of None \<Rightarrow> 0 | Some p \<Rightarrow> p) (vm_pmm vm))\<rparr>)
       [0..<page] vm"

function map_growth :: "u64 \<Rightarrow> nat \<Rightarrow> nat \<Rightarrow> vmm \<Rightarrow> bool \<times> vmm" where
  "map_growth growth_start page page_count vm =
     (if page < page_count then
        let (physical, pmm') = xscore_pmm_allocate_page (vm_pmm vm); vm = vm\<lparr>vm_pmm := pmm'\<rparr> in
        if physical = 0 then (False, rollback_growth growth_start page vm)
        else
          let (ok, vm) = xscore_vmm_map_page (growth_start + of_nat page * PAGE_SIZE) physical
                (XSCORE_PAGE_WRITABLE OR XSCORE_PAGE_NO_EXECUTE) vm in
          if \<not> ok then
            (False, rollback_growth growth_start page
               (vm\<lparr>vm_pmm := snd (xscore_pmm_free_page physical (vm_pmm vm))\<rparr>))
          else map_growth growth_start (Suc page) page_count vm
      else (True, vm))"
  by pat_completeness auto
termination
  by (relation "measure (\<lambda>(_, page, page_count, _). page_count - page)") auto

declare map_growth.simps [simp del]

definition grow_heap :: "u64 \<Rightarrow> heap \<Rightarrow> (bool \<times> heap) option" where
  "grow_heap minimum_payload s =
     (let page_count = growth_page_count minimum_payload;
          growth_start = HEAP_BASE + mapped_bytes s;
          (ok, vm) = map_growth growth_start 0 (unat page_count) (heap_vm s);
          s = s\<lparr>heap_vm := vm\<rparr> in
      if \<not> ok then Some (False, s)
      else
        let growth_bytes = page_count * PAGE_SIZE;
            s = s\<lparr>hb_at := (hb_at s)(growth_start :=
                  \<lparr>hb_size = growth_bytes - HEAP_HEADER, hb_next = 0, hb_magic = HEAP_MAGIC, hb_free = True\<rparr>)\<rparr> in
        case last_block s of None \<Rightarrow> None
        | Some tail \<Rightarrow>
            let h = hb_at s;
                s = (if tail = 0 then s\<lparr>first_block := growth_start\<rparr>
                     else if hb_free (h tail) \<and> tail + HEAP_HEADER + hb_size (h tail) = growth_start
                     then s\<lparr>hb_at := h(tail := (h tail)\<lparr>hb_size := hb_size (h tail) + growth_bytes\<rparr>)\<rparr>
                     else s\<lparr>hb_at := h(tail := (h tail)\<lparr>hb_next := growth_start\<rparr>)\<rparr>)
            in Some (True, s\<lparr>mapped_bytes := mapped_bytes s + growth_bytes\<rparr>))"

definition xscore_heap_initialize :: "heap \<Rightarrow> (bool \<times> heap) option" where
  "xscore_heap_initialize s =
     grow_heap (HEAP_INITIAL_PAGES * PAGE_SIZE - HEAP_HEADER)
       (s\<lparr>heap_locked := True, first_block := 0, mapped_bytes := 0, allocated_bytes := 0, allocation_count := 0\<rparr>)"





partial_function (option) heap_coalesce :: "u64 \<Rightarrow> (u64 \<Rightarrow> heap_block) \<Rightarrow> (u64 \<Rightarrow> heap_block) option" where
  "heap_coalesce current h =
     (if current = 0 \<or> hb_next (h current) = 0 then Some h
      else
        let nxt = hb_next (h current); current_end = current + HEAP_HEADER + hb_size (h current) in
        if hb_free (h current) \<and> hb_free (h nxt) \<and> current_end = nxt
        then heap_coalesce current
               (h(current := (h current)\<lparr>hb_size := hb_size (h current) + (HEAP_HEADER + hb_size (h nxt)),
                                         hb_next := hb_next (h nxt)\<rparr>))
        else heap_coalesce nxt h)"

definition xscore_heap_free :: "u64 \<Rightarrow> heap \<Rightarrow> (bool \<times> heap) option" where
  "xscore_heap_free pointer s =
     (if pointer = 0 then Some (False, s)
      else if pointer < HEAP_BASE + HEAP_HEADER \<or> pointer \<ge> HEAP_BASE + mapped_bytes s then Some (False, s)
      else
        let block = pointer - HEAP_HEADER; h = hb_at s in
        if hb_magic (h block) \<noteq> HEAP_MAGIC \<or> hb_free (h block) then Some (False, s)
        else
          let h = h(block := (h block)\<lparr>hb_free := True\<rparr>);
              s = s\<lparr>hb_at := h, allocated_bytes := allocated_bytes s - hb_size (h block),
                    allocation_count := allocation_count s - 1\<rparr>
          in map_option (\<lambda>h. (True, s\<lparr>hb_at := h\<rparr>)) (heap_coalesce (first_block s) h))"

record xscore_heap_stats =
  stat_mapped_bytes :: u64
  stat_allocated_bytes :: u64
  stat_allocation_count :: u64

definition xscore_heap_get_stats :: "heap \<Rightarrow> xscore_heap_stats" where
  "xscore_heap_get_stats s =
     \<lparr>stat_mapped_bytes = mapped_bytes s, stat_allocated_bytes = allocated_bytes s,
      stat_allocation_count = allocation_count s\<rparr>"

section \<open>The chain as a list\<close>

text \<open>
  A block is its payload size and whether it is free. \<open>seg h p a bl q e\<close>: the headers from
  the pointer \<open>p\<close>, which is the address \<open>a\<close>, describe the blocks \<open>bl\<close>, laid out without gaps up to
  the address \<open>e\<close>, and the last of them points to \<open>q\<close>.
\<close>

type_synonym block = "u64 \<times> bool"

primrec seg :: "(u64 \<Rightarrow> heap_block) \<Rightarrow> u64 \<Rightarrow> u64 \<Rightarrow> block list \<Rightarrow> u64 \<Rightarrow> u64 \<Rightarrow> bool" where
  "seg h p a [] q e \<longleftrightarrow> p = q \<and> a = e"
| "seg h p a (b # bl) q e \<longleftrightarrow>
     p = a \<and> a \<noteq> 0 \<and> unat a + 24 + unat (fst b) < 2 ^ 64 \<and>
     hb_magic (h a) = HEAP_MAGIC \<and> hb_size (h a) = fst b \<and> hb_free (h a) = snd b \<and>
     seg h (hb_next (h a)) (a + 24 + fst b) bl q e"

lemma unat_block_end:
  "unat a + 24 + unat n < 2 ^ 64 \<Longrightarrow> unat (a + 24 + n :: u64) = unat a + 24 + unat n"
  by (simp add: unat_word_ariths)

lemma seg_append:
  "seg h p a (xs @ ys) q e \<longleftrightarrow> (\<exists>p' a'. seg h p a xs p' a' \<and> seg h p' a' ys q e)"
  by (induction xs arbitrary: p a) auto

lemma seg_mono: "seg h p a bl q e \<Longrightarrow> unat a + 24 * length bl \<le> unat e"
proof (induction bl arbitrary: p a)
  case (Cons b bl)
  then have "unat (a + 24 + fst b) + 24 * length bl \<le> unat e" by auto
  then show ?case
    using Cons.prems unat_block_end [of a "fst b"] by simp
qed simp

text \<open>Writes below the segment and at or above its end keep it.\<close>

lemma seg_frame_below: "seg h p a bl q e \<Longrightarrow> x < a \<Longrightarrow> seg (h(x := v)) p a bl q e"
proof (induction bl arbitrary: p a)
  case (Cons b bl)
  have "x < a + 24 + fst b"
    using Cons.prems unat_block_end [of a "fst b"] by (simp add: word_less_nat_alt)
  then show ?case
    using Cons by auto
qed simp

lemma seg_frame_above: "seg h p a bl q e \<Longrightarrow> e \<le> x \<Longrightarrow> seg (h(x := v)) p a bl q e"
proof (induction bl arbitrary: p a)
  case (Cons b bl)
  have "unat (a + 24 + fst b) \<le> unat e"
    using Cons.prems seg_mono [of h "hb_next (h a)" "a + 24 + fst b" bl q e] by simp
  then have "x \<noteq> a"
    using Cons.prems unat_block_end [of a "fst b"] by (auto simp: word_le_nat_alt)
  then show ?case
    using Cons by auto
qed simp

text \<open>Redirecting the pointer that a segment ends with.\<close>

lemma seg_snocD:
  assumes "seg h p a (bl @ [b]) q e"
  obtains x where "seg h p a bl x x" "hb_next (h x) = q" "e = x + 24 + fst b" "x \<noteq> 0" "x < e"
    "unat x + 24 + unat (fst b) < 2 ^ 64" "hb_magic (h x) = HEAP_MAGIC" "hb_size (h x) = fst b" "hb_free (h x) = snd b"
proof -
  obtain p' x where s: "seg h p a bl p' x" "seg h p' x [b] q e"
    using assms by (auto simp: seg_append)
  then show ?thesis
    using that [of x] unat_block_end [of x "fst b"] by (auto simp: word_less_nat_alt)
qed

section \<open>The loops over the chain\<close>



lemma last_block_spec:
  "seg h p a (bl @ [b]) 0 e \<Longrightarrow> seg h p a bl x x \<Longrightarrow> last_block_from h p = Some x"
proof (induction bl arbitrary: p a)
  case Nil
  then show ?case by (simp add: last_block_from.simps [of h x])
next
  case (Cons c bl)
  have "hb_next (h a) \<noteq> 0"
    using Cons.prems by (cases bl) auto
  then show ?case
    using Cons by (auto simp: last_block_from.simps [of h a])
qed

fun merge :: "block list \<Rightarrow> block list" where
  "merge ((n, True) # (k, True) # bl) = merge ((n + (24 + k), True) # bl)"
| "merge (b # bl) = b # merge bl"
| "merge [] = []"

fun no_adjacent_free :: "block list \<Rightarrow> bool" where
  "no_adjacent_free (b # c # bl) \<longleftrightarrow> \<not> (snd b \<and> snd c) \<and> no_adjacent_free (c # bl)"
| "no_adjacent_free _ \<longleftrightarrow> True"

lemma merge_head_free: "merge bl = c # cs \<Longrightarrow> snd c \<longleftrightarrow> bl \<noteq> [] \<and> snd (hd bl)"
  by (induction bl arbitrary: c cs rule: merge.induct) auto

lemma merge_no_adjacent: "no_adjacent_free (merge bl)"
proof (induction bl rule: merge.induct [case_names both_free used_head one_block used_next empty])
  case (used_head n bl)
  then show ?case
    by (cases "merge bl") auto
next
  case (one_block n)
  then show ?case by simp
next
  case (used_next n v bl)
  then show ?case
    by (cases "merge ((v, False) # bl)") (auto)
qed auto


text \<open>The pass over the chain merges adjacent free blocks; no header changes its state.\<close>

definition coalesced :: "u64 \<Rightarrow> (u64 \<Rightarrow> heap_block) \<Rightarrow> u64 \<Rightarrow> block list \<Rightarrow> u64 \<Rightarrow> (u64 \<Rightarrow> heap_block) \<Rightarrow> bool" where
  "coalesced p h a bl e h' \<longleftrightarrow> heap_coalesce p h = Some h' \<and> seg h' p a bl 0 e \<and>
    (\<forall>x. hb_free (h' x) = hb_free (h x) \<and> hb_magic (h' x) = hb_magic (h x)) \<and> (\<forall>x < a. h' x = h x)"

lemma heap_coalesce_skip:
  assumes seg: "seg h p a (b # bl) 0 e" and apart: "\<not> (snd b \<and> bl \<noteq> [] \<and> snd (hd bl))"
    and rest: "bl \<noteq> [] \<Longrightarrow> \<exists>h'. coalesced (hb_next (h a)) h (a + 24 + fst b) (merge bl) e h'"
  shows "\<exists>h'. coalesced p h a (b # merge bl) e h'"
proof (cases bl)
  case Nil
  then show ?thesis
    using seg by (auto simp: coalesced_def heap_coalesce.simps [of a h])
next
  case (Cons c cs)
  obtain h' where h': "coalesced (hb_next (h a)) h (a + 24 + fst b) (merge bl) e h'"
    using rest Cons by auto
  have "a < a + 24 + fst b"
    using seg unat_block_end [of a "fst b"] by (simp add: word_less_nat_alt)
  then have below: "x < a \<Longrightarrow> x < a + 24 + fst b" and a: "h' a = h a" for x
    using h' by (auto simp: coalesced_def)
  have "heap_coalesce p h = heap_coalesce (hb_next (h a)) h"
    using seg Cons apart by (auto simp: heap_coalesce.simps [of a h] HEAP_HEADER_def)
  then show ?thesis
    using h' seg a below by (intro exI [of _ h']) (simp add: coalesced_def)
qed

lemma heap_coalesce_spec:
  assumes "seg h p a bl 0 e"
  shows "\<exists>h'. coalesced p h a (merge bl) e h'"
  using assms
proof (induction bl arbitrary: h p a rule: merge.induct [case_names both_free used_head one_block used_next empty])
  case (both_free n k bl)
  let ?n = "hb_next (h a)"
  let ?h = "h(a := (h a)\<lparr>hb_size := hb_size (h a) + (HEAP_HEADER + hb_size (h ?n)), hb_next := hb_next (h ?n)\<rparr>)"
  have ne: "a < ?n"
    using both_free(2) unat_block_end [of a n] by (auto simp: word_less_nat_alt)
  have tail: "seg h (hb_next (h ?n)) (a + 24 + n + 24 + k) bl 0 e"
    using both_free(2) by simp
  have len: "unat (n + (24 + k)) = unat n + (24 + unat k)" "unat a + 24 + unat (n + (24 + k)) < 2 ^ 64"
    using both_free(2) unat_block_end [of a n] by (auto simp: unat_word_ariths)
  have "a < a + 24 + n + 24 + k"
    using both_free(2) unat_block_end [of a n] unat_block_end [of "a + 24 + n" k] by (simp add: word_less_nat_alt)
  then have "seg ?h (hb_next (h ?n)) (a + 24 + (n + (24 + k))) bl 0 e"
    using seg_frame_below [OF tail] by (simp add: ac_simps)
  then have "seg ?h p a ((n + (24 + k), True) # bl) 0 e"
    using both_free(2) len ne by (auto simp: HEAP_HEADER_def)
  from both_free(1) [OF this] obtain h' where h': "coalesced p ?h a (merge ((n + (24 + k), True) # bl)) e h'"
    by blast
  have "heap_coalesce p h = heap_coalesce p ?h"
    using both_free(2) ne by (auto simp: heap_coalesce.simps [of a h] HEAP_HEADER_def)
  then show ?case
    using h' by (intro exI [of _ h']) (auto simp: coalesced_def fun_upd_def split: if_splits)
next
  case (used_head n bl)
  then show ?case
    using heap_coalesce_skip [OF used_head.prems] by simp
next
  case (one_block n)
  then show ?case
    using heap_coalesce_skip [OF one_block.prems] by simp
next
  case (used_next n v bl)
  then show ?case
    using heap_coalesce_skip [OF used_next.prems] by simp
next
  case empty
  then show ?case
    by (auto simp: coalesced_def heap_coalesce.simps [of 0 h])
qed

section \<open>Allocations\<close>

text \<open>The allocations of a chain that starts at \<open>a\<close>: the payload addresses and their sizes.\<close>

fun live :: "u64 \<Rightarrow> block list \<Rightarrow> u64 \<Rightarrow> u64 option" where
  "live a [] = Map.empty"
| "live a (b # bl) =
     (if snd b then live (a + 24 + fst b) bl else (live (a + 24 + fst b) bl)(a + 24 \<mapsto> fst b))"

definition used :: "block list \<Rightarrow> block list" where
  "used bl = filter (\<lambda>b. \<not> snd b) bl"

text \<open>
  The invariant: the headers describe blocks that tile the mapped range, and the counters are
  those of the blocks in use.
\<close>

definition heap_inv :: "heap \<Rightarrow> block list \<Rightarrow> bool" where
  "heap_inv s bl \<longleftrightarrow>
     seg (hb_at s) (first_block s) HEAP_BASE bl 0 (HEAP_BASE + mapped_bytes s) \<and>
     allocated_bytes s = sum_list (map fst (used bl)) \<and> allocation_count s = of_nat (length (used bl)) \<and>
     0 \<notin> fst ` set (used bl)"

lemma used_simps [simp]:
  "used [] = []" "used (b # bl) = (if snd b then used bl else b # used bl)"
  "used (xs @ ys) = used xs @ used ys"
  by (simp_all add: used_def)

lemma live_range:
  assumes "seg h p a bl q e" "live a bl x = Some n"
  shows "unat a + 24 \<le> unat x \<and> unat x + unat n \<le> unat e"
  using assms
proof (induction bl arbitrary: p a)
  case (Cons b bl)
  obtain k f where b: "b = (k, f)" by (cases b)
  have e: "unat (a + 24 + k) = unat a + 24 + unat k" "seg h (hb_next (h a)) (a + 24 + k) bl q e"
    using Cons.prems(1) unat_block_end [of a k] by (auto simp: b)
  have "unat (a + 24) = unat a + 24"
    using Cons.prems(1) by (simp add: b unat_word_ariths)
  moreover have "unat (a + 24 + k) \<le> unat e"
    using seg_mono [OF e(2)] by simp
  ultimately show ?case
    using Cons.IH [OF e(2)] Cons.prems(2) e(1) by (auto simp: b split: if_splits)
qed simp

lemmas live_ge = live_range [THEN conjunct1]

lemma live_append:
  assumes "seg h p a xs q e"
  shows "live a (xs @ ys) = live e ys ++ live a xs"
  using assms
proof (induction xs arbitrary: p a)
  case (Cons b xs)
  then show ?case by (cases b) auto
qed simp


lemma live_split:
  assumes "seg h p a bl 0 e" "live a bl x = Some n"
  obtains xs ys y where "bl = xs @ (n, False) # ys" "x = y + 24" "seg h p a xs y y" "y \<noteq> 0"
  using assms
proof (induction bl arbitrary: p a thesis)
  case (Cons b bl)
  obtain k f where b: "b = (k, f)" by (cases b)
  have s: "seg h (hb_next (h a)) (a + 24 + k) bl 0 e"
    using Cons.prems(2) by (simp add: b)
  show ?case
  proof (cases "\<not> f \<and> x = a + 24")
    case True
    then show ?thesis
      using Cons.prems by (intro Cons.prems(1) [of "[]" bl a]) (auto simp: b)
  next
    case False
    then have l: "live (a + 24 + k) bl x = Some n"
      using Cons.prems(3) by (auto simp: b split: if_splits)
    show ?thesis
    proof (rule Cons.IH [OF _ s l], goal_cases)
      case (1 xs ys y)
      then show ?case
        using Cons.prems(2) by (intro Cons.prems(1) [of "b # xs" ys y]) (auto simp: b)
    qed
  qed
qed simp

lemma merge_live: "live a (merge bl) = live a bl"
proof (induction bl arbitrary: a rule: merge.induct [case_names both_free used_head one_block used_next empty])
  case (both_free n k bl)
  have "a + 24 + (n + (24 + k)) = a + 24 + n + 24 + k"
    by simp
  then show ?case
    using both_free [of a] by (simp add: algebra_simps)
next
  case (used_next b v bl)
  have "merge (b # (v, False) # bl) = b # merge ((v, False) # bl)"
    by simp
  then show ?case
    by (simp only: live.simps(2) used_next)
qed simp_all

lemma merge_used: "used (merge bl) = used bl"
  by (induction bl rule: merge.induct) simp_all

lemma seg_functional:
  "seg h p a bl q e \<Longrightarrow> seg h p a bl q' e' \<Longrightarrow> q = q' \<and> e = e'"
  by (induction bl arbitrary: p a) auto

lemma seg_appendI: "seg h p a xs p' a' \<Longrightarrow> seg h p' a' ys q e \<Longrightarrow> seg h p a (xs @ ys) q e"
  by (auto simp: seg_append)

section \<open>Taking a block\<close>





section \<open>Growing\<close>

definition grow_blocks :: "block list \<Rightarrow> u64 \<Rightarrow> block list" where
  "grow_blocks bl g =
     (if bl \<noteq> [] \<and> snd (last bl) then butlast bl @ [(fst (last bl) + g, True)] else bl @ [(g - 24, True)])"

lemma used_grow_blocks: "used (grow_blocks bl g) = used bl"
  by (cases bl rule: rev_cases) (simp_all add: grow_blocks_def)

definition growth_bytes :: "u64 \<Rightarrow> u64" where
  "growth_bytes minimum_payload = growth_page_count minimum_payload * PAGE_SIZE"


lemma grow_heap_spec:
  assumes inv: "heap_inv s bl" and room: "unat (mapped_bytes s) + unat (growth_bytes sz) < 2 ^ 47"
    and g: "65536 \<le> unat (growth_bytes sz)"
  obtains ok s' where "grow_heap sz s = Some (ok, s')" "heap_inv s' (if ok then grow_blocks bl (growth_bytes sz) else bl)"
    "mapped_bytes s' = (if ok then mapped_bytes s + growth_bytes sz else mapped_bytes s)"
proof -
  let ?h = "hb_at s" and ?g = "growth_bytes sz"
  define e where "e = HEAP_BASE + mapped_bytes s"
  obtain ok vm where m: "map_growth e 0 (unat (growth_page_count sz)) (heap_vm s) = (ok, vm)"
    by fastforce
  have e: "unat e = unat HEAP_BASE + unat (mapped_bytes s)" "e \<noteq> 0"
    using room by (auto simp: e_def HEAP_BASE_def unat_word_ariths word_unat_eq_iff)
  have e': "unat (e + ?g) = unat e + unat ?g" "unat e + unat ?g < 2 ^ 64"
    using room e(1) by (auto simp: HEAP_BASE_def unat_word_ariths)
  define h0 where "h0 = ?h(e := \<lparr>hb_size = ?g - 24, hb_next = 0, hb_magic = HEAP_MAGIC, hb_free = True\<rparr>)"
  have sg: "seg h0 (first_block s) HEAP_BASE bl 0 e"
    unfolding h0_def using inv by (intro seg_frame_above) (simp_all add: heap_inv_def e_def)
  have g24: "unat (?g - 24) = unat ?g - 24"
    using g by (simp add: unat_sub word_le_nat_alt)
  have new: "seg h0 e e [(?g - 24, True)] 0 (e + ?g)"
    using e e' g g24 by (simp add: h0_def)
  show ?thesis
  proof (cases ok)
    case False
    then show ?thesis
      using that [of False "s\<lparr>heap_vm := vm\<rparr>"] m inv by (simp add: grow_heap_def e_def heap_inv_def Let_def)
  next
    case True
    show ?thesis
    proof (cases bl rule: rev_cases)
      case Nil
      then have f: "first_block s = 0" "e = HEAP_BASE"
        using sg by simp_all
      then have gr: "grow_heap sz s = Some (True, s\<lparr>heap_vm := vm, hb_at := h0, first_block := e,
          mapped_bytes := mapped_bytes s + ?g\<rparr>)"
        using m True by (simp add: grow_heap_def growth_bytes_def [symmetric] e_def [symmetric] h0_def HEAP_HEADER_def last_block_def Let_def)
      then show ?thesis
        using that [OF gr] new inv Nil f by (simp add: heap_inv_def grow_blocks_def e_def add.assoc)
    next
      case (snoc bs b)
      obtain x where x: "seg h0 (first_block s) HEAP_BASE bs x x" "hb_next (h0 x) = 0" "x + 24 + fst b = e" "x \<noteq> 0"
        "x < e" "unat x + 24 + unat (fst b) < 2 ^ 64" "hb_magic (h0 x) = HEAP_MAGIC" "hb_size (h0 x) = fst b"
        "hb_free (h0 x) = snd b"
        using seg_snocD [OF sg [unfolded snoc]] by metis
      have "first_block s \<noteq> 0"
        using sg snoc by (cases bs) auto
      then have last: "last_block (s\<lparr>heap_vm := vm, hb_at := h0\<rparr>) = Some x"
        using last_block_spec [OF sg [unfolded snoc] x(1)] by (simp add: last_block_def)
      define h1 where "h1 = (if snd b then h0(x := (h0 x)\<lparr>hb_size := fst b + ?g\<rparr>) else h0(x := (h0 x)\<lparr>hb_next := e\<rparr>))"
      have gr: "grow_heap sz s = Some (True, s\<lparr>heap_vm := vm, hb_at := h1, mapped_bytes := mapped_bytes s + ?g\<rparr>)"
        using m True last x(3,4,8,9)
        by (simp add: grow_heap_def growth_bytes_def [symmetric] e_def [symmetric] h0_def [symmetric] h1_def
            HEAP_HEADER_def Let_def)
      have "seg h1 (first_block s) HEAP_BASE (grow_blocks bl ?g) 0 (e + ?g)"
      proof -
        have bs: "seg h1 (first_block s) HEAP_BASE bs x x"
          unfolding h1_def using x(1) by (auto intro: seg_frame_above)
        have xe: "unat e = unat x + 24 + unat (fst b)"
          unfolding x(3) [symmetric] using x(6) by (rule unat_block_end)
        show ?thesis
        proof (cases "snd b")
          case True
          have "unat (fst b + ?g) = unat (fst b) + unat ?g"
            using e'(2) xe by (simp add: unat_word_ariths)
          then have "seg h1 x x [(fst b + ?g, True)] 0 (e + ?g)"
            using True x(2,4,7,9) e'(2) xe by (simp add: h1_def x(3) [symmetric])
          with bs show ?thesis
            using True snoc by (simp add: grow_blocks_def seg_appendI)
        next
          case False
          have "seg h1 e e [(?g - 24, True)] 0 (e + ?g)"
            using new False x(5) by (auto simp: h1_def)
          moreover have "seg h1 x x [b] e e"
            using False x by (simp add: h1_def)
          ultimately have "seg h1 (first_block s) HEAP_BASE (bs @ [b] @ [(?g - 24, True)]) 0 (e + ?g)"
            using bs by (intro seg_appendI)
          then show ?thesis
            using False snoc by (simp add: grow_blocks_def)
        qed
      qed
      then show ?thesis
        using that [OF gr] inv by (simp add: heap_inv_def used_grow_blocks e_def add.assoc)
    qed
  qed
qed





section \<open>Correctness\<close>




definition heap_demo :: heap where
  "heap_demo = \<lparr>hb_at = (\<lambda>_. \<lparr>hb_size = 0, hb_next = 0, hb_magic = 0, hb_free = False\<rparr>)
      (HEAP_BASE := \<lparr>hb_size = 32, hb_next = HEAP_BASE + 56, hb_magic = HEAP_MAGIC, hb_free = False\<rparr>,
       HEAP_BASE + 56 := \<lparr>hb_size = 64, hb_next = HEAP_BASE + 144, hb_magic = HEAP_MAGIC, hb_free = False\<rparr>,
       HEAP_BASE + 144 := \<lparr>hb_size = 65368, hb_next = 0, hb_magic = HEAP_MAGIC, hb_free = True\<rparr>),
     first_block = HEAP_BASE, mapped_bytes = 65536, allocated_bytes = 96, allocation_count = 2,
     heap_locked = True, heap_vm = vmm_demo\<rparr>"

lemma heap_demo_inv: "heap_inv heap_demo [(32, False), (64, False), (65368, True)]"
  by (simp add: heap_inv_def heap_demo_def HEAP_BASE_def)

lemma heap_demo_live:
  "live HEAP_BASE [(32, False), (64, False), (65368, True)] = [HEAP_BASE + 24 \<mapsto> 32, HEAP_BASE + 80 \<mapsto> 64]"
  by (simp add: fun_upd_twist HEAP_BASE_def)





text \<open>
  C7. Freeing a live allocation ends, succeeds, and removes exactly that allocation; adjacent free
  blocks have all been merged; and freeing the same pointer again fails and changes nothing.
\<close>

theorem heap_free_correct:
  assumes "heap_inv s bl" and "live HEAP_BASE bl p = Some n"
  shows "\<exists>s' bl'. xscore_heap_free p s = Some (True, s') \<and> heap_inv s' bl' \<and>
    live HEAP_BASE bl' = (live HEAP_BASE bl)(p := None) \<and> no_adjacent_free bl' \<and>
    xscore_heap_free p s' = Some (False, s')"
proof -
  let ?h = "hb_at s" and ?e = "HEAP_BASE + mapped_bytes s"
  have sg: "seg ?h (first_block s) HEAP_BASE bl 0 ?e"
    using assms(1) by (simp add: heap_inv_def)
  obtain xs ys y where bl: "bl = xs @ (n, False) # ys" and p: "p = y + 24"
    and x: "seg ?h (first_block s) HEAP_BASE xs y y" and "y \<noteq> 0"
    by (rule live_split [OF sg assms(2)])
  have rest: "seg ?h y y ((n, False) # ys) 0 ?e"
    using sg seg_functional [OF _ x] by (fastforce simp: bl seg_append)
  then have hy: "hb_magic (?h y) = HEAP_MAGIC" "\<not> hb_free (?h y)" "hb_size (?h y) = n"
    and small: "unat y + 24 + unat n < 2 ^ 64" and tl: "seg ?h (hb_next (?h y)) (y + 24 + n) ys 0 ?e"
    by auto
  define h0 where "h0 = ?h(y := (?h y)\<lparr>hb_free := True\<rparr>)"
  have above: "y < y + 24 + n"
    using unat_block_end [OF small] by (simp add: word_less_nat_alt)
  have "seg h0 (first_block s) HEAP_BASE (xs @ (n, True) # ys) 0 ?e"
  proof (rule seg_appendI)
    show "seg h0 (first_block s) HEAP_BASE xs y y"
      unfolding h0_def using x by (intro seg_frame_above) simp_all
    have "seg h0 (hb_next (?h y)) (y + 24 + n) ys 0 ?e"
      unfolding h0_def using tl above by (intro seg_frame_below)
    then show "seg h0 y y ((n, True) # ys) 0 ?e"
      using rest by (simp add: h0_def)
  qed
  then obtain h' where h': "coalesced (first_block s) h0 HEAP_BASE (merge (xs @ (n, True) # ys)) ?e h'"
    using heap_coalesce_spec by blast
  define s' where "s' = s\<lparr>hb_at := h', allocated_bytes := allocated_bytes s - n, allocation_count := allocation_count s - 1\<rparr>"
  have nz: "n \<noteq> 0"
    using assms(1) by (auto simp: heap_inv_def bl)
  have range: "HEAP_BASE + HEAP_HEADER \<le> p" "p < ?e" "p \<noteq> 0"
    using live_range [OF sg assms(2)] nz unat_gt_0 [of n]
    by (auto simp: HEAP_HEADER_def HEAP_BASE_def word_less_nat_alt word_le_nat_alt)
  have h0y: "hb_size (h0 y) = n"
    using hy by (simp add: h0_def)
  have free: "xscore_heap_free p s = Some (True, s')"
    using range hy h' h0y
    by (simp add: xscore_heap_free_def p HEAP_HEADER_def h0_def [symmetric] s'_def coalesced_def Let_def not_le not_less)
  have inv': "heap_inv s' (merge (xs @ (n, True) # ys))"
    using assms(1) h' by (auto simp: heap_inv_def s'_def coalesced_def merge_used bl)
  have "live HEAP_BASE xs p = None"
    using live_range [OF x, of p] unat_block_end [OF small] small by (cases "live HEAP_BASE xs p") (auto simp: p unat_word_ariths)
  moreover have "live (y + 24 + n) ys p = None"
    using live_ge [OF tl, of p] unat_block_end [OF small] small
    by (cases "live (y + 24 + n) ys p") (auto simp: p unat_word_ariths)
  ultimately have "live HEAP_BASE (merge (xs @ (n, True) # ys)) = (live HEAP_BASE bl)(p := None)"
    unfolding merge_live bl live_append [OF x] by (auto simp: p map_add_def fun_eq_iff split: option.split)
  moreover have "xscore_heap_free p s' = Some (False, s')"
    using h' by (simp add: xscore_heap_free_def p HEAP_HEADER_def s'_def coalesced_def h0_def Let_def)
  ultimately show ?thesis
    using free inv' merge_no_adjacent by blast
qed

theorem heap_free_correct_witness:
  "\<exists>s' bl'. xscore_heap_free (HEAP_BASE + 80) heap_demo = Some (True, s') \<and>
    live HEAP_BASE bl' = [HEAP_BASE + 24 \<mapsto> 32] \<and> heap_inv s' bl' \<and>
    xscore_heap_free (HEAP_BASE + 80) s' = Some (False, s')"
proof -
  have "live HEAP_BASE [(32, False), (64, False), (65368, True)] (HEAP_BASE + 80) = Some 64"
    unfolding heap_demo_live by simp
  from heap_free_correct [OF heap_demo_inv this] show ?thesis
    unfolding heap_demo_live by (auto simp: fun_upd_twist)
qed

text \<open>
  Initialisation establishes the invariant: it ends, and if the pages could be mapped the
  heap is one free block of 1 MiB less its header; otherwise it is empty.
\<close>

lemma heap_initialize_correct:
  "\<exists>ok s'. xscore_heap_initialize s = Some (ok, s') \<and> heap_inv s' (if ok then [(0xfffe8, True)] else [])"
proof -
  let ?s = "s\<lparr>heap_locked := True, first_block := 0, mapped_bytes := 0, allocated_bytes := 0, allocation_count := 0\<rparr>"
  have n: "HEAP_INITIAL_PAGES * PAGE_SIZE - HEAP_HEADER = 0xfffe8"
    by (simp add: HEAP_INITIAL_PAGES_def PAGE_SIZE_def HEAP_HEADER_def)
  have g: "growth_bytes (0xfffe8) = 0x100000"
    by (simp add: growth_bytes_def growth_page_count_def HEAP_HEADER_def PAGE_SIZE_def HEAP_GROWTH_PAGES_def)
  have "heap_inv ?s []"
    by (simp add: heap_inv_def)
  then obtain ok s' where "grow_heap (0xfffe8) ?s = Some (ok, s')"
    "heap_inv s' (if ok then grow_blocks [] (growth_bytes (0xfffe8)) else [])"
    by (rule grow_heap_spec [where sz = "0xfffe8"]) (simp_all add: g)
  then show ?thesis
    unfolding xscore_heap_initialize_def n g by (auto simp: grow_blocks_def)
qed

end
