(* ===== verification/Page_Cache.thy ===== *)
theory Page_Cache
  imports Physical_Refs
begin

text \<open>
  The page cache, \<^verbatim>\<open>xscore/kernel/page_cache.c\<close>: a table of 2048 entries that remembers which
  physical page holds which page of an executable image. An entry owns one reference to its page,
  and the operations that drop an entry release it through the page allocator, whose state is a
  field of the cache's. The contract of a cache, a store that may forget but never lies, is the
  locale at the end.
\<close>

section \<open>The code\<close>

definition PAGE_CACHE_CAPACITY :: nat where
  "PAGE_CACHE_CAPACITY = 2048"

record page_cache_entry =
  pc_image :: u64
  pc_offset :: u64
  pc_physical :: u64

record page_cache =
  cache_entries :: "nat \<Rightarrow> page_cache_entry"
  cache_entry_count :: u32
  cache_hits :: u32
  cache_misses :: u32
  pc_pmm :: pmm

definition empty_entry :: page_cache_entry where
  "empty_entry = \<lparr>pc_image = 0, pc_offset = 0, pc_physical = 0\<rparr>"

definition xscore_page_cache_initialize :: "page_cache \<Rightarrow> page_cache" where
  "xscore_page_cache_initialize s =
     s\<lparr>cache_entries := fold (\<lambda>i e. e(i := empty_entry)) [0..<PAGE_CACHE_CAPACITY] (cache_entries s),
       cache_entry_count := 0, cache_hits := 0, cache_misses := 0\<rparr>"

definition entry_is :: "u64 \<Rightarrow> u64 \<Rightarrow> page_cache_entry \<Rightarrow> bool" where
  "entry_is img offset e \<longleftrightarrow> pc_image e = img \<and> pc_offset e = offset"

definition xscore_page_cache_lookup :: "u64 \<Rightarrow> u64 \<Rightarrow> page_cache \<Rightarrow> u64 \<times> page_cache" where
  "xscore_page_cache_lookup img offset s =
     (if img = 0 then (0, s)
      else
        case find_from (\<lambda>i. entry_is img offset (cache_entries s i) \<and> pc_physical (cache_entries s i) \<noteq> 0)
               0 PAGE_CACHE_CAPACITY of
          Some i \<Rightarrow> (pc_physical (cache_entries s i), s\<lparr>cache_hits := cache_hits s + 1\<rparr>)
        | None \<Rightarrow> (0, s\<lparr>cache_misses := cache_misses s + 1\<rparr>))"

definition drop_page :: "u64 \<Rightarrow> page_cache \<Rightarrow> page_cache" where
  "drop_page physical s = s\<lparr>pc_pmm := snd (xscore_pmm_refcount_dec physical (pc_pmm s))\<rparr>"

text \<open>\<^verbatim>\<open>for (i = 1; i < PAGE_CACHE_CAPACITY; ++i) cache_entries[i - 1] = cache_entries[i];\<close>\<close>

definition shift_down :: "(nat \<Rightarrow> page_cache_entry) \<Rightarrow> nat \<Rightarrow> page_cache_entry" where
  "shift_down e = fold (\<lambda>i e. e(i - 1 := e i)) [1..<PAGE_CACHE_CAPACITY] e"

definition xscore_page_cache_insert :: "u64 \<Rightarrow> u64 \<Rightarrow> u64 \<Rightarrow> page_cache \<Rightarrow> bool \<times> page_cache" where
  "xscore_page_cache_insert img offset physical_address s =
     (if img = 0 \<or> physical_address = 0 then (False, s)
      else
        let e = cache_entries s;
            new_entry = \<lparr>pc_image = img, pc_offset = offset, pc_physical = physical_address\<rparr> in
        case find_from (\<lambda>i. entry_is img offset (e i)) 0 PAGE_CACHE_CAPACITY of
          Some i \<Rightarrow>
            if pc_physical (e i) \<noteq> physical_address then
              let s = drop_page (pc_physical (e i)) s
              in (True, s\<lparr>cache_entries := e(i := (e i)\<lparr>pc_physical := physical_address\<rparr>)\<rparr>)
            else (True, s)
        | None \<Rightarrow>
            (case find_from (\<lambda>i. pc_physical (e i) = 0) 0 PAGE_CACHE_CAPACITY of
               Some i \<Rightarrow>
                 (True, s\<lparr>cache_entries := e(i := new_entry), cache_entry_count := cache_entry_count s + 1\<rparr>)
             | None \<Rightarrow>
                 let s = (if pc_physical (e 0) \<noteq> 0 then drop_page (pc_physical (e 0)) s else s);
                     e = shift_down e
                 in (True, s\<lparr>cache_entries := e(PAGE_CACHE_CAPACITY - 1 := new_entry)\<rparr>)))"

definition xscore_page_cache_evict :: "u64 \<Rightarrow> page_cache \<Rightarrow> page_cache" where
  "xscore_page_cache_evict physical_address s =
     (if physical_address = 0 then s
      else
        let e = cache_entries s in
        case find_from (\<lambda>i. pc_physical (e i) = physical_address) 0 PAGE_CACHE_CAPACITY of
          None \<Rightarrow> s
        | Some i \<Rightarrow>
            let phys = pc_physical (e i);
                s = s\<lparr>cache_entries := e(i := empty_entry)\<rparr>;
                s = (if cache_entry_count s > 0 then s\<lparr>cache_entry_count := cache_entry_count s - 1\<rparr> else s)
            in drop_page phys s)"

definition clear_entry :: "nat \<Rightarrow> page_cache \<Rightarrow> page_cache" where
  "clear_entry i s =
     (if pc_physical (cache_entries s i) \<noteq> 0 then
        let phys = pc_physical (cache_entries s i)
        in drop_page phys (s\<lparr>cache_entries := (cache_entries s)(i := empty_entry)\<rparr>)
      else s)"

definition xscore_page_cache_clear :: "page_cache \<Rightarrow> page_cache" where
  "xscore_page_cache_clear s =
     (let s = fold clear_entry [0..<PAGE_CACHE_CAPACITY] s in s\<lparr>cache_entry_count := 0\<rparr>)"

definition xscore_page_cache_stats :: "page_cache \<Rightarrow> u32 \<times> u32 \<times> u32" where
  "xscore_page_cache_stats s = (cache_entry_count s, cache_hits s, cache_misses s)"

section \<open>The cache as a map\<close>

definition occupied :: "page_cache \<Rightarrow> nat set" where
  "occupied s = {i. i < PAGE_CACHE_CAPACITY \<and> pc_physical (cache_entries s i) \<noteq> 0}"

definition entry_key :: "page_cache_entry \<Rightarrow> u64 \<times> u64" where
  "entry_key e = (pc_image e, pc_offset e)"

text \<open>
  The invariant: an entry has an image exactly if it has a page, no two entries are for the same
  page of an image, and the counter counts the entries in use.
\<close>

definition pc_inv :: "page_cache \<Rightarrow> bool" where
  "pc_inv s \<longleftrightarrow>
     (\<forall>i < PAGE_CACHE_CAPACITY. pc_image (cache_entries s i) = 0 \<longleftrightarrow> pc_physical (cache_entries s i) = 0) \<and>
     inj_on (\<lambda>i. entry_key (cache_entries s i)) (occupied s) \<and>
     unat (cache_entry_count s) = card (occupied s)"

definition pc_get :: "page_cache \<Rightarrow> u64 \<times> u64 \<Rightarrow> u64 option" where
  "pc_get s k =
     (let (r, _) = xscore_page_cache_lookup (fst k) (snd k) s in if r = 0 then None else Some r)"

lemma pc_get_iff:
  assumes "pc_inv s"
  shows "pc_get s k = Some v \<longleftrightarrow> (\<exists>i \<in> occupied s. entry_key (cache_entries s i) = k \<and> pc_physical (cache_entries s i) = v)"
proof (cases "find_from (\<lambda>i. entry_is (fst k) (snd k) (cache_entries s i) \<and> pc_physical (cache_entries s i) \<noteq> 0)
    0 PAGE_CACHE_CAPACITY")
  case None
  then have "\<not> (\<exists>i \<in> occupied s. entry_key (cache_entries s i) = k)"
    by (auto simp: find_from_None occupied_def entry_key_def entry_is_def)
  then show ?thesis
    using None by (auto simp: pc_get_def xscore_page_cache_lookup_def)
next
  case (Some i)
  then have i: "i \<in> occupied s" "entry_key (cache_entries s i) = k"
    by (auto simp: find_from_Some occupied_def entry_key_def entry_is_def)
  then have "fst k \<noteq> 0" "pc_physical (cache_entries s i) \<noteq> 0"
    using assms by (auto simp: pc_inv_def occupied_def entry_key_def)
  then have "pc_get s k = Some (pc_physical (cache_entries s i))"
    using Some by (simp add: pc_get_def xscore_page_cache_lookup_def)
  moreover have "j = i" if "j \<in> occupied s" "entry_key (cache_entries s j) = k" for j
    using assms i that by (auto simp: pc_inv_def inj_on_def)
  ultimately show ?thesis
    using i by (metis option.inject)
qed

lemma pc_get_None:
  assumes "pc_inv s"
  shows "pc_get s k = None \<longleftrightarrow> (\<forall>i \<in> occupied s. entry_key (cache_entries s i) \<noteq> k)"
  using pc_get_iff [OF assms, of k] by (cases "pc_get s k") auto

lemma finite_occupied [simp]: "finite (occupied s)"
  by (simp add: occupied_def)

lemma drop_page_simps [simp]:
  "cache_entries (drop_page p s) = cache_entries s" "cache_entry_count (drop_page p s) = cache_entry_count s"
  "occupied (drop_page p s) = occupied s"
  by (simp_all add: drop_page_def occupied_def)

lemma capacity_gt_1: "1 < PAGE_CACHE_CAPACITY"
  by (simp add: PAGE_CACHE_CAPACITY_def)

text \<open>The shift that drops the entry in slot 0.\<close>

lemma shift_entries:
  "fold (\<lambda>i e. e(i - 1 := e i)) [1..<n] e j = (if j + 1 < n then e (j + 1) else e j)"
proof (induction n arbitrary: j)
  case (Suc n)
  then show ?case
    by (cases "n = 0") auto
qed simp

lemma shift_down_at: "shift_down e j = (if j + 1 < PAGE_CACHE_CAPACITY then e (j + 1) else e j)"
  unfolding shift_down_def by (rule shift_entries)

section \<open>Insertion\<close>

definition full :: "page_cache \<Rightarrow> bool" where
  "full s \<longleftrightarrow> occupied s = {0..<PAGE_CACHE_CAPACITY}"

text \<open>The page an insertion releases: the one it replaces, or the one in slot 0 of a full cache.\<close>

definition displaced :: "u64 \<times> u64 \<Rightarrow> u64 \<Rightarrow> page_cache \<Rightarrow> u64 option" where
  "displaced k physical s =
     (case pc_get s k of
        Some old \<Rightarrow> if old \<noteq> physical then Some old else None
      | None \<Rightarrow> if full s then Some (pc_physical (cache_entries s 0)) else None)"

lemma insert_cases:
  assumes inv: "pc_inv s" and args: "img \<noteq> 0" "physical \<noteq> 0" and ins: "xscore_page_cache_insert img offset physical s = (r, s')"
  obtains (update) i where "i \<in> occupied s" "entry_key (cache_entries s i) = (img, offset)"
      "cache_entries s' = (cache_entries s)(i := (cache_entries s i)\<lparr>pc_physical := physical\<rparr>)"
      "cache_entry_count s' = cache_entry_count s"
      "pc_pmm s' = (if pc_physical (cache_entries s i) \<noteq> physical then pc_pmm (drop_page (pc_physical (cache_entries s i)) s) else pc_pmm s)"
      "r"
    | (fresh) i where "i < PAGE_CACHE_CAPACITY" "i \<notin> occupied s" "pc_get s (img, offset) = None"
      "cache_entries s' = (cache_entries s)(i := \<lparr>pc_image = img, pc_offset = offset, pc_physical = physical\<rparr>)"
      "cache_entry_count s' = cache_entry_count s + 1" "pc_pmm s' = pc_pmm s" "r"
    | (shift) "full s" "pc_get s (img, offset) = None"
      "\<And>j. cache_entries s' j = (if j = PAGE_CACHE_CAPACITY - 1 then \<lparr>pc_image = img, pc_offset = offset, pc_physical = physical\<rparr>
         else if j < PAGE_CACHE_CAPACITY - 1 then cache_entries s (j + 1) else cache_entries s j)"
      "cache_entry_count s' = cache_entry_count s" "pc_pmm s' = pc_pmm (drop_page (pc_physical (cache_entries s 0)) s)" "r"
proof (cases "find_from (\<lambda>i. entry_is img offset (cache_entries s i)) 0 PAGE_CACHE_CAPACITY")
  case (Some i)
  then have i: "i < PAGE_CACHE_CAPACITY" "entry_is img offset (cache_entries s i)"
    by (simp_all add: find_from_Some)
  then have "i \<in> occupied s" "entry_key (cache_entries s i) = (img, offset)"
    using inv args by (auto simp: pc_inv_def occupied_def entry_is_def entry_key_def)
  then show ?thesis
    using Some ins args by (intro update [of i]) (auto simp: xscore_page_cache_insert_def Let_def split: if_splits)
next
  case none: None
  have miss: "pc_get s (img, offset) = None"
    unfolding pc_get_None [OF inv] using none by (auto simp: find_from_None occupied_def entry_is_def entry_key_def)
  show ?thesis
  proof (cases "find_from (\<lambda>i. pc_physical (cache_entries s i) = 0) 0 PAGE_CACHE_CAPACITY")
    case (Some i)
    then have "s' = s\<lparr>cache_entries := (cache_entries s)(i := \<lparr>pc_image = img, pc_offset = offset, pc_physical = physical\<rparr>),
        cache_entry_count := cache_entry_count s + 1\<rparr>" "r"
      using none ins args by (auto simp: xscore_page_cache_insert_def Let_def)
    moreover have "i < PAGE_CACHE_CAPACITY" "i \<notin> occupied s"
      using Some by (auto simp: find_from_Some occupied_def)
    ultimately show ?thesis
      using miss by (intro fresh [of i]) simp_all
  next
    case None
    then have occ: "full s"
      by (auto simp: find_from_None occupied_def full_def)
    then have "0 \<in> occupied s"
      using capacity_gt_1 by (simp add: full_def)
    then have "pc_physical (cache_entries s 0) \<noteq> 0"
      by (simp add: occupied_def)
    then have "s' = (drop_page (pc_physical (cache_entries s 0)) s)\<lparr>cache_entries :=
        (shift_down (cache_entries s))(PAGE_CACHE_CAPACITY - 1 :=
          \<lparr>pc_image = img, pc_offset = offset, pc_physical = physical\<rparr>)\<rparr>" and "r"
      using none None ins args by (auto simp: xscore_page_cache_insert_def Let_def)
    then show ?thesis
      using occ miss capacity_gt_1 by (intro shift) (auto simp: shift_down_at)
  qed
qed


lemma insert_preserves:
  assumes inv: "pc_inv s" and args: "img \<noteq> 0" "physical \<noteq> 0" and ins: "xscore_page_cache_insert img offset physical s = (r, s')"
  shows "pc_inv s'"
  using inv args ins
proof (cases rule: insert_cases)
  case (update i)
  have "occupied s' = occupied s"
    using update(1,3) args by (auto simp: occupied_def)
  moreover have "entry_key (cache_entries s' j) = entry_key (cache_entries s j)" for j
    using update(3) by (simp add: entry_key_def)
  ultimately show ?thesis
    using inv update args by (auto simp: pc_inv_def occupied_def entry_key_def)
next
  case (fresh i)
  have occ: "occupied s' = insert i (occupied s)"
    using fresh(1,4) args by (auto simp: occupied_def)
  have "inj_on (\<lambda>j. entry_key (cache_entries s j)) (occupied s)"
    using inv by (simp add: pc_inv_def)
  then have "inj_on (\<lambda>j. entry_key (cache_entries s' j)) (insert i (occupied s))"
    using fresh(2,3,4) pc_get_None [OF inv, of "(img, offset)"] by (auto simp: inj_on_def entry_key_def)
  moreover have "card (occupied s) \<le> card {0..<PAGE_CACHE_CAPACITY}"
    by (intro card_mono) (auto simp: occupied_def)
  then have "unat (cache_entry_count s) < 2 ^ LENGTH(32) - 1"
    using inv by (simp add: pc_inv_def PAGE_CACHE_CAPACITY_def)
  then have "unat (cache_entry_count s') = card (insert i (occupied s))"
    using inv fresh(2,5) by (simp add: unat_inc_bounded pc_inv_def)
  ultimately show ?thesis
    using inv fresh args by (auto simp: pc_inv_def occ)
next
  case shift
  have all: "pc_physical (cache_entries s j) \<noteq> 0" if "j < PAGE_CACHE_CAPACITY" for j
  proof -
    have "j \<in> occupied s" using shift(1) that by (simp add: full_def)
    then show ?thesis by (simp add: occupied_def)
  qed
  have occ: "occupied s' = {0..<PAGE_CACHE_CAPACITY}"
    unfolding occupied_def shift(3) using all args by auto
  have occ0: "occupied s = {0..<PAGE_CACHE_CAPACITY}"
    using shift(1) by (simp add: full_def)
  have old: "inj_on (\<lambda>j. entry_key (cache_entries s j)) {0..<PAGE_CACHE_CAPACITY}"
    using inv occ0 by (simp add: pc_inv_def)
  have new: "entry_key (cache_entries s j) \<noteq> (img, offset)" if "j < PAGE_CACHE_CAPACITY" for j
    using shift(2) that occ0 pc_get_None [OF inv, of "(img, offset)"] by simp
  have "inj_on (\<lambda>j. entry_key (cache_entries s' j)) {0..<PAGE_CACHE_CAPACITY}"
  proof (rule inj_onI)
    fix j k assume jk: "j \<in> {0..<PAGE_CACHE_CAPACITY}" "k \<in> {0..<PAGE_CACHE_CAPACITY}"
      "entry_key (cache_entries s' j) = entry_key (cache_entries s' k)"
    show "j = k"
    proof (cases "j < PAGE_CACHE_CAPACITY - 1 \<and> k < PAGE_CACHE_CAPACITY - 1")
      case True
      then have "j + 1 = k + 1"
        using jk(3) shift(3) by (intro inj_onD [OF old]) auto
      then show ?thesis by simp
    next
      case False
      then show ?thesis
        using jk new [of "j + 1"] new [of "k + 1"] unfolding shift(3)
          by (auto simp: entry_key_def less_diff_conv split: if_splits)
    qed
  qed
  moreover have "pc_image (cache_entries s' j) = 0 \<longleftrightarrow> pc_physical (cache_entries s' j) = 0" if "j < PAGE_CACHE_CAPACITY" for j
    using inv shift(3) args that by (auto simp: pc_inv_def)
  ultimately show ?thesis
    using inv occ occ0 shift(4) by (simp add: pc_inv_def)
qed

lemma pc_get_eqI:
  assumes "pc_inv s" "pc_inv s'"
    and "\<And>v. (\<exists>i \<in> occupied s'. entry_key (cache_entries s' i) = k \<and> pc_physical (cache_entries s' i) = v) \<longleftrightarrow>
      (\<exists>i \<in> occupied s. entry_key (cache_entries s i) = k \<and> pc_physical (cache_entries s i) = v)"
  shows "pc_get s' k = pc_get s k"
  using pc_get_iff [OF assms(1), of k] pc_get_iff [OF assms(2), of k] assms(3)
  by (metis not_None_eq)

lemma insert_get:
  assumes inv: "pc_inv s" and args: "img \<noteq> 0" "physical \<noteq> 0" and ins: "xscore_page_cache_insert img offset physical s = (r, s')"
  shows "pc_get s' (img, offset) = Some physical"
    and "k \<noteq> (img, offset) \<Longrightarrow> pc_get s' k =
      (if pc_get s (img, offset) = None \<and> full s \<and> k = entry_key (cache_entries s 0) then None else pc_get s k)"
proof -
  have inv': "pc_inv s'"
    by (rule insert_preserves [OF assms])
  show "pc_get s' (img, offset) = Some physical"
    using assms
  proof (cases rule: insert_cases)
    case (update i)
    then have "i \<in> occupied s'" using args by (simp add: occupied_def)
    then show ?thesis
      unfolding pc_get_iff [OF inv'] using update by (intro bexI [of _ i]) (simp_all add: entry_key_def)
  next
    case (fresh i)
    then have "i \<in> occupied s'" using args by (simp add: occupied_def)
    then show ?thesis
      unfolding pc_get_iff [OF inv'] using fresh by (intro bexI [of _ i]) (simp_all add: entry_key_def)
  next
    case shift
    then have "PAGE_CACHE_CAPACITY - 1 \<in> occupied s'"
      using args capacity_gt_1 by (simp add: occupied_def)
    then show ?thesis
      unfolding pc_get_iff [OF inv'] using shift
      by (intro bexI [of _ "PAGE_CACHE_CAPACITY - 1"]) (simp_all add: entry_key_def)
  qed
  show "pc_get s' k = (if pc_get s (img, offset) = None \<and> full s \<and> k = entry_key (cache_entries s 0) then None
      else pc_get s k)" if k: "k \<noteq> (img, offset)"
    using assms
  proof (cases rule: insert_cases)
    case (update i)
    have "pc_get s (img, offset) \<noteq> None"
      unfolding pc_get_None [OF inv] using update by auto
    moreover have "pc_get s' k = pc_get s k"
    proof (rule pc_get_eqI [OF inv inv'])
      have "occupied s' = occupied s"
        using update(1,3) args by (auto simp: occupied_def)
      then show "(\<exists>i \<in> occupied s'. entry_key (cache_entries s' i) = k \<and> pc_physical (cache_entries s' i) = v) \<longleftrightarrow>
          (\<exists>i \<in> occupied s. entry_key (cache_entries s i) = k \<and> pc_physical (cache_entries s i) = v)" for v
        using update(2,3) k by (auto simp: entry_key_def)
    qed
    ultimately show ?thesis by auto
  next
    case (fresh i)
    have "\<not> full s"
      using fresh(1,2) by (auto simp: full_def)
    moreover have "pc_get s' k = pc_get s k"
    proof (rule pc_get_eqI [OF inv inv'])
      have "occupied s' = insert i (occupied s)"
        using fresh(1,4) args by (auto simp: occupied_def)
      then show "(\<exists>i \<in> occupied s'. entry_key (cache_entries s' i) = k \<and> pc_physical (cache_entries s' i) = v) \<longleftrightarrow>
          (\<exists>i \<in> occupied s. entry_key (cache_entries s i) = k \<and> pc_physical (cache_entries s i) = v)" for v
        using fresh(2,4) k by (auto simp: entry_key_def)
    qed
    ultimately show ?thesis by simp
  next
    case shift
    have occ: "occupied s = {0..<PAGE_CACHE_CAPACITY}"
      using shift(1) by (simp add: full_def)
    have occ': "occupied s' = {0..<PAGE_CACHE_CAPACITY}"
    proof -
      have "pc_physical (cache_entries s j) \<noteq> 0" if "j < PAGE_CACHE_CAPACITY" for j
        using occ that by (metis (mono_tags, lifting) atLeastLessThan_iff bot_nat_0.extremum mem_Collect_eq occupied_def)
      then show ?thesis
        unfolding occupied_def shift(3) using args by auto
    qed
    have moved: "(\<exists>i \<in> occupied s'. entry_key (cache_entries s' i) = k \<and> pc_physical (cache_entries s' i) = v) \<longleftrightarrow>
        (\<exists>j \<in> {1..<PAGE_CACHE_CAPACITY}. entry_key (cache_entries s j) = k \<and> pc_physical (cache_entries s j) = v)" for v
    proof
      assume "\<exists>i \<in> occupied s'. entry_key (cache_entries s' i) = k \<and> pc_physical (cache_entries s' i) = v"
      then obtain i where i: "i < PAGE_CACHE_CAPACITY" "entry_key (cache_entries s' i) = k" "pc_physical (cache_entries s' i) = v"
        using occ' by auto
      then have "i < PAGE_CACHE_CAPACITY - 1"
        using k by (auto simp: shift(3) entry_key_def split: if_splits)
      then show "\<exists>j \<in> {1..<PAGE_CACHE_CAPACITY}. entry_key (cache_entries s j) = k \<and> pc_physical (cache_entries s j) = v"
        using i by (intro bexI [of _ "i + 1"]) (auto simp: shift(3))
    next
      assume "\<exists>j \<in> {1..<PAGE_CACHE_CAPACITY}. entry_key (cache_entries s j) = k \<and> pc_physical (cache_entries s j) = v"
      then obtain j where j: "1 \<le> j" "j < PAGE_CACHE_CAPACITY" "entry_key (cache_entries s j) = k" "pc_physical (cache_entries s j) = v"
        by auto
      then have "cache_entries s' (j - 1) = cache_entries s j"
        by (auto simp: shift(3))
      then show "\<exists>i \<in> occupied s'. entry_key (cache_entries s' i) = k \<and> pc_physical (cache_entries s' i) = v"
        using j occ' by (intro bexI [of _ "j - 1"]) auto
    qed
    have inj: "inj_on (\<lambda>j. entry_key (cache_entries s j)) {0..<PAGE_CACHE_CAPACITY}"
      using inv occ by (simp add: pc_inv_def)
    show ?thesis
    proof (cases "k = entry_key (cache_entries s 0)")
      case True
      have "pc_get s' k \<noteq> Some v" for v
      proof
        assume "pc_get s' k = Some v"
        then obtain j where "1 \<le> j" "j < PAGE_CACHE_CAPACITY" "entry_key (cache_entries s j) = entry_key (cache_entries s 0)"
          using moved [of v] True unfolding pc_get_iff [OF inv'] by auto
        then show False
          using inj_onD [OF inj, of j 0] capacity_gt_1 by simp
      qed
      then show ?thesis
        using True shift(1,2) by (cases "pc_get s' k") auto
    next
      case False
      have "pc_get s' k = pc_get s k"
      proof (rule pc_get_eqI [OF inv inv'])
        have "entry_key (cache_entries s j) = k \<Longrightarrow> j \<noteq> 0" for j
          using False by metis
        then show "(\<exists>i \<in> occupied s'. entry_key (cache_entries s' i) = k \<and> pc_physical (cache_entries s' i) = v) \<longleftrightarrow>
            (\<exists>i \<in> occupied s. entry_key (cache_entries s i) = k \<and> pc_physical (cache_entries s i) = v)" for v
          unfolding moved occ by (metis One_nat_def Suc_leI atLeastLessThan_iff bot_nat_0.not_eq_extremum zero_le)
      qed
      then show ?thesis
        using False by simp
    qed
  qed
qed

section \<open>The contract of a cache\<close>

text \<open>
  A store that may forget: after a put the key has the new value, and every other key keeps its
  value or loses it. What a sequence of puts leaves behind is then never stale.
\<close>

locale forgetful_store =
  fixes get :: "'s \<Rightarrow> 'k \<Rightarrow> 'v option"
    and put :: "'k \<Rightarrow> 'v \<Rightarrow> 's \<Rightarrow> 's"
    and inv :: "'s \<Rightarrow> bool"
    and admissible :: "'k \<Rightarrow> 'v \<Rightarrow> bool"
  assumes put_inv: "inv s \<Longrightarrow> admissible k v \<Longrightarrow> inv (put k v s)"
    and get_put: "inv s \<Longrightarrow> admissible k v \<Longrightarrow> get (put k v s) k = Some v"
    and get_put_other: "inv s \<Longrightarrow> admissible k v \<Longrightarrow> k' \<noteq> k \<Longrightarrow>
      get (put k v s) k' = get s k' \<or> get (put k v s) k' = None"
begin

lemma puts_inv: "inv s \<Longrightarrow> \<forall>(k, v) \<in> set kvs. admissible k v \<Longrightarrow> inv (fold (\<lambda>(k, v). put k v) kvs s)"
  by (induction kvs arbitrary: s) (auto simp: put_inv)

lemma puts_coherent:
  assumes "inv s" "\<forall>(k, v) \<in> set kvs. admissible k v" "get (fold (\<lambda>(k, v). put k v) kvs s) k = Some v"
  shows "map_of (rev kvs) k = Some v \<or> (map_of (rev kvs) k = None \<and> get s k = Some v)"
  using assms
proof (induction kvs rule: rev_induct)
  case (snoc kv kvs)
  obtain k1 v1 where kv: "kv = (k1, v1)" by (cases kv)
  let ?s = "fold (\<lambda>(k, v). put k v) kvs s"
  have inv: "inv ?s" and adm: "admissible k1 v1"
    using snoc.prems puts_inv [of s kvs] by (auto simp: kv)
  show ?case
  proof (cases "k = k1")
    case True
    then show ?thesis
      using snoc.prems(3) get_put [OF inv adm] by (simp add: kv)
  next
    case False
    then have "get ?s k = Some v"
      using snoc.prems(3) get_put_other [OF inv adm False] by (auto simp: kv)
    then show ?thesis
      using snoc.IH snoc.prems False by (auto simp: kv)
  qed
qed simp

end

definition pc_put :: "u64 \<times> u64 \<Rightarrow> u64 \<Rightarrow> page_cache \<Rightarrow> page_cache" where
  "pc_put k physical s = snd (xscore_page_cache_insert (fst k) (snd k) physical s)"

interpretation pages: forgetful_store pc_get pc_put pc_inv "\<lambda>k physical. fst k \<noteq> 0 \<and> physical \<noteq> 0"
proof
  fix s :: page_cache and k :: "u64 \<times> u64" and v :: u64
  assume inv: "pc_inv s" and adm: "fst k \<noteq> 0 \<and> v \<noteq> 0"
  obtain r s' where ins: "xscore_page_cache_insert (fst k) (snd k) v s = (r, s')" by fastforce
  then have s': "pc_put k v s = s'"
    by (simp add: pc_put_def)
  show "pc_inv (pc_put k v s)"
    unfolding s' using insert_preserves [OF inv _ _ ins] adm by simp
  show "pc_get (pc_put k v s) k = Some v"
    unfolding s' using insert_get(1) [OF inv _ _ ins] adm by simp
  show "pc_get (pc_put k v s) k' = pc_get s k' \<or> pc_get (pc_put k v s) k' = None" if "k' \<noteq> k" for k'
    unfolding s' using insert_get(2) [OF inv _ _ ins, of k'] adm that by auto
qed

section \<open>Correctness\<close>

text \<open>
  Inserting a page makes it the one that the lookup finds; every other key keeps its page,
  except that a full cache forgets the key in slot 0; the invariant holds, and exactly the
  displaced page, if there is one, loses one reference.
\<close>

lemma page_cache_insert_correct:
  assumes "pc_inv s" and "img \<noteq> 0" and "physical \<noteq> 0"
    and "xscore_page_cache_insert img offset physical s = (r, s')"
  shows "r \<and> pc_inv s' \<and> pc_get s' (img, offset) = Some physical \<and>
    (\<forall>k. k \<noteq> (img, offset) \<longrightarrow> pc_get s' k =
      (if pc_get s (img, offset) = None \<and> full s \<and> k = entry_key (cache_entries s 0) then None else pc_get s k)) \<and>
    pc_pmm s' = (case displaced (img, offset) physical s of
      None \<Rightarrow> pc_pmm s | Some old \<Rightarrow> snd (xscore_pmm_refcount_dec old (pc_pmm s)))"
proof -
  have "r \<and> pc_pmm s' = (case displaced (img, offset) physical s of
      None \<Rightarrow> pc_pmm s | Some old \<Rightarrow> snd (xscore_pmm_refcount_dec old (pc_pmm s)))"
    using assms
  proof (cases rule: insert_cases)
    case (update i)
    have "pc_get s (img, offset) = Some (pc_physical (cache_entries s i))"
      unfolding pc_get_iff [OF assms(1)] using update(1,2) by auto
    then show ?thesis
      using update(5,6) by (simp add: displaced_def drop_page_def)
  next
    case (fresh i)
    moreover have "\<not> full s"
      using fresh(1,2) by (auto simp: full_def)
    ultimately show ?thesis
      by (simp add: displaced_def)
  next
    case shift
    then show ?thesis
      by (simp add: displaced_def drop_page_def)
  qed
  then show ?thesis
    using insert_preserves [OF assms] insert_get [OF assms] by simp
qed

definition pc_demo :: page_cache where
  "pc_demo = xscore_page_cache_initialize
     \<lparr>cache_entries = (\<lambda>_. empty_entry), cache_entry_count = 7, cache_hits = 0, cache_misses = 0, pc_pmm = pmm_small\<rparr>"

lemma fold_constant_update: "fold (\<lambda>i e. e(i := c)) is e j = (if j \<in> set is then c else e j)"
  by (induction "is" arbitrary: e) auto

lemma initialize_inv: "pc_inv (xscore_page_cache_initialize s)"
  by (simp add: pc_inv_def occupied_def xscore_page_cache_initialize_def fold_constant_update empty_entry_def)

lemma initialize_get: "pc_get (xscore_page_cache_initialize s) k = None"
  unfolding pc_get_None [OF initialize_inv]
  by (simp add: occupied_def xscore_page_cache_initialize_def fold_constant_update empty_entry_def)

lemma page_cache_insert_correct_witness:
  "\<exists>s'. xscore_page_cache_insert 0x1000 0 0x200000 pc_demo = (True, s') \<and> pc_get s' (0x1000, 0) = Some 0x200000"
proof -
  obtain r s' where ins: "xscore_page_cache_insert 0x1000 0 0x200000 pc_demo = (r, s')" by fastforce
  have "pc_inv pc_demo"
    by (simp add: pc_demo_def initialize_inv)
  from page_cache_insert_correct [OF this _ _ ins] ins show ?thesis
    by auto
qed

text \<open>
  C20. The cache is never stale: whatever pages are inserted into an initialised cache, in any
  order, a later lookup finds the page that was inserted last for that key, or nothing.
\<close>

theorem page_cache_never_stale:
  assumes "\<forall>(k, physical) \<in> set kvs. fst k \<noteq> 0 \<and> physical \<noteq> 0"
    and "xscore_page_cache_lookup (fst k) (snd k)
      (fold (\<lambda>(k, physical). pc_put k physical) kvs (xscore_page_cache_initialize s)) = (p, s')" and "p \<noteq> 0"
  shows "map_of (rev kvs) k = Some p"
proof -
  have "pc_get (fold (\<lambda>(k, physical). pc_put k physical) kvs (xscore_page_cache_initialize s)) k = Some p"
    using assms(2,3) by (simp add: pc_get_def)
  from pages.puts_coherent [OF initialize_inv assms(1) this] show ?thesis
    by (simp add: initialize_get)
qed

theorem page_cache_never_stale_witness:
  "\<exists>p s'. xscore_page_cache_lookup 0x1000 0 (pc_put (0x1000, 0) 0x300000 (pc_put (0x1000, 0) 0x200000 pc_demo)) = (p, s') \<and>
     p = 0x300000"
proof -
  let ?s = "pc_put (0x1000, 0) 0x300000 (pc_put (0x1000, 0) 0x200000 pc_demo)"
  obtain p s' where r: "xscore_page_cache_lookup 0x1000 0 ?s = (p, s')" by fastforce
  have "pc_get ?s (0x1000, 0) = Some 0x300000"
    by (simp add: pages.get_put pages.put_inv pc_demo_def initialize_inv)
  then have "p \<noteq> 0" using r by (simp add: pc_get_def split: if_splits)
  then show ?thesis
    using page_cache_never_stale [of "[((0x1000, 0), 0x200000), ((0x1000, 0), 0x300000)]" "(0x1000, 0)"] r
    by (simp add: pc_demo_def)
qed

text \<open>
  Evicting a page that the cache holds removes one entry for it, and that entry's reference;
  every other key is unchanged. Evicting a page that is not cached does nothing.
\<close>

lemma page_cache_evict_correct:
  assumes "pc_inv s" and "physical \<noteq> 0"
  shows "pc_inv (xscore_page_cache_evict physical s) \<and>
    (if \<exists>k. pc_get s k = Some physical
     then \<exists>k. pc_get s k = Some physical \<and> pc_get (xscore_page_cache_evict physical s) = (pc_get s)(k := None) \<and>
       pc_pmm (xscore_page_cache_evict physical s) = snd (xscore_pmm_refcount_dec physical (pc_pmm s))
     else xscore_page_cache_evict physical s = s)"
proof (cases "find_from (\<lambda>i. pc_physical (cache_entries s i) = physical) 0 PAGE_CACHE_CAPACITY")
  case None
  then have "\<not> (\<exists>k. pc_get s k = Some physical)"
    unfolding pc_get_iff [OF assms(1)] by (auto simp: find_from_None occupied_def)
  then show ?thesis
    using None assms by (simp add: xscore_page_cache_evict_def)
next
  case (Some i)
  let ?s = "xscore_page_cache_evict physical s" and ?k = "entry_key (cache_entries s i)"
  have i: "i \<in> occupied s" "pc_physical (cache_entries s i) = physical"
    using Some assms(2) by (auto simp: find_from_Some occupied_def)
  have cnt: "cache_entry_count s > 0"
    using assms(1) i(1) card_gt_0_iff [of "occupied s"] by (auto simp: pc_inv_def word_less_nat_alt)
  have s': "cache_entries ?s = (cache_entries s)(i := empty_entry)"
    "cache_entry_count ?s = cache_entry_count s - 1" "pc_pmm ?s = snd (xscore_pmm_refcount_dec physical (pc_pmm s))"
    using Some assms(2) i(2) cnt by (simp_all add: xscore_page_cache_evict_def Let_def drop_page_def)
  have occ: "occupied ?s = occupied s - {i}"
    by (auto simp: occupied_def s'(1) empty_entry_def)
  have inv': "pc_inv ?s"
  proof -
    have "inj_on (\<lambda>j. entry_key (cache_entries ?s j)) (occupied s - {i})"
      using assms(1) by (auto simp: pc_inv_def inj_on_def s'(1))
    moreover have "unat (cache_entry_count ?s) = card (occupied s - {i})"
      using assms(1) i(1) cnt by (auto simp: pc_inv_def s'(2) unat_dec_nz)
    ultimately show ?thesis
      using assms(1) by (auto simp: pc_inv_def occ s'(1) empty_entry_def)
  qed
  have get: "pc_get s ?k = Some physical"
    unfolding pc_get_iff [OF assms(1)] using i by auto
  have "pc_get ?s k = ((pc_get s)(?k := None)) k" for k
  proof (cases "k = ?k")
    case True
    have "entry_key (cache_entries ?s j) \<noteq> ?k" if "j \<in> occupied ?s" for j
      using assms(1) i(1) that by (auto simp: pc_inv_def inj_on_def occ s'(1))
    then show ?thesis
      using True pc_get_None [OF inv', of k] by simp
  next
    case False
    then show ?thesis
      using pc_get_eqI [OF assms(1) inv', of k] by (auto simp: occ s'(1))
  qed
  then have "pc_get ?s = (pc_get s)(?k := None)" ..
  moreover have ex: "\<exists>k. pc_get s k = Some physical"
    using get by blast
  ultimately show ?thesis
    unfolding if_P [OF ex] using inv' get s'(3) by blast
qed

lemma page_cache_evict_correct_witness:
  "\<exists>k. pc_get (pc_put (0x1000, 0) 0x200000 pc_demo) k = Some 0x200000 \<and>
    pc_get (xscore_page_cache_evict 0x200000 (pc_put (0x1000, 0) 0x200000 pc_demo)) k = None"
proof -
  let ?s = "pc_put (0x1000, 0) 0x200000 pc_demo"
  have demo: "pc_inv pc_demo"
    by (simp add: pc_demo_def initialize_inv)
  have "pc_inv ?s" and get: "pc_get ?s (0x1000, 0) = Some 0x200000"
    using pages.put_inv [OF demo] pages.get_put [OF demo] by simp_all
  moreover have "(0x200000 :: u64) \<noteq> 0"
    by simp
  ultimately show ?thesis
    using page_cache_evict_correct [of ?s "0x200000"] by (metis fun_upd_same)
qed

end
