(* ===== verification/Buf_Cache.thy ===== *)
theory Buf_Cache
  imports Prelude
begin

unbundle bit_operations_syntax

text \<open>
  The sector cache, \<^verbatim>\<open>xscore/kernel/bufcache.c\<close>: 64 write-back buffers of 512 bytes over the
  block device. The device is a parameter: the three functions of the block driver that the cache
  calls, over a device state. Its documented behaviour is \<open>device_ok\<close>: a read leaves the disk
  alone and returns the sector if it succeeds, and a write that succeeds replaces the sector and one
  that fails changes nothing. A sector is the list of its bytes; the byte loops that copy a whole
  sector are assignments.
\<close>

section \<open>The code\<close>

definition XSCORE_BUF_CACHE_SECTORS :: nat where "XSCORE_BUF_CACHE_SECTORS = 64"
definition XSCORE_BUF_SECTOR_SIZE :: nat where "XSCORE_BUF_SECTOR_SIZE = 512"
definition BUF_VALID :: u32 where "BUF_VALID = 1"
definition BUF_DIRTY :: u32 where "BUF_DIRTY = 2"

type_synonym sector = "u8 list"

text \<open>A read that fails may have overwritten the buffer.\<close>

record 'd block_driver =
  virtio_blk_present :: "'d \<Rightarrow> bool"
  virtio_blk_read_sector :: "u64 \<Rightarrow> 'd \<Rightarrow> bool \<times> sector \<times> 'd"
  virtio_blk_write_sector :: "u64 \<Rightarrow> sector \<Rightarrow> 'd \<Rightarrow> bool \<times> 'd"

record xscore_buf_entry =
  be_sector :: u64
  be_flags :: u32
  be_tick :: u64
  be_data :: sector

record 'd bufcache =
  bc_cache :: "nat \<Rightarrow> xscore_buf_entry"
  global_tick_seq :: u64
  cache_initialized :: bool
  bc_device :: 'd

definition xscore_bufcache_initialize :: "'d bufcache \<Rightarrow> 'd bufcache" where
  "xscore_bufcache_initialize s =
     s\<lparr>bc_cache := fold (\<lambda>i c. c(i := \<lparr>be_sector = 0, be_flags = 0, be_tick = 0,
             be_data = replicate XSCORE_BUF_SECTOR_SIZE 0\<rparr>)) [0..<XSCORE_BUF_CACHE_SECTORS] (bc_cache s),
       global_tick_seq := 0, cache_initialized := True\<rparr>"

definition buf_valid :: "xscore_buf_entry \<Rightarrow> bool" where
  "buf_valid e \<longleftrightarrow> be_flags e AND BUF_VALID \<noteq> 0"

definition buf_dirty :: "xscore_buf_entry \<Rightarrow> bool" where
  "buf_dirty e \<longleftrightarrow> be_flags e AND BUF_DIRTY \<noteq> 0"

definition find_entry :: "u64 \<Rightarrow> 'd bufcache \<Rightarrow> nat option" where
  "find_entry sec s =
     find_from (\<lambda>i. buf_valid (bc_cache s i) \<and> be_sector (bc_cache s i) = sec) 0 XSCORE_BUF_CACHE_SECTORS"

definition lru_victim :: "(nat \<Rightarrow> xscore_buf_entry) \<Rightarrow> nat" where
  "lru_victim c =
     fst (fold (\<lambda>i (victim_idx, min_tick). if be_tick (c i) < min_tick then (i, be_tick (c i)) else (victim_idx, min_tick))
       [1..<XSCORE_BUF_CACHE_SECTORS] (0, be_tick (c 0)))"

text \<open>The entry takes the sector, is valid and clean, and has the newest tick.\<close>

definition claim_entry :: "nat \<Rightarrow> u64 \<Rightarrow> 'd bufcache \<Rightarrow> 'd bufcache" where
  "claim_entry i sec s =
     s\<lparr>bc_cache := (bc_cache s)(i := (bc_cache s i)\<lparr>be_sector := sec, be_flags := BUF_VALID,
         be_tick := global_tick_seq s + 1\<rparr>),
       global_tick_seq := global_tick_seq s + 1\<rparr>"

definition write_back :: "'d block_driver \<Rightarrow> nat \<Rightarrow> 'd bufcache \<Rightarrow> bool \<times> 'd bufcache" where
  "write_back drv i s =
     (let (ok, d) = virtio_blk_write_sector drv (be_sector (bc_cache s i)) (be_data (bc_cache s i)) (bc_device s)
      in (ok, s\<lparr>bc_device := d\<rparr>))"

definition clean_entry :: "nat \<Rightarrow> 'd bufcache \<Rightarrow> 'd bufcache" where
  "clean_entry i s =
     s\<lparr>bc_cache := (bc_cache s)(i := (bc_cache s i)\<lparr>be_flags := be_flags (bc_cache s i) AND NOT BUF_DIRTY\<rparr>)\<rparr>"

definition allocate_entry :: "'d block_driver \<Rightarrow> u64 \<Rightarrow> 'd bufcache \<Rightarrow> nat \<times> 'd bufcache" where
  "allocate_entry drv sec s =
     (case find_from (\<lambda>i. \<not> buf_valid (bc_cache s i)) 0 XSCORE_BUF_CACHE_SECTORS of
        Some i \<Rightarrow> (i, claim_entry i sec s)
      | None \<Rightarrow>
          let victim = lru_victim (bc_cache s);
              s = (if buf_dirty (bc_cache s victim) then clean_entry victim (snd (write_back drv victim s)) else s)
          in (victim, claim_entry victim sec s))"

definition ready_cache :: "'d bufcache \<Rightarrow> 'd bufcache" where
  "ready_cache s = (if \<not> cache_initialized s then xscore_bufcache_initialize s else s)"


definition xscore_bufcache_write :: "'d block_driver \<Rightarrow> u64 \<Rightarrow> sector \<Rightarrow> 'd bufcache \<Rightarrow> bool \<times> 'd bufcache" where
  "xscore_bufcache_write drv sec buffer s =
     (let s = ready_cache s in
      if \<not> virtio_blk_present drv (bc_device s) then (False, s)
      else
        let (i, s) = (case find_entry sec s of Some i \<Rightarrow> (i, s) | None \<Rightarrow> allocate_entry drv sec s)
        in (True, s\<lparr>bc_cache := (bc_cache s)(i := (bc_cache s i)\<lparr>be_data := buffer,
                  be_flags := be_flags (bc_cache s i) OR (BUF_VALID OR BUF_DIRTY), be_tick := global_tick_seq s + 1\<rparr>),
                global_tick_seq := global_tick_seq s + 1\<rparr>))"



definition xscore_bufcache_invalidate :: "'d bufcache \<Rightarrow> 'd bufcache" where
  "xscore_bufcache_invalidate s =
     s\<lparr>bc_cache := fold (\<lambda>i c. c(i := (c i)\<lparr>be_flags := 0, be_sector := 0, be_tick := 0\<rparr>))
         [0..<XSCORE_BUF_CACHE_SECTORS] (bc_cache s)\<rparr>"

section \<open>What the cache holds\<close>

definition device_ok :: "'d block_driver \<Rightarrow> ('d \<Rightarrow> u64 \<Rightarrow> sector) \<Rightarrow> bool" where
  "device_ok drv disk \<longleftrightarrow>
     (\<forall>sec d ok data d'. virtio_blk_read_sector drv sec d = (ok, data, d') \<longrightarrow>
        disk d' = disk d \<and> (ok \<longrightarrow> data = disk d sec)) \<and>
     (\<forall>sec data d ok d'. virtio_blk_write_sector drv sec data d = (ok, d') \<longrightarrow>
        disk d' = (if ok then (disk d)(sec := data) else disk d))"

definition writes_succeed :: "'d block_driver \<Rightarrow> bool" where
  "writes_succeed drv \<longleftrightarrow> (\<forall>sec data d. fst (virtio_blk_write_sector drv sec data d))"

text \<open>The sector as the kernel sees it: the buffer if there is one, the disk otherwise.\<close>

definition contents :: "('d \<Rightarrow> u64 \<Rightarrow> sector) \<Rightarrow> 'd bufcache \<Rightarrow> u64 \<Rightarrow> sector" where
  "contents disk s sec =
     (case find_entry sec s of Some i \<Rightarrow> be_data (bc_cache s i) | None \<Rightarrow> disk (bc_device s) sec)"

definition valid_slots :: "'d bufcache \<Rightarrow> nat set" where
  "valid_slots s = {i. i < XSCORE_BUF_CACHE_SECTORS \<and> be_flags (bc_cache s i) \<noteq> 0}"

definition bc_inv :: "'d bufcache \<Rightarrow> bool" where
  "bc_inv s \<longleftrightarrow>
     (\<forall>i < XSCORE_BUF_CACHE_SECTORS. be_flags (bc_cache s i) \<in> {0, 1, 3}) \<and>
     inj_on (\<lambda>i. be_sector (bc_cache s i)) (valid_slots s) \<and> cache_initialized s"

lemma buf_flag_bits:
  "be_flags e \<in> {0, 1, 3} \<Longrightarrow> buf_valid e \<longleftrightarrow> be_flags e \<noteq> 0"
  "be_flags e \<in> {0, 1, 3} \<Longrightarrow> buf_dirty e \<longleftrightarrow> be_flags e = 3"
  by (auto simp: buf_valid_def buf_dirty_def BUF_VALID_def BUF_DIRTY_def)

lemma find_entry_Some:
  assumes "bc_inv s"
  shows "find_entry sec s = Some i \<longleftrightarrow> i \<in> valid_slots s \<and> be_sector (bc_cache s i) = sec"
proof -
  have v: "buf_valid (bc_cache s j) \<longleftrightarrow> be_flags (bc_cache s j) \<noteq> 0" if "j < XSCORE_BUF_CACHE_SECTORS" for j
    using assms that buf_flag_bits(1) by (auto simp: bc_inv_def)
  have u: "j = k" if "j \<in> valid_slots s" "k \<in> valid_slots s" "be_sector (bc_cache s j) = be_sector (bc_cache s k)" for j k
    using assms that by (auto simp: bc_inv_def inj_on_def)
  show ?thesis
  proof
    assume "find_entry sec s = Some i"
    then show "i \<in> valid_slots s \<and> be_sector (bc_cache s i) = sec"
      using v by (auto simp: find_entry_def find_from_Some valid_slots_def)
  next
    assume i: "i \<in> valid_slots s \<and> be_sector (bc_cache s i) = sec"
    have "\<not> (buf_valid (bc_cache s j) \<and> be_sector (bc_cache s j) = sec)" if "j < i" for j
      using i u [of j i] v [of j] that by (auto simp: valid_slots_def)
    then show "find_entry sec s = Some i"
      using i v by (auto simp: find_entry_def find_from_Some valid_slots_def)
  qed
qed

lemma find_entry_None:
  assumes "bc_inv s"
  shows "find_entry sec s = None \<longleftrightarrow> (\<forall>i \<in> valid_slots s. be_sector (bc_cache s i) \<noteq> sec)"
  using find_entry_Some [OF assms, of sec] by (cases "find_entry sec s") auto

lemma contents_cached:
  "bc_inv s \<Longrightarrow> i \<in> valid_slots s \<Longrightarrow> contents disk s (be_sector (bc_cache s i)) = be_data (bc_cache s i)"
  using find_entry_Some [of s "be_sector (bc_cache s i)" i] by (simp add: contents_def)

lemma contents_uncached:
  "bc_inv s \<Longrightarrow> \<forall>i \<in> valid_slots s. be_sector (bc_cache s i) \<noteq> sec \<Longrightarrow> contents disk s sec = disk (bc_device s) sec"
  using find_entry_None [of s sec] by (simp add: contents_def)

text \<open>A clean buffer holds what the disk holds.\<close>

definition bc_ok :: "('d \<Rightarrow> u64 \<Rightarrow> sector) \<Rightarrow> 'd bufcache \<Rightarrow> bool" where
  "bc_ok disk s \<longleftrightarrow> bc_inv s \<and>
     (\<forall>i \<in> valid_slots s. be_flags (bc_cache s i) = 1 \<longrightarrow> be_data (bc_cache s i) = disk (bc_device s) (be_sector (bc_cache s i)))"

text \<open>Replacing one slot by an entry for a sector that no other slot has.\<close>

lemma slot_update:
  assumes ok: "bc_ok disk s" and i: "i < XSCORE_BUF_CACHE_SECTORS"
    and s': "bc_cache s' = (bc_cache s)(i := e)" "cache_initialized s'"
    and e: "be_flags e \<in> {1, 3}" "be_flags e = 1 \<Longrightarrow> be_data e = disk (bc_device s') (be_sector e)"
    and new: "\<And>j. j \<in> valid_slots s \<Longrightarrow> j \<noteq> i \<Longrightarrow> be_sector (bc_cache s j) \<noteq> be_sector e"
    and dev: "\<And>n. n \<noteq> be_sector e \<Longrightarrow> \<not> (i \<in> valid_slots s \<and> n = be_sector (bc_cache s i)) \<Longrightarrow>
      disk (bc_device s') n = disk (bc_device s) n"
  shows "bc_ok disk s'" "contents disk s' (be_sector e) = be_data e"
    "n \<noteq> be_sector e \<Longrightarrow> \<not> (i \<in> valid_slots s \<and> n = be_sector (bc_cache s i)) \<Longrightarrow> contents disk s' n = contents disk s n"
    "n \<noteq> be_sector e \<Longrightarrow> i \<in> valid_slots s \<Longrightarrow> n = be_sector (bc_cache s i) \<Longrightarrow> contents disk s' n = disk (bc_device s') n"
proof -
  have inv: "bc_inv s" using ok by (simp add: bc_ok_def)
  have v: "valid_slots s' = insert i (valid_slots s)"
    using i e(1) by (auto simp: valid_slots_def s'(1))
  have inj: "inj_on (\<lambda>j. be_sector (bc_cache s j)) (valid_slots s)"
    using inv by (simp add: bc_inv_def)
  have inv': "bc_inv s'"
  proof -
    have "inj_on (\<lambda>j. be_sector (bc_cache s' j)) (valid_slots s')"
      unfolding v using inj new by (auto simp: inj_on_def s'(1)) (metis)+
    moreover have "be_flags (bc_cache s' j) \<in> {0, 1, 3}" if "j < XSCORE_BUF_CACHE_SECTORS" for j
      using inv that e(1) by (auto simp: bc_inv_def s'(1))
    ultimately show ?thesis
      using s'(2) by (simp add: bc_inv_def)
  qed
  have clean: "be_data (bc_cache s' j) = disk (bc_device s') (be_sector (bc_cache s' j))"
    if "j \<in> valid_slots s'" "be_flags (bc_cache s' j) = 1" for j
  proof (cases "j = i")
    case True
    then show ?thesis using e(2) that by (simp add: s'(1))
  next
    case False
    then have j: "j \<in> valid_slots s" "be_flags (bc_cache s j) = 1"
      using that by (auto simp: v s'(1))
    then have "be_data (bc_cache s j) = disk (bc_device s) (be_sector (bc_cache s j))"
      using ok by (simp add: bc_ok_def)
    moreover have "disk (bc_device s') (be_sector (bc_cache s j)) = disk (bc_device s) (be_sector (bc_cache s j))"
      using dev [OF new [OF j(1) False]] inj j(1) False by (auto simp: inj_on_def)
    ultimately show ?thesis
      using False by (simp add: s'(1))
  qed
  then show "bc_ok disk s'"
    using inv' by (simp add: bc_ok_def)
  show "contents disk s' (be_sector e) = be_data e"
    using contents_cached [OF inv', of i disk] by (simp add: v s'(1))
  show "contents disk s' n = contents disk s n" if n: "n \<noteq> be_sector e" "\<not> (i \<in> valid_slots s \<and> n = be_sector (bc_cache s i))"
  proof (cases "\<exists>j \<in> valid_slots s. be_sector (bc_cache s j) = n")
    case True
    then obtain j where j: "j \<in> valid_slots s" "be_sector (bc_cache s j) = n" "j \<noteq> i"
      using n by blast
    then show ?thesis
      using contents_cached [OF inv, of j disk] contents_cached [OF inv', of j disk] by (simp add: v s'(1))
  next
    case False
    then have "\<forall>j \<in> valid_slots s'. be_sector (bc_cache s' j) \<noteq> n"
      using n by (auto simp: v s'(1))
    then show ?thesis
      using False contents_uncached [OF inv] contents_uncached [OF inv'] dev [OF n] by auto
  qed
  show "contents disk s' n = disk (bc_device s') n" if n: "n \<noteq> be_sector e" "i \<in> valid_slots s" "n = be_sector (bc_cache s i)"
  proof (rule contents_uncached [OF inv'])
    show "\<forall>j \<in> valid_slots s'. be_sector (bc_cache s' j) \<noteq> n"
      using n inj by (auto simp: v s'(1) inj_on_def)
  qed
qed

lemma lru_victim_spec:
  "lru_victim c < XSCORE_BUF_CACHE_SECTORS" "j < XSCORE_BUF_CACHE_SECTORS \<Longrightarrow> be_tick (c (lru_victim c)) \<le> be_tick (c j)"
proof -
  let ?step = "\<lambda>i (victim_idx, min_tick). if be_tick (c i) < min_tick then (i, be_tick (c i)) else (victim_idx, min_tick)"
  have "\<exists>v. fold ?step [1..<Suc n] (0, be_tick (c 0)) = (v, be_tick (c v)) \<and> v \<le> n \<and> (\<forall>j \<le> n. be_tick (c v) \<le> be_tick (c j))" for n
  proof (induction n)
    case (Suc n)
    then obtain v where v: "fold ?step [1..<Suc n] (0, be_tick (c 0)) = (v, be_tick (c v))" "v \<le> n"
      "\<And>j. j \<le> n \<Longrightarrow> be_tick (c v) \<le> be_tick (c j)" by blast
    have u: "[1..<Suc (Suc n)] = [1..<Suc n] @ [Suc n]"
      by simp
    show ?case
    proof (cases "be_tick (c (Suc n)) < be_tick (c v)")
      case True
      then show ?thesis
        unfolding u fold_append comp_def v(1) using v(2,3) by (intro exI [of _ "Suc n"]) (auto simp: le_Suc_eq intro: less_imp_le order.trans)
    next
      case False
      then show ?thesis
        unfolding u fold_append comp_def v(1) using v(2,3) by (intro exI [of _ v]) (auto simp: le_Suc_eq not_less)
    qed
  qed simp
  from this [of 63] obtain v where "lru_victim c = v" "v \<le> 63" "\<forall>j \<le> 63. be_tick (c v) \<le> be_tick (c j)"
    unfolding lru_victim_def XSCORE_BUF_CACHE_SECTORS_def by auto
  then show "lru_victim c < XSCORE_BUF_CACHE_SECTORS"
    "j < XSCORE_BUF_CACHE_SECTORS \<Longrightarrow> be_tick (c (lru_victim c)) \<le> be_tick (c j)"
    by (auto simp: XSCORE_BUF_CACHE_SECTORS_def)
qed

lemma allocate_entry_spec:
  assumes dev: "device_ok drv disk" and ok: "bc_ok disk s" and al: "allocate_entry drv sec s = (i, s1)"
  shows "i < XSCORE_BUF_CACHE_SECTORS" "be_sector (bc_cache s1 i) = sec" "be_flags (bc_cache s1 i) = 1"
    "bc_cache s1 = (bc_cache s)(i := bc_cache s1 i)" "cache_initialized s1"
    "\<exists>w. (writes_succeed drv \<longrightarrow> w) \<and>
       (w = fst (virtio_blk_write_sector drv (be_sector (bc_cache s i)) (be_data (bc_cache s i)) (bc_device s))) \<and>
       disk (bc_device s1) = (if be_flags (bc_cache s i) = 3 \<and> w
         then (disk (bc_device s))(be_sector (bc_cache s i) := be_data (bc_cache s i)) else disk (bc_device s))"
    "i \<notin> valid_slots s \<or> i = lru_victim (bc_cache s)"
proof -
  have inv: "bc_inv s" using ok by (simp add: bc_ok_def)
  have flags: "be_flags (bc_cache s j) \<in> {0, 1, 3}" if "j < XSCORE_BUF_CACHE_SECTORS" for j
    using inv that by (simp add: bc_inv_def)
  let ?w = "fst (virtio_blk_write_sector drv (be_sector (bc_cache s i)) (be_data (bc_cache s i)) (bc_device s))"
  have "i < XSCORE_BUF_CACHE_SECTORS \<and> be_sector (bc_cache s1 i) = sec \<and> be_flags (bc_cache s1 i) = 1 \<and>
    bc_cache s1 = (bc_cache s)(i := bc_cache s1 i) \<and> cache_initialized s1 \<and>
    disk (bc_device s1) = (if be_flags (bc_cache s i) = 3 \<and> ?w
      then (disk (bc_device s))(be_sector (bc_cache s i) := be_data (bc_cache s i)) else disk (bc_device s)) \<and>
    (i \<notin> valid_slots s \<or> i = lru_victim (bc_cache s))"
  proof (cases "find_from (\<lambda>i. \<not> buf_valid (bc_cache s i)) 0 XSCORE_BUF_CACHE_SECTORS")
    case (Some k)
    then have ki: "k = i" "s1 = claim_entry i sec s"
      using al by (auto simp: allocate_entry_def)
    then have k: "i < XSCORE_BUF_CACHE_SECTORS" "\<not> buf_valid (bc_cache s i)"
      using Some by (auto simp: find_from_Some)
    moreover have "be_flags (bc_cache s i) = 0"
      using k buf_flag_bits(1) [OF flags [OF k(1)]] by auto
    ultimately show ?thesis
      using inv ki by (simp add: claim_entry_def BUF_VALID_def bc_inv_def valid_slots_def)
  next
    case None
    have i: "i = lru_victim (bc_cache s)" "i < XSCORE_BUF_CACHE_SECTORS"
      using None al lru_victim_spec(1) [of "bc_cache s"] by (simp_all add: allocate_entry_def Let_def)
    have d: "buf_dirty (bc_cache s i) \<longleftrightarrow> be_flags (bc_cache s i) = 3"
      using buf_flag_bits(2) flags i(2) by blast
    obtain w d' where w: "virtio_blk_write_sector drv (be_sector (bc_cache s i)) (be_data (bc_cache s i)) (bc_device s) = (w, d')"
      by fastforce
    have disk: "disk d' = (if w then (disk (bc_device s))(be_sector (bc_cache s i) := be_data (bc_cache s i)) else disk (bc_device s))"
      using dev w unfolding device_ok_def by blast
    have s1: "s1 = claim_entry i sec (if be_flags (bc_cache s i) = 3 then clean_entry i (snd (write_back drv i s)) else s)"
      using None al by (simp add: allocate_entry_def Let_def i(1) [symmetric] d)
    show ?thesis
      using inv i w disk by (auto simp: s1 claim_entry_def clean_entry_def write_back_def BUF_VALID_def bc_inv_def)
  qed
  then show "i < XSCORE_BUF_CACHE_SECTORS" "be_sector (bc_cache s1 i) = sec" "be_flags (bc_cache s1 i) = 1"
    "bc_cache s1 = (bc_cache s)(i := bc_cache s1 i)" "cache_initialized s1"
    "\<exists>w. (writes_succeed drv \<longrightarrow> w) \<and>
       (w = fst (virtio_blk_write_sector drv (be_sector (bc_cache s i)) (be_data (bc_cache s i)) (bc_device s))) \<and>
       disk (bc_device s1) = (if be_flags (bc_cache s i) = 3 \<and> w
         then (disk (bc_device s))(be_sector (bc_cache s i) := be_data (bc_cache s i)) else disk (bc_device s))"
    "i \<notin> valid_slots s \<or> i = lru_victim (bc_cache s)"
    by (auto simp: writes_succeed_def)
qed




text \<open>
  Claiming a slot for a sector that is not cached and giving it new data: every other sector keeps
  its contents if the victim's data reached the disk.
\<close>

lemma fill_entry:
  assumes dev: "device_ok drv disk" and ok: "bc_ok disk s" and miss: "find_entry sec s = None"
    and al: "allocate_entry drv sec s = (i, s1)"
    and s2: "bc_cache s2 = (bc_cache s1)(i := e)" "be_sector e = sec" "be_flags e \<in> {1, 3}" "cache_initialized s2"
      "disk (bc_device s2) = disk (bc_device s1)" "be_flags e = 1 \<Longrightarrow> be_data e = disk (bc_device s1) sec"
  shows "bc_ok disk s2" "contents disk s2 sec = be_data e"
    "n \<noteq> sec \<Longrightarrow> \<not> (i \<in> valid_slots s \<and> be_flags (bc_cache s i) = 3 \<and> n = be_sector (bc_cache s i)) \<or> writes_succeed drv \<Longrightarrow>
       contents disk s2 n = contents disk s n"
    "be_flags (bc_cache s i) = 3 \<Longrightarrow>
      \<not> fst (virtio_blk_write_sector drv (be_sector (bc_cache s i)) (be_data (bc_cache s i)) (bc_device s)) \<Longrightarrow>
      contents disk s2 (be_sector (bc_cache s i)) = disk (bc_device s) (be_sector (bc_cache s i))"
proof -
  note a = allocate_entry_spec [OF dev ok al]
  obtain w where w: "writes_succeed drv \<Longrightarrow> w"
    "w = fst (virtio_blk_write_sector drv (be_sector (bc_cache s i)) (be_data (bc_cache s i)) (bc_device s))"
    "disk (bc_device s1) = (if be_flags (bc_cache s i) = 3 \<and> w
         then (disk (bc_device s))(be_sector (bc_cache s i) := be_data (bc_cache s i)) else disk (bc_device s))"
    using a(6) by blast
  have inv: "bc_inv s" using ok by (simp add: bc_ok_def)
  have none: "be_sector (bc_cache s j) \<noteq> sec" if "j \<in> valid_slots s" for j
    using miss find_entry_None [OF inv] that by blast
  have c2: "bc_cache s2 = (bc_cache s)(i := e)"
    by (subst s2(1), subst a(4)) simp
  have vi: "be_flags (bc_cache s i) = 3 \<Longrightarrow> i \<in> valid_slots s"
    using a(1) by (simp add: valid_slots_def)
  have disk2: "disk (bc_device s2) n = disk (bc_device s) n" if "\<not> (i \<in> valid_slots s \<and> n = be_sector (bc_cache s i))" for n
    using that vi by (simp add: s2(5) w(3))
  note up = slot_update [OF ok a(1) c2 s2(4,3), unfolded s2(2), OF _ none disk2]
  have e1: "be_flags e = 1 \<Longrightarrow> be_data e = disk (bc_device s2) sec"
    using s2(5,6) by simp
  show "bc_ok disk s2" "contents disk s2 sec = be_data e"
    using up(1,2) e1 by simp_all
  show "contents disk s2 n = contents disk s n"
    if "n \<noteq> sec" "\<not> (i \<in> valid_slots s \<and> be_flags (bc_cache s i) = 3 \<and> n = be_sector (bc_cache s i)) \<or> writes_succeed drv"
  proof (cases "i \<in> valid_slots s \<and> n = be_sector (bc_cache s i)")
    case False
    then show ?thesis using up(3) e1 that(1) by simp
  next
    case True
    then have "contents disk s2 n = disk (bc_device s1) n"
      using up(4) e1 that(1) s2(5) by simp
    also have "\<dots> = be_data (bc_cache s i)"
    proof (cases "be_flags (bc_cache s i) = 3")
      case dirty: True
      then show ?thesis using that(2) True w(1,3) by auto
    next
      case clean: False
      then have "be_flags (bc_cache s i) = 1"
        using inv True by (auto simp: bc_inv_def valid_slots_def)
      then show ?thesis
        using ok True clean w(3) by (simp add: bc_ok_def)
    qed
    also have "\<dots> = contents disk s n"
      using True contents_cached [OF inv, of i disk] by simp
    finally show ?thesis .
  qed
  show "contents disk s2 (be_sector (bc_cache s i)) = disk (bc_device s) (be_sector (bc_cache s i))"
    if "be_flags (bc_cache s i) = 3"
      "\<not> fst (virtio_blk_write_sector drv (be_sector (bc_cache s i)) (be_data (bc_cache s i)) (bc_device s))"
    using up(4) [of "be_sector (bc_cache s i)"] e1 vi none that w(2,3) s2(5) by simp
qed


section \<open>Correctness\<close>


definition demo_drive :: "bool \<Rightarrow> (u64 \<Rightarrow> sector) block_driver" where
  "demo_drive writable = \<lparr>virtio_blk_present = (\<lambda>_. True), virtio_blk_read_sector = (\<lambda>sec d. (True, d sec, d)),
     virtio_blk_write_sector = (\<lambda>sec data d. if writable then (True, d(sec := data)) else (False, d))\<rparr>"

lemma demo_drive_ok: "device_ok (demo_drive w) (\<lambda>d. d)" "writes_succeed (demo_drive True)"
  by (auto simp: device_ok_def writes_succeed_def demo_drive_def)

text \<open>A full cache of dirty sectors 0 to 63.\<close>

definition demo_cache :: "(u64 \<Rightarrow> sector) bufcache" where
  "demo_cache = \<lparr>bc_cache = (\<lambda>i. \<lparr>be_sector = of_nat i, be_flags = 3, be_tick = of_nat i, be_data = [1]\<rparr>),
     global_tick_seq = 64, cache_initialized = True, bc_device = (\<lambda>_. [])\<rparr>"

lemma demo_cache_ok: "bc_ok disk demo_cache" "find_entry 1000 demo_cache = None"
proof -
  have "inj_on (\<lambda>i. of_nat i :: u64) {i. i < XSCORE_BUF_CACHE_SECTORS}"
    by (auto simp: inj_on_def of_nat64_eq_iff XSCORE_BUF_CACHE_SECTORS_def)
  then have inv: "bc_inv demo_cache"
    by (simp add: bc_inv_def valid_slots_def demo_cache_def)
  then show "bc_ok disk demo_cache"
    by (simp add: bc_ok_def demo_cache_def valid_slots_def)
  have "(of_nat i :: u64) \<noteq> 1000" if "i < 64" for i
    using of_nat64_eq_iff [of i 1000] that by simp
  then show "find_entry 1000 demo_cache = None"
    using find_entry_None [OF inv, of 1000] by (simp add: demo_cache_def valid_slots_def XSCORE_BUF_CACHE_SECTORS_def)
qed





text \<open>
  C40. When a dirty victim cannot be written back its data is lost: the write of another sector
  succeeds, and from then on the victim's sector reads as the old contents of the disk.
\<close>

theorem bufcache_eviction_loses_data:
  assumes "device_ok drv disk" and "bc_ok disk s" and "virtio_blk_present drv (bc_device s)"
    and "find_entry sec s = None" and "\<forall>i < XSCORE_BUF_CACHE_SECTORS. be_flags (bc_cache s i) = 3"
    and "\<forall>sec data d. \<not> fst (virtio_blk_write_sector drv sec data d)"
    and "xscore_bufcache_write drv sec data s = (r, s')"
  shows "\<exists>i < XSCORE_BUF_CACHE_SECTORS. r \<and>
    contents disk s (be_sector (bc_cache s i)) = be_data (bc_cache s i) \<and>
    contents disk s' (be_sector (bc_cache s i)) = disk (bc_device s) (be_sector (bc_cache s i))"
proof -
  have inv: "bc_inv s" and ready: "ready_cache s = s"
    using assms(2) by (auto simp: bc_ok_def bc_inv_def ready_cache_def)
  obtain i s1 where al: "allocate_entry drv sec s = (i, s1)" by fastforce
  define e where "e = (bc_cache s1 i)\<lparr>be_data := data, be_flags := be_flags (bc_cache s1 i) OR 3, be_tick := global_tick_seq s1 + 1\<rparr>"
  have s': "r" "s' = s1\<lparr>bc_cache := (bc_cache s1)(i := e), global_tick_seq := global_tick_seq s1 + 1\<rparr>"
    using assms(3,4,7) ready al by (simp_all add: xscore_bufcache_write_def e_def BUF_VALID_def BUF_DIRTY_def)
  note a = allocate_entry_spec [OF assms(1,2) al]
  have "contents disk s' (be_sector (bc_cache s i)) = disk (bc_device s) (be_sector (bc_cache s i))"
    using fill_entry(4) [OF assms(1,2,4) al, of s' e] a(1,2,3,5) assms(5,6) by (simp add: s'(2) e_def)
  moreover have "i \<in> valid_slots s"
    using a(1) assms(5) by (simp add: valid_slots_def)
  ultimately show ?thesis
    using a(1) s'(1) contents_cached [OF inv, of i disk] by blast
qed


theorem bufcache_eviction_loses_data_witness:
  "\<exists>s' i. xscore_bufcache_write (demo_drive False) 1000 [7] demo_cache = (True, s') \<and>
    contents (\<lambda>d. d) demo_cache (be_sector (bc_cache demo_cache i)) = [1] \<and>
    contents (\<lambda>d. d) s' (be_sector (bc_cache demo_cache i)) = []"
proof -
  obtain r s' where wr: "xscore_bufcache_write (demo_drive False) 1000 [7] demo_cache = (r, s')" by fastforce
  have "virtio_blk_present (demo_drive False) (bc_device demo_cache)"
    "\<forall>i < XSCORE_BUF_CACHE_SECTORS. be_flags (bc_cache demo_cache i) = 3"
    "\<forall>sec data d. \<not> fst (virtio_blk_write_sector (demo_drive False) sec data d)"
    "be_data (bc_cache demo_cache i) = [1]" "bc_device demo_cache = (\<lambda>_. [])" for i
    by (simp_all add: demo_drive_def demo_cache_def)
  with bufcache_eviction_loses_data [OF demo_drive_ok(1) demo_cache_ok(1) _ demo_cache_ok(2) _ _ wr] wr show ?thesis
    by auto
qed




end
