(* ===== verification/C_Memory.thy ===== *)
theory C_Memory
  imports Prelude
begin

unbundle bit_operations_syntax

text \<open>
  A byte store for the C library and the kernel's copy routines: the \<^verbatim>\<open>mem*\<close> functions of
  \<^verbatim>\<open>userspace/libc/src/string.c\<close> and \<^verbatim>\<open>xscore/kernel/usercopy.c\<close>. A pointer is a 64-bit
  address, 0 the null pointer; address arithmetic wraps. The copy loops read and write the
  same store, so overlapping regions behave as in the code.
\<close>

section \<open>The store and its loops\<close>

type_synonym memory = "u64 \<Rightarrow> u8"

definition copy_byte :: "u64 \<Rightarrow> u64 \<Rightarrow> nat \<Rightarrow> memory \<Rightarrow> memory" where
  "copy_byte d s i m = m(d + of_nat i := m (s + of_nat i))"

text \<open>\<^verbatim>\<open>while (P(i)) ++i;\<close>, where the test may itself be a loop; \<^const>\<open>None\<close> is a loop that does not end.\<close>

partial_function (option) scan :: "(u64 \<Rightarrow> bool option) \<Rightarrow> u64 \<Rightarrow> u64 option" where
  "scan P i = (case P i of None \<Rightarrow> None | Some b \<Rightarrow> if b then scan P (i + 1) else Some i)"

declare scan.simps [code]

section \<open>memcpy, memmove, memset, memcmp, memchr\<close>

definition memcpy :: "u64 \<Rightarrow> u64 \<Rightarrow> u64 \<Rightarrow> memory \<Rightarrow> memory" where
  "memcpy destination source len m = fold (copy_byte destination source) [0 ..< unat len] m"

definition memmove :: "u64 \<Rightarrow> u64 \<Rightarrow> u64 \<Rightarrow> memory \<Rightarrow> memory" where
  "memmove d s len m =
     (if d = s \<or> len = 0 then m
      else if d < s then fold (copy_byte d s) [0 ..< unat len] m
      else fold (copy_byte d s) (rev [0 ..< unat len]) m)"

definition memset :: "u64 \<Rightarrow> int \<Rightarrow> u64 \<Rightarrow> memory \<Rightarrow> memory" where
  "memset destination value len m =
     fold (\<lambda>i m. m(destination + of_nat i := word_of_int value)) [0 ..< unat len] m"

definition memcmp :: "u64 \<Rightarrow> u64 \<Rightarrow> u64 \<Rightarrow> memory \<Rightarrow> int" where
  "memcmp left right len m =
     (case find_from (\<lambda>i. m (left + of_nat i) \<noteq> m (right + of_nat i)) 0 (unat len) of
        None \<Rightarrow> 0
      | Some i \<Rightarrow> uint (m (left + of_nat i)) - uint (m (right + of_nat i)))"

definition memchr :: "u64 \<Rightarrow> int \<Rightarrow> u64 \<Rightarrow> memory \<Rightarrow> u64" where
  "memchr s c n m =
     (case find_from (\<lambda>i. m (s + of_nat i) = word_of_int c) 0 (unat n) of
        None \<Rightarrow> 0
      | Some i \<Rightarrow> s + of_nat i)"

definition bzero :: "u64 \<Rightarrow> u64 \<Rightarrow> memory \<Rightarrow> memory" where
  "bzero s n m = (if s \<noteq> 0 \<and> n \<noteq> 0 then memset s 0 n m else m)"

definition bcopy :: "u64 \<Rightarrow> u64 \<Rightarrow> u64 \<Rightarrow> memory \<Rightarrow> memory" where
  "bcopy src dest n m = (if src \<noteq> 0 \<and> dest \<noteq> 0 \<and> n \<noteq> 0 then memmove dest src n m else m)"

definition bcmp :: "u64 \<Rightarrow> u64 \<Rightarrow> u64 \<Rightarrow> memory \<Rightarrow> int" where
  "bcmp s1 s2 n m = (if s1 = 0 \<or> s2 = 0 \<or> n = 0 then 0 else memcmp s1 s2 n m)"

definition memmem :: "u64 \<Rightarrow> u64 \<Rightarrow> u64 \<Rightarrow> u64 \<Rightarrow> memory \<Rightarrow> u64" where
  "memmem haystack haystacklen needle needlelen m =
     (if haystack = 0 \<or> needle = 0 \<or> needlelen = 0 \<or> haystacklen < needlelen
      then (if needlelen = 0 \<and> haystack \<noteq> 0 then haystack else 0)
      else
        let limit = haystacklen - needlelen in
        case find_from (\<lambda>i. m (haystack + of_nat i) = m needle \<and>
               memcmp (haystack + of_nat i) needle needlelen m = 0) 0 (Suc (unat limit)) of
          None \<Rightarrow> 0
        | Some i \<Rightarrow> haystack + of_nat i)"

section \<open>The kernel's memcpy\<close>

text \<open>
  \<^verbatim>\<open>xscore_memcpy\<close> copies single bytes until the destination is aligned, then 8-byte words,
  then the rest. The state of each loop is the two cursors and the remaining length.
\<close>

definition copy_word :: "u64 \<Rightarrow> u64 \<Rightarrow> memory \<Rightarrow> memory" where
  "copy_word output input m = (\<lambda>a. if a - output < 8 then m (input + (a - output)) else m a)"

function copy_head :: "u64 \<Rightarrow> u64 \<Rightarrow> u64 \<Rightarrow> memory \<Rightarrow> u64 \<times> u64 \<times> u64 \<times> memory" where
  "copy_head output input len m =
     (if len \<noteq> 0 \<and> output AND 7 \<noteq> 0
      then copy_head (output + 1) (input + 1) (len - 1) (m(output := m input))
      else (output, input, len, m))"
  by pat_completeness auto
termination
  by (relation "measure (\<lambda>(output, input, len, m). unat len)") (auto simp: word_facts unat_gt_0)

function copy_words :: "u64 \<Rightarrow> u64 \<Rightarrow> u64 \<Rightarrow> memory \<Rightarrow> u64 \<times> u64 \<times> u64 \<times> memory" where
  "copy_words output input len m =
     (if len \<ge> 8
      then copy_words (output + 8) (input + 8) (len - 8) (copy_word output input m)
      else (output, input, len, m))"
  by pat_completeness auto
termination
  by (relation "measure (\<lambda>(output, input, len, m). unat len)")
    (auto simp: unat_sub word_le_nat_alt)

function copy_tail :: "u64 \<Rightarrow> u64 \<Rightarrow> u64 \<Rightarrow> memory \<Rightarrow> memory" where
  "copy_tail output input len m =
     (if len \<noteq> 0 then copy_tail (output + 1) (input + 1) (len - 1) (m(output := m input)) else m)"
  by pat_completeness auto
termination
  by (relation "measure (\<lambda>(output, input, len, m). unat len)") (auto simp: word_facts unat_gt_0)

declare copy_head.simps [simp del] copy_words.simps [simp del] copy_tail.simps [simp del]

definition xscore_memcpy :: "u64 \<Rightarrow> u64 \<Rightarrow> u64 \<Rightarrow> memory \<Rightarrow> memory" where
  "xscore_memcpy destination source len m =
     (let (output, input, len, m) =
        (if (destination XOR source) AND 7 = 0
         then let (output, input, len, m) = copy_head destination source len m
              in copy_words output input len m
         else (destination, source, len, m))
      in copy_tail output input len m)"

section \<open>What the copies do\<close>

text \<open>The \<open>n\<close> bytes at \<open>s\<close>, read from the old store, placed at \<open>d\<close>.\<close>

definition copied :: "u64 \<Rightarrow> u64 \<Rightarrow> nat \<Rightarrow> memory \<Rightarrow> memory" where
  "copied d s n m = (\<lambda>a. if unat (a - d) < n then m (s + (a - d)) else m a)"

definition ahead :: "u64 \<Rightarrow> u64 \<Rightarrow> nat \<Rightarrow> bool" where
  "ahead d s n \<longleftrightarrow> d = s \<or> n \<le> unat (d - s)"

lemma copied_0 [simp]: "copied d s 0 m = m"
  by (simp add: copied_def)

lemma unat_add_below:
  fixes x y :: u64
  shows "unat (x + y) = (if unat x + unat y < 2 ^ 64 then unat x + unat y else unat x + unat y - 2 ^ 64)"
proof -
  have "unat x < 2 ^ 64" "unat y < 2 ^ 64"
    using unat_lt_max64 [of x] unat_lt_max64 [of y] by simp_all
  then show ?thesis
    by (simp add: unat_word_ariths mod_if)
qed

lemma ahead_offset:
  assumes "ahead d s n" "i < n" "n \<le> 2 ^ 64"
  shows "i \<le> unat (s + of_nat i - d)"
proof (cases "d = s")
  case True
  then show ?thesis
    using assms by (simp add: unat_of_nat64)
next
  case False
  then have n: "n \<le> unat (d - s)"
    using assms(1) by (simp add: ahead_def)
  have k: "unat (s - d) = 2 ^ 64 - unat (d - s)"
  proof -
    have "unat (d - s) \<noteq> 0" using False by (simp add: unsigned_eq_0_iff)
    moreover have "unat ((s - d) + (d - s)) = 0" by simp
    ultimately show ?thesis
      unfolding unat_add_below by (simp split: if_splits)
  qed
  have "unat (of_nat i :: u64) = i"
    using assms by (simp add: unat_of_nat64)
  then have "unat ((s - d) + of_nat i) = 2 ^ 64 - unat (d - s) + i"
    using n assms(2) k unat_lt_max64 [of "d - s"] by (simp add: unat_add_below)
  then show ?thesis
    by (simp add: algebra_simps)
qed

lemma copied_keeps_source:
  assumes "ahead d s n" "i < n" "n \<le> 2 ^ 64"
  shows "copied d s i m (s + of_nat i) = m (s + of_nat i)"
  using ahead_offset [OF assms] by (simp add: copied_def)

lemma unat_diff_eq:
  assumes "n < 2 ^ 64"
  shows "unat (a - d) = n \<longleftrightarrow> a = d + (of_nat n :: u64)"
proof
  assume "unat (a - d) = n"
  then have "of_nat (unat (a - d)) = (of_nat n :: u64)" by simp
  then show "a = d + of_nat n"
    by (simp add: algebra_simps)
qed (use assms in \<open>simp add: unat_of_nat64\<close>)

lemma copied_Suc:
  assumes "n < 2 ^ 64"
  shows "copied d s (Suc n) m = (copied d s n m)(d + of_nat n := m (s + of_nat n))"
proof
  fix a
  show "copied d s (Suc n) m a = ((copied d s n m)(d + of_nat n := m (s + of_nat n))) a"
    using unat_diff_eq [OF assms, of a d] by (auto simp: copied_def less_Suc_eq)
qed

lemma copy_forward:
  assumes "ahead d s n" "n \<le> 2 ^ 64"
  shows "k \<le> n \<Longrightarrow> fold (copy_byte d s) [0..<k] m = copied d s k m"
proof (induction k)
  case (Suc k)
  then have "k < 2 ^ 64" using assms by simp
  then have "copied d s (Suc k) m = copy_byte d s k (copied d s k m)"
    using Suc.prems copied_keeps_source [OF assms(1) _ assms(2), of k m]
    unfolding copied_Suc [OF \<open>k < 2 ^ 64\<close>] copy_byte_def by simp
  then show ?case
    using Suc by simp
qed simp

lemma copied_update_far:
  assumes "n < 2 ^ 64" "\<And>i. i < n \<Longrightarrow> s + of_nat i \<noteq> d + of_nat n"
  shows "copied d s n (m(d + of_nat n := v)) = (copied d s n m)(d + of_nat n := v)"
proof
  fix a
  show "copied d s n (m(d + of_nat n := v)) a = ((copied d s n m)(d + of_nat n := v)) a"
  proof (cases "unat (a - d) < n")
    case True
    have "a - d = of_nat (unat (a - d))" by simp
    then have "s + (a - d) \<noteq> d + of_nat n"
      using assms(2) [OF True] by simp
    moreover have "a \<noteq> d + of_nat n"
      using True unat_diff_eq [OF assms(1), of a d] by auto
    ultimately show ?thesis
      using True by (simp add: copied_def)
  next
    case False
    then show ?thesis by (simp add: copied_def)
  qed
qed

lemma copy_backward:
  assumes "ahead s d n" "n \<le> 2 ^ 64"
  shows "fold (copy_byte d s) (rev [0..<n]) m = copied d s n m"
  using assms
proof (induction n arbitrary: m)
  case (Suc n)
  have n: "n < 2 ^ 64" using Suc.prems by simp
  have "s + of_nat i \<noteq> d + of_nat n" if "i < n" for i
  proof
    assume eq: "s + of_nat i = d + of_nat n"
    have "of_nat n - (of_nat i :: u64) = of_nat (n - i)"
      using that by (simp add: of_nat_diff)
    then have "s - d = of_nat (n - i)"
      using eq by (simp add: algebra_simps)
    then have u: "unat (s - d) = n - i"
      using n by (simp add: unat_of_nat64)
    then show False
      using Suc.prems(1) that by (auto simp: ahead_def)
  qed
  moreover have "ahead s d n"
    using Suc.prems(1) by (auto simp: ahead_def)
  ultimately have "copied d s n (copy_byte d s n m) = copied d s (Suc n) m"
    unfolding copied_Suc [OF n] copy_byte_def by (intro copied_update_far [OF n]) blast
  moreover have "fold (copy_byte d s) (rev [0..<n]) (copy_byte d s n m) = copied d s n (copy_byte d s n m)"
    using Suc.IH \<open>ahead s d n\<close> n by simp
  ultimately show ?case
    by simp
qed simp

lemma copied_split:
  assumes "ahead d s (j + k)" "j + k \<le> 2 ^ 64"
  shows "copied (d + of_nat j) (s + of_nat j) k (copied d s j m) = copied d s (j + k) m"
  using assms
proof (induction k)
  case (Suc k)
  have jk: "j + k < 2 ^ 64" "ahead d s (j + k)"
    using Suc.prems by (auto simp: ahead_def)
  have "unat (s + of_nat (j + k) - d) \<ge> j"
    using ahead_offset [of d s "Suc (j + k)" "j + k"] Suc.prems(1) jk(1) by simp
  then have "copied d s j m (s + of_nat (j + k)) = m (s + of_nat (j + k))"
    by (simp add: copied_def)
  moreover have "copied d s (Suc (j + k)) m = (copied d s (j + k) m)(d + of_nat (j + k) := m (s + of_nat (j + k)))"
    by (rule copied_Suc [OF jk(1)])
  moreover have "k < 2 ^ 64" using jk(1) by simp
  ultimately show ?case
    using Suc.IH jk copied_Suc [of k "d + of_nat j" "s + of_nat j" "copied d s j m"]
    by (simp add: add.assoc)
qed simp
text \<open>One byte, one word and the three loops of the kernel's routine.\<close>

lemma copied_byte: "m(d := m s) = copied d s 1 m"
proof
  fix a
  have "unat (a - d) = 0 \<longleftrightarrow> a = d"
    by (simp add: unsigned_eq_0_iff)
  then show "(m(d := m s)) a = copied d s 1 m a"
    by (auto simp: copied_def)
qed

lemma copied_word: "copy_word d s m = copied d s 8 m"
  by (simp add: copy_word_def copied_def word_less_nat_alt)

lemma ahead_step: "ahead d s (j + k) \<Longrightarrow> ahead (d + x) (s + x) k"
  by (auto simp: ahead_def)

lemma copied_then:
  assumes "ahead d s (unat (len :: u64))" "unat l = j" "j \<le> unat len"
  shows "copied (d + l) (s + l) (unat (len - l)) (copied d s j m) = copied d s (unat len) m"
    and "ahead (d + l) (s + l) (unat (len - l))"
proof -
  have d: "unat (len - l) = unat len - j"
    using assms(2,3) by (simp add: unat_sub word_le_nat_alt)
  have l: "l = of_nat j" using assms(2) by auto
  show "ahead (d + l) (s + l) (unat (len - l))"
    using ahead_step [of d s j "unat len - j" l] assms(1,3) by (simp add: d)
  show "copied (d + l) (s + l) (unat (len - l)) (copied d s j m) = copied d s (unat len) m"
    using copied_split [of d s j "unat len - j" m] assms(1,3) unat_lt_max64 [of len]
    unfolding d unfolding l by simp
qed

lemma copy_tail_copied:
  "ahead d s (unat len) \<Longrightarrow> copy_tail d s len m = copied d s (unat len) m"
proof (induction d s len m rule: copy_tail.induct)
  case (1 d s len m)
  show ?case
  proof (cases "len = 0")
    case True
    then show ?thesis using copy_tail.simps [of d s 0 m] by simp
  next
    case False
    then have "1 \<le> unat len" by (simp add: Suc_le_eq unat_gt_0)
    then show ?thesis
      using 1 False copied_then [where d = d and s = s and len = len and l = 1 and j = 1] copied_byte [of m d s]
      by (simp add: copy_tail.simps [of d s len m])
  qed
qed

lemma copy_words_copied:
  assumes "ahead d s (unat len)" "copy_words d s len m = (d', s', len', m')"
  shows "ahead d' s' (unat len') \<and> copied d' s' (unat len') m' = copied d s (unat len) m"
  using assms
proof (induction d s len m rule: copy_words.induct)
  case (1 d s len m)
  show ?case
  proof (cases "8 \<le> len")
    case True
    then have "8 \<le> unat len" by (simp add: word_le_nat_alt)
    then show ?thesis
      using 1 True copied_then [where d = d and s = s and len = len and l = 8 and j = 8]
      by (simp add: copy_words.simps [of d s len m] copied_word)
  next
    case False
    then show ?thesis
      using 1 by (simp add: copy_words.simps [of d s len m])
  qed
qed

lemma copy_head_copied:
  assumes "ahead d s (unat len)" "copy_head d s len m = (d', s', len', m')"
  shows "ahead d' s' (unat len') \<and> copied d' s' (unat len') m' = copied d s (unat len) m"
  using assms
proof (induction d s len m rule: copy_head.induct)
  case (1 d s len m)
  show ?case
  proof (cases "len \<noteq> 0 \<and> d AND 7 \<noteq> 0")
    case True
    then have "1 \<le> unat len" by (simp add: Suc_le_eq unat_gt_0)
    then show ?thesis
      using 1 True copied_then [where d = d and s = s and len = len and l = 1 and j = 1] copied_byte [of m d s]
      by (simp add: copy_head.simps [of d s len m])
  next
    case False
    then have "copy_head d s len m = (d, s, len, m)"
      unfolding copy_head.simps [of d s len m] by auto
    then show ?thesis
      using "1.prems" by simp
  qed
qed

lemma memcpy_copied: "ahead d s (unat len) \<Longrightarrow> memcpy d s len m = copied d s (unat len) m"
  using copy_forward [of d s "unat len" "unat len" m] unat_lt_max64 [of len] by (simp add: memcpy_def)

lemma xscore_memcpy_copied:
  assumes "ahead d s (unat len)"
  shows "xscore_memcpy d s len m = copied d s (unat len) m"
proof -
  obtain d1 s1 l1 m1 where h: "copy_head d s len m = (d1, s1, l1, m1)"
    by (metis prod_cases4)
  obtain d2 s2 l2 m2 where w: "copy_words d1 s1 l1 m1 = (d2, s2, l2, m2)"
    by (metis prod_cases4)
  note H = copy_head_copied [OF assms h]
  note W = copy_words_copied [OF H [THEN conjunct1] w]
  show ?thesis
    using assms H W copy_tail_copied by (simp add: xscore_memcpy_def h w)
qed

text \<open>
  C18. The kernel's \<^verbatim>\<open>xscore_memcpy\<close>, which aligns the destination and then moves 8-byte words,
  leaves the same memory as the byte-by-byte \<^verbatim>\<open>memcpy\<close>, for every alignment, every length and
  every pair of regions in which the destination does not start inside the source.
\<close>

theorem xscore_memcpy_equals_memcpy:
  assumes "destination = source \<or> unat len \<le> unat (destination - source)"
  shows "xscore_memcpy destination source len m = memcpy destination source len m"
  using xscore_memcpy_copied [of destination source len m] memcpy_copied [of destination source len m] assms
  by (simp add: ahead_def)

theorem xscore_memcpy_equals_memcpy_witness:
  "xscore_memcpy 0x1003 0x2003 21 (\<lambda>a. ucast a) = memcpy 0x1003 0x2003 21 (\<lambda>a. ucast a) \<and>
   xscore_memcpy 0x1001 0x2003 21 (\<lambda>a. ucast a) = memcpy 0x1001 0x2003 21 (\<lambda>a. ucast a)"
  using xscore_memcpy_equals_memcpy [of "0x1003" "0x2003" 21 "\<lambda>a. ucast a"]
    xscore_memcpy_equals_memcpy [of "0x1001" "0x2003" 21 "\<lambda>a. ucast a"]
  by simp

text \<open>
  C33. \<^verbatim>\<open>memmove\<close> is right for overlapping regions: when neither region wraps around the address
  space, every byte of the destination holds what the source held before the call and every
  other byte is unchanged.
\<close>

theorem memmove_correct:
  assumes "unat d + unat len \<le> 2 ^ 64" and "unat s + unat len \<le> 2 ^ 64"
  shows "memmove d s len m a =
    (if unat d \<le> unat a \<and> unat a < unat d + unat len then m (s + (a - d)) else m a)"
proof -
  have in_range: "unat (a - d) < unat len \<longleftrightarrow> unat d \<le> unat a \<and> unat a < unat d + unat len"
    using assms(1) unat_lt_max64 [of a] unat_lt_max64 [of d] unat_add_below [of "a - d" d]
      unat_lt_max64 [of "a - d"] by (simp split: if_splits)
  have "ahead d s (unat len)" if "d < s"
  proof -
    have "unat d < unat s" using that by (simp add: word_less_nat_alt)
    then show ?thesis
      using assms unat_add_below [of "d - s" s] unat_lt_max64 [of "d - s"]
      by (simp add: ahead_def split: if_splits)
  qed
  moreover have "ahead s d (unat len)" if "\<not> d < s"
  proof -
    have "unat s \<le> unat d" using that by (simp add: word_less_nat_alt)
    then show ?thesis
      using assms unat_add_below [of "s - d" d] unat_lt_max64 [of "s - d"]
      by (auto simp: ahead_def word_unat_eq_iff split: if_splits)
  qed
  moreover have "copied d s (unat len) m = m" if "d = s \<or> len = 0"
    using that by (auto simp: copied_def fun_eq_iff)
  ultimately have "memmove d s len m = copied d s (unat len) m"
    using copy_forward [of d s "unat len" "unat len" m] copy_backward [of s d "unat len" m] unat_lt_max64 [of len]
    by (auto simp: memmove_def)
  then show ?thesis
    using in_range by (simp add: copied_def)
qed

theorem memmove_correct_witness:
  "memmove 0x1002 0x1000 4 (\<lambda>a. ucast a) 0x1005 = 3 \<and> memmove 0x1002 0x1000 4 (\<lambda>a. ucast a) 0x1006 = 6"
  using memmove_correct [of "0x1002" 4 "0x1000" "\<lambda>a. ucast a" "0x1005"]
    memmove_correct [of "0x1002" 4 "0x1000" "\<lambda>a. ucast a" "0x1006"] by simp

end
