(* ===== verification/User_Copy.thy ===== *)
theory User_Copy
  imports Virtual Physical_Refs C_Memory
begin

unbundle bit_operations_syntax

text \<open>
  Access to user memory, \<^verbatim>\<open>xscore/kernel/usercopy.c\<close>. Before it touches a user range the kernel
  checks every page of it against the page tables and asks the process's fault handler to
  materialise pages that are missing or not writable. The handler
  (\<^verbatim>\<open>xscore_process_handle_page_fault\<close>) is a parameter that may change the page tables; what the
  check relies on is that it takes no access away, \<open>fault_keeps\<close>. The bytes are the store of
  the C model, addressed by virtual address.
\<close>

section \<open>The code\<close>

definition XSCORE_USER_FAULT_WRITE :: u32 where "XSCORE_USER_FAULT_WRITE = 0x01"
definition XSCORE_USER_FAULT_PRESENT :: u32 where "XSCORE_USER_FAULT_PRESENT = 0x02"

type_synonym fault_handler = "u64 \<Rightarrow> u32 \<Rightarrow> vmm \<Rightarrow> bool \<times> vmm"

definition page_writable :: "u64 \<Rightarrow> bool" where
  "page_writable flags \<longleftrightarrow> flags AND XSCORE_PAGE_WRITABLE \<noteq> 0"

text \<open>One iteration of the loop over the pages: whether the page may be used, and the page tables.\<close>

definition prepare_page :: "fault_handler \<Rightarrow> bool \<Rightarrow> u64 \<Rightarrow> vmm \<Rightarrow> bool \<times> vmm" where
  "prepare_page handle_fault write page vm =
     (let mapped = xscore_vmm_is_mapped page vm;
          (handled, mapped, vm) =
            (if mapped = None \<or> (write \<and> \<not> page_writable (the mapped)) then
               let fault_flags = (if write then XSCORE_USER_FAULT_WRITE else 0);
                   fault_flags = (if mapped \<noteq> None then fault_flags OR XSCORE_USER_FAULT_PRESENT else fault_flags);
                   (ok, vm) = handle_fault page fault_flags vm
               in (ok, xscore_vmm_is_mapped page vm, vm)
             else (True, mapped, vm))
      in if \<not> handled then (False, vm)
         else
           case mapped of None \<Rightarrow> (False, vm)
           | Some flags \<Rightarrow> (flags AND XSCORE_PAGE_USER \<noteq> 0 \<and> (write \<longrightarrow> page_writable flags), vm))"

partial_function (option) prepare_pages :: "fault_handler \<Rightarrow> bool \<Rightarrow> u64 \<Rightarrow> u64 \<Rightarrow> vmm \<Rightarrow> (bool \<times> vmm) option" where
  "prepare_pages handle_fault write last_page page vm =
     (let (ok, vm) = prepare_page handle_fault write page vm in
      if \<not> ok then Some (False, vm)
      else if page = last_page then Some (True, vm)
      else if page > -1 - PAGE_SIZE then Some (False, vm)
      else prepare_pages handle_fault write last_page (page + PAGE_SIZE) vm)"

definition xscore_user_range_prepare :: "fault_handler \<Rightarrow> u64 \<Rightarrow> u64 \<Rightarrow> bool \<Rightarrow> vmm \<Rightarrow> (bool \<times> vmm) option" where
  "xscore_user_range_prepare handle_fault address len write vm =
     (if len = 0 then Some (True, vm)
      else if address = 0 \<or> address > -1 - len then Some (False, vm)
      else
        let first_page = address AND NOT (PAGE_SIZE - 1);
            last_page = (address + len - 1) AND NOT (PAGE_SIZE - 1)
        in prepare_pages handle_fault write last_page first_page vm)"

definition xscore_copy_from_user ::
  "fault_handler \<Rightarrow> u64 \<Rightarrow> u64 \<Rightarrow> u64 \<Rightarrow> vmm \<times> memory \<Rightarrow> (bool \<times> vmm \<times> memory) option" where
  "xscore_copy_from_user handle_fault destination source len s =
     (let (vm, m) = s in
      if len = 0 then Some (True, vm, m)
      else if destination = 0 then Some (False, vm, m)
      else
        map_option (\<lambda>(ok, vm). (ok, vm, if ok then xscore_memcpy destination source len m else m))
          (xscore_user_range_prepare handle_fault source len False vm))"

definition xscore_copy_to_user ::
  "fault_handler \<Rightarrow> u64 \<Rightarrow> u64 \<Rightarrow> u64 \<Rightarrow> vmm \<times> memory \<Rightarrow> (bool \<times> vmm \<times> memory) option" where
  "xscore_copy_to_user handle_fault destination source len s =
     (let (vm, m) = s in
      if len = 0 then Some (True, vm, m)
      else if source = 0 then Some (False, vm, m)
      else
        map_option (\<lambda>(ok, vm). (ok, vm, if ok then xscore_memcpy destination source len m else m))
          (xscore_user_range_prepare handle_fault destination len True vm))"

text \<open>
  The loop of \<^verbatim>\<open>xscore_copy_string_from_user\<close>; \<open>i\<close> counts the bytes copied. Each byte is
  copied into a local variable first. The result carries the length that is stored on success.
\<close>

partial_function (option) copy_string_loop ::
  "fault_handler \<Rightarrow> u64 \<Rightarrow> u64 \<Rightarrow> u64 \<Rightarrow> u64 \<Rightarrow> vmm \<Rightarrow> memory \<Rightarrow> (u64 option \<times> vmm \<times> memory) option" where
  "copy_string_loop handle_fault destination capacity source i vm m =
     (if i < capacity then
        (case xscore_user_range_prepare handle_fault (source + i) 1 False vm of None \<Rightarrow> None
         | Some (ok, vm) \<Rightarrow>
             if \<not> ok then Some (None, vm, m)
             else
               let v = m (source + i); m = m(destination + i := v) in
               if v = 0 then Some (Some i, vm, m)
               else copy_string_loop handle_fault destination capacity source (i + 1) vm m)
      else Some (None, vm, m(destination + (capacity - 1) := 0)))"

definition xscore_copy_string_from_user ::
  "fault_handler \<Rightarrow> u64 \<Rightarrow> u64 \<Rightarrow> u64 \<Rightarrow> vmm \<times> memory \<Rightarrow> (u64 option \<times> vmm \<times> memory) option" where
  "xscore_copy_string_from_user handle_fault destination capacity source s =
     (let (vm, m) = s in
      if destination = 0 \<or> capacity = 0 \<or> source = 0 then Some (None, vm, m)
      else copy_string_loop handle_fault destination capacity source 0 vm m)"

section \<open>Pages of a range\<close>

definition page_of :: "u64 \<Rightarrow> u64" where
  "page_of a = a AND NOT (PAGE_SIZE - 1)"

definition accessible :: "bool \<Rightarrow> u64 \<Rightarrow> vmm \<Rightarrow> bool" where
  "accessible write va vm \<longleftrightarrow>
     (case xscore_vmm_is_mapped (page_of va) vm of None \<Rightarrow> False
      | Some flags \<Rightarrow> flags AND XSCORE_PAGE_USER \<noteq> 0 \<and> (write \<longrightarrow> page_writable flags))"

definition fault_keeps :: "fault_handler \<Rightarrow> bool" where
  "fault_keeps handle_fault \<longleftrightarrow>
     (\<forall>page f vm ok vm' write va. handle_fault page f vm = (ok, vm') \<longrightarrow> accessible write va vm \<longrightarrow> accessible write va vm')"

lemma unat_page_of: "unat (page_of a) = unat a div 4096 * 4096"
proof -
  have m: "PAGE_SIZE - 1 = mask 12"
    by (simp add: PAGE_SIZE_def mask_eq_exp_minus_1)
  have "(a AND mask 12) + (a AND NOT (mask 12)) = (a AND mask 12) OR (a AND NOT (mask 12))"
    by (rule disjunctive_add) (auto simp: bit_simps)
  also have "\<dots> = a"
    by (rule bit_word_eqI) (auto simp: bit_simps)
  finally have p: "page_of a = a - (a AND mask 12)"
    by (simp add: page_of_def m algebra_simps)
  have r: "unat (a AND mask 12) = unat a mod 4096"
    unfolding take_bit_eq_mask [symmetric] unsigned_take_bit_eq by (simp add: take_bit_eq_mod)
  then have "a AND mask 12 \<le> a"
    by (simp add: word_le_nat_alt)
  then have "unat (page_of a) = unat a - unat a mod 4096"
    unfolding p r [symmetric] by (rule unat_sub)
  then show ?thesis
    using minus_mod_eq_div_mult [of "unat a" 4096] by simp
qed

lemma page_of_page: "unat page mod 4096 = 0 \<Longrightarrow> page_of page = page"
  by (simp add: word_unat_eq_iff unat_page_of) (metis mult.commute mult_div_mod_eq add.right_neutral)

lemma unat_max_minus: "unat (- 1 - x :: u64) = 2 ^ 64 - 1 - unat x"
proof -
  have "unat (- 1 :: u64) = 2 ^ 64 - 1"
    by (simp add: unsigned_minus_1_eq_mask mask_eq_exp_minus_1)
  then show ?thesis
    using unat_sub [of x "- 1"] by simp
qed

lemma prepare_page_spec:
  assumes keeps: "fault_keeps hf" and page: "unat page mod 4096 = 0" and prep: "prepare_page hf write page vm = (ok, vm')"
  shows "ok \<Longrightarrow> accessible write page vm'" "accessible w va vm \<Longrightarrow> accessible w va vm'"
proof -
  have p: "page_of page = page" by (rule page_of_page [OF page])
  show "accessible write page vm'" if ok
    using prep that by (auto simp: prepare_page_def accessible_def p Let_def split: prod.splits if_splits option.splits)
  show "accessible w va vm'" if a: "accessible w va vm"
  proof -
    have "vm' = vm \<or> (\<exists>f k. hf page f vm = (k, vm'))"
      using prep by (auto simp: prepare_page_def Let_def split: prod.splits if_splits option.splits)
    then show ?thesis
      using keeps a unfolding fault_keeps_def by blast
  qed
qed

lemma prepare_pages_spec:
  assumes keeps: "fault_keeps hf" and page: "unat page mod 4096 = 0" and last_page: "unat last_page = unat page + 4096 * d"
  shows "\<exists>ok vm'. prepare_pages hf write last_page page vm = Some (ok, vm') \<and>
    (ok \<longrightarrow> (\<forall>j \<le> d. accessible write (page + of_nat (4096 * j)) vm')) \<and>
    (\<forall>w va. accessible w va vm \<longrightarrow> accessible w va vm')"
  using page last_page
proof (induction d arbitrary: page vm)
  case 0
  obtain ok vm' where prep: "prepare_page hf write page vm = (ok, vm')" by fastforce
  have "last_page = page"
    using 0 by (simp add: word_unat_eq_iff)
  then have "prepare_pages hf write last_page page vm = Some (ok, vm')"
    by (subst prepare_pages.simps) (simp add: prep)
  then show ?case
    using prepare_page_spec [OF keeps 0(1) prep] by simp
next
  case (Suc d)
  obtain ok vm1 where prep: "prepare_page hf write page vm = (ok, vm1)" by fastforce
  note p = prepare_page_spec [OF keeps Suc.prems(1) prep]
  have top: "unat page + 4096 < 2 ^ 64"
    using Suc.prems(2) unat_lt_max64 [of last_page] by simp
  then have n: "unat (page + PAGE_SIZE) = unat page + 4096"
    by (simp add: PAGE_SIZE_def unat_word_ariths)
  have ne: "page \<noteq> last_page" "\<not> page > -1 - PAGE_SIZE"
    using Suc.prems(2) top by (auto simp: word_less_nat_alt PAGE_SIZE_def unat_max_minus)
  show ?case
  proof (cases ok)
    case False
    then have "prepare_pages hf write last_page page vm = Some (False, vm1)"
      by (subst prepare_pages.simps) (simp add: prep)
    then show ?thesis using p(2) by blast
  next
    case True
    have step: "prepare_pages hf write last_page page vm = prepare_pages hf write last_page (page + PAGE_SIZE) vm1"
      using True ne by (subst prepare_pages.simps) (simp add: prep)
    have "unat (page + PAGE_SIZE) mod 4096 = 0" "unat last_page = unat (page + PAGE_SIZE) + 4096 * d"
      using Suc.prems n by simp_all
    from Suc.IH [OF this, of vm1] obtain ok' vm' where r:
      "prepare_pages hf write last_page (page + PAGE_SIZE) vm1 = Some (ok', vm')"
      "ok' \<Longrightarrow> \<forall>j \<le> d. accessible write (page + PAGE_SIZE + of_nat (4096 * j)) vm'"
      "\<And>w va. accessible w va vm1 \<Longrightarrow> accessible w va vm'" by blast
    have "accessible write (page + of_nat (4096 * j)) vm'" if "ok'" "j \<le> Suc d" for j
    proof (cases j)
      case 0
      then show ?thesis using p(1) True r(3) by simp
    next
      case (Suc k)
      then show ?thesis
        using r(2) that by (simp add: PAGE_SIZE_def add.assoc)
    qed
    then show ?thesis
      using step r(1,3) p(2) by auto
  qed
qed

definition covers :: "bool \<Rightarrow> u64 \<Rightarrow> u64 \<Rightarrow> vmm \<Rightarrow> bool" where
  "covers write address len vm \<longleftrightarrow>
     len = 0 \<or> address \<noteq> 0 \<and> unat address + unat len < 2 ^ 64 \<and>
       (\<forall>a. unat (a - address) < unat len \<longrightarrow> accessible write a vm)"

lemma accessible_page: "page_of a = page_of b \<Longrightarrow> accessible write a vm = accessible write b vm"
  by (simp add: accessible_def)

lemma page_distance: "x * 4096 \<le> y * (4096 :: nat) \<Longrightarrow> y * 4096 = x * 4096 + 4096 * ((y * 4096 - x * 4096) div 4096)"
  by (simp flip: diff_mult_distrib)

lemma range_prepare_spec:
  assumes keeps: "fault_keeps hf"
  shows "\<exists>ok vm'. xscore_user_range_prepare hf address len write vm = Some (ok, vm') \<and>
    (ok \<longrightarrow> covers write address len vm') \<and> (\<forall>w va. accessible w va vm \<longrightarrow> accessible w va vm')"
proof (cases "len = 0 \<or> address = 0 \<or> address > -1 - len")
  case True
  then show ?thesis by (auto simp: xscore_user_range_prepare_def covers_def)
next
  case False
  let ?l = "unat len" and ?a = "unat address"
  define f e where "f = page_of address" and "e = page_of (address + len - 1)"
  have l: "0 < ?l" and wrap: "?a + ?l < 2 ^ 64"
    using False unat_lt_max64 [of len] by (auto simp: word_less_nat_alt unat_max_minus unat_gt_0)
  have "unat (address + len) = ?a + ?l"
    using wrap by (simp add: unat_word_ariths)
  moreover from this have "1 \<le> address + len"
    using l by (simp add: word_le_nat_alt)
  ultimately have fin: "unat (address + len - 1) = ?a + ?l - 1"
    using unat_sub [of 1 "address + len"] by simp
  have uf: "unat f = ?a div 4096 * 4096" and ue: "unat e = (?a + ?l - 1) div 4096 * 4096"
    by (simp_all only: f_def e_def unat_page_of fin)
  have fe: "unat f \<le> unat e"
    unfolding uf ue using l by (intro mult_le_mono1 div_le_mono) simp
  define d where "d = (unat e - unat f) div 4096"
  have ef: "unat e = unat f + 4096 * d"
    using fe unfolding d_def uf ue by (rule page_distance)
  have "unat f mod 4096 = 0"
    by (simp add: uf)
  then obtain ok vm' where r:
    "prepare_pages hf write e f vm = Some (ok, vm')"
    "ok \<Longrightarrow> \<forall>j \<le> d. accessible write (f + of_nat (4096 * j)) vm'"
    "\<forall>w va. accessible w va vm \<longrightarrow> accessible w va vm'"
    using prepare_pages_spec [OF keeps _ ef, of "write" vm] by metis
  have "accessible write a vm'" if ok and a: "unat (a - address) < ?l" for a
  proof -
    have ua: "unat a = ?a + unat (a - address)"
      using a wrap unat_add_below [of "a - address" address] by simp
    define j where "j = unat a div 4096 - ?a div 4096"
    have j: "?a div 4096 \<le> unat a div 4096" "j \<le> d"
      using a l ua unfolding j_def d_def uf ue
      by (auto intro!: div_le_mono diff_le_mono simp flip: diff_mult_distrib)
    have "f + of_nat (4096 * j) = page_of a"
    proof -
      have "unat f + 4096 * j = unat (page_of a)"
        using j(1) by (simp add: j_def uf unat_page_of algebra_simps flip: diff_mult_distrib)
      then have "of_nat (unat (page_of a)) = (of_nat (unat f + 4096 * j) :: u64)"
        by simp
      then show ?thesis by simp
    qed
    moreover have "page_of (page_of a) = page_of a"
      by (rule page_of_page) (simp add: unat_page_of)
    ultimately show ?thesis
      using r(2) \<open>ok\<close> j(2) accessible_page [of "page_of a" a] by metis
  qed
  then have "ok \<longrightarrow> covers write address len vm'"
    using False wrap by (simp add: covers_def)
  moreover have "xscore_user_range_prepare hf address len write vm = Some (ok, vm')"
    using False r(1) by (simp add: xscore_user_range_prepare_def f_def e_def page_of_def Let_def)
  ultimately show ?thesis
    using r(3) by blast
qed

section \<open>Copies\<close>

lemma covers_byte: "covers False a 1 vm \<Longrightarrow> accessible False a vm"
  by (auto simp: covers_def)

definition apart :: "u64 \<Rightarrow> u64 \<Rightarrow> u64 \<Rightarrow> bool" where
  "apart a b n \<longleftrightarrow> n \<le> a - b \<and> n \<le> b - a"

lemma apart_byte:
  assumes "apart d s n" "i < n" "j < n"
  shows "d + i \<noteq> s + j"
proof
  assume eq: "d + i = s + j"
  then have "d - s = j - i" "s - d = i - j" by (simp_all add: algebra_simps diff_eq_eq eq_diff_eq)
  moreover have "i \<le> j \<Longrightarrow> j - i \<le> j" "j \<le> i \<Longrightarrow> i - j \<le> i"
    by (simp_all add: word_le_nat_alt unat_sub)
  moreover have "i \<le> j \<or> j \<le> i" by (rule linear)
  ultimately show False
    using assms unfolding apart_def by (metis leD order.trans)
qed

text \<open>What holds when the loop has copied \<open>i\<close> bytes.\<close>

definition string_prefix :: "u64 \<Rightarrow> u64 \<Rightarrow> memory \<Rightarrow> u64 \<Rightarrow> vmm \<Rightarrow> memory \<Rightarrow> bool" where
  "string_prefix d s m0 i vm m \<longleftrightarrow>
     (\<forall>j < i. accessible False (s + j) vm \<and> m (d + j) = m0 (s + j) \<and> m0 (s + j) \<noteq> 0) \<and>
     (\<forall>a. \<not> a - d < i \<longrightarrow> m a = m0 a)"

lemma string_prefix_step:
  assumes "string_prefix d s m0 i vm m" "apart d s cap" "i < cap"
    and "\<forall>w va. accessible w va vm \<longrightarrow> accessible w va vm'" "accessible False (s + i) vm'"
  shows "m (s + i) = m0 (s + i)"
    "m0 (s + i) \<noteq> 0 \<Longrightarrow> string_prefix d s m0 (i + 1) vm' (m(d + i := m0 (s + i)))"
    "\<forall>j \<le> i. accessible False (s + j) vm' \<and> (m(d + i := m0 (s + i))) (d + j) = m0 (s + j)"
proof -
  have "s + i - d \<ge> i"
  proof (rule ccontr)
    assume "\<not> ?thesis"
    then have "s + i - d < cap" using assms(3) by (meson not_le less_trans)
    then show False
      using apart_byte [OF assms(2) _ assms(3), of "s + i - d"] by simp
  qed
  then show "m (s + i) = m0 (s + i)"
    using assms(1) unfolding string_prefix_def by (meson leD)
  have lt: "j < i + 1 \<longleftrightarrow> j < i \<or> j = i" for j
    using assms(3) unat_lt_max64 [of cap]
    by (auto simp: word_less_nat_alt word_unat_eq_iff unat_word_ariths)
  show "string_prefix d s m0 (i + 1) vm' (m(d + i := m0 (s + i)))" if "m0 (s + i) \<noteq> 0"
    using assms(1,4,5) that unfolding string_prefix_def lt by auto
  show "\<forall>j \<le> i. accessible False (s + j) vm' \<and> (m(d + i := m0 (s + i))) (d + j) = m0 (s + j)"
    using assms(1,4,5) unfolding string_prefix_def by (auto simp: order.order_iff_strict)
qed

lemma copy_string_loop_spec:
  assumes keeps: "fault_keeps hf" and "apart d s cap" "cap \<noteq> 0" "unat cap = unat i + k" "string_prefix d s m0 i vm m"
  shows "\<exists>r vm' m'. copy_string_loop hf d cap s i vm m = Some (r, vm', m') \<and>
    (\<forall>a. \<not> a - d < cap \<longrightarrow> m' a = m0 a) \<and>
    (\<forall>n. r = Some n \<longrightarrow> n < cap \<and> (\<forall>j \<le> n. accessible False (s + j) vm' \<and> m' (d + j) = m0 (s + j)) \<and>
       (\<forall>j < n. m0 (s + j) \<noteq> 0) \<and> m0 (s + n) = 0)"
  using assms(4,5)
proof (induction k arbitrary: i vm m)
  case 0
  then have "i = cap" by (simp add: word_unat_eq_iff)
  moreover have "cap - 1 < cap"
    using assms(3) by (simp add: word_less_nat_alt unat_minus_one unat_gt_0)
  ultimately show ?case
    using 0(2) by (subst copy_string_loop.simps) (auto simp: string_prefix_def)
next
  case (Suc k)
  then have i: "i < cap" by (simp add: word_less_nat_alt)
  obtain ok vm' where r: "xscore_user_range_prepare hf (s + i) 1 False vm = Some (ok, vm')"
    "ok \<Longrightarrow> accessible False (s + i) vm'" "\<forall>w va. accessible w va vm \<longrightarrow> accessible w va vm'"
    using range_prepare_spec [OF keeps, of "s + i" 1 False vm] covers_byte by metis
  show ?case
  proof (cases ok)
    case False
    have "a - d < cap" if "a - d < i" for a
      using that i by (rule less_trans)
    then show ?thesis
      using Suc.prems(2) i False by (subst copy_string_loop.simps) (auto simp: r string_prefix_def)
  next
    case True
    note st = string_prefix_step [OF Suc.prems(2) assms(2) i r(3) r(2) [OF True]]
    show ?thesis
    proof (cases "m0 (s + i) = 0")
      case False
      have "unat cap = unat (i + 1) + k"
        using Suc.prems(1) unat_lt_max64 [of cap] by (simp add: unat_word_ariths)
      note IH = Suc.IH [OF this st(2) [OF False]]
      have "copy_string_loop hf d cap s i vm m = copy_string_loop hf d cap s (i + 1) vm' (m(d + i := m0 (s + i)))"
        using i True False st(1) by (subst copy_string_loop.simps) (simp add: r(1))
      then show ?thesis
        using IH by (simp only:)
    next
      case z: True
      have "a - d < cap" if "a - d < i" for a
        using that i by (rule less_trans)
      then have "\<forall>a. \<not> a - d < cap \<longrightarrow> (m(d + i := m0 (s + i))) a = m0 a"
        using Suc.prems(2) i by (auto simp: string_prefix_def)
      moreover have "\<forall>j < i. m0 (s + j) \<noteq> 0"
        using Suc.prems(2) by (simp add: string_prefix_def)
      ultimately show ?thesis
        using i True z st(1,3) by (subst copy_string_loop.simps) (simp add: r(1))
    qed
  qed
qed

section \<open>The claims\<close>

text \<open>A store in which the user page at \<open>0x400000\<close> is mapped with all rights.\<close>

definition user_demo :: vmm where
  "user_demo = \<lparr>vm_mem = (\<lambda>a. if a = 0x100000 then 0x101007 else if a = 0x101000 then 0x102007
       else if a = 0x102010 then 0x103007 else if a = 0x103000 then 0x200007 else 0),
     vm_pmm = pmm_blank, root_table_address = 0x100000,
     page_table_page_count = 0, cr3 = 0x100000, cr0 = 0, efer = 0, tlb_shootdowns = []\<rparr>"

definition no_fault_handler :: fault_handler where
  "no_fault_handler page f vm = (False, vm)"

lemma no_fault_keeps: "fault_keeps no_fault_handler"
  by (simp add: fault_keeps_def no_fault_handler_def)

lemma user_demo_mapped: "xscore_vmm_is_mapped 0x400000 user_demo = Some 7"
proof -
  have i: "pml4_index 0x400000 = 0" "pdpt_index 0x400000 = 0" "directory_index 0x400000 = 2" "table_index 0x400000 = 0"
    by (simp_all add: pml4_index_def pdpt_index_def directory_index_def table_index_def drop_bit_eq_div)
  have step: "next_level a n False 0 user_demo = (get_entry user_demo a n AND PAGE_ADDRESS_MASK, user_demo)"
    if "present (get_entry user_demo a n)" "\<not> large (get_entry user_demo a n)" for a n
    using that by (simp add: next_level_def Let_def user_def)
  have e: "get_entry user_demo 0x100000 0 = 0x101007" "get_entry user_demo 0x101000 0 = 0x102007"
    "get_entry user_demo 0x102000 2 = 0x103007" "get_entry user_demo 0x103000 0 = 0x200007"
    by (simp_all add: get_entry_def slot_def user_demo_def)
  have "walk_table False 0 0x100000 0x400000 user_demo = (0x103000, user_demo)"
    by (simp add: walk_table_def walk_directory_def i e step present_def large_def XSCORE_PAGE_PRESENT_def
        LARGE_PAGE_FLAG_def PAGE_ADDRESS_MASK_def)
  moreover have "address_is_canonical 0x400000"
    by (simp add: address_is_canonical_def drop_bit_eq_div)
  moreover have "current_root user_demo = 0x100000"
    by (simp add: current_root_def user_demo_def PAGE_ADDRESS_MASK_def)
  ultimately show ?thesis
    by (simp add: xscore_vmm_is_mapped_def xscore_vmm_is_mapped_in_def i e PAGE_SIZE_def
        present_def XSCORE_PAGE_PRESENT_def PAGE_ADDRESS_MASK_def)
qed

lemma user_demo_prepare:
  "xscore_user_range_prepare no_fault_handler 0x400000 8 True user_demo = Some (True, user_demo)"
  "xscore_user_range_prepare no_fault_handler 0x400000 1 False user_demo = Some (True, user_demo)"
  "xscore_user_range_prepare no_fault_handler 0x400001 1 False user_demo = Some (True, user_demo)"
  "xscore_user_range_prepare no_fault_handler 0x400002 1 False user_demo = Some (True, user_demo)"
  by (simp_all add: xscore_user_range_prepare_def PAGE_SIZE_def prepare_pages.simps prepare_page_def user_demo_mapped
      page_writable_def XSCORE_PAGE_WRITABLE_def XSCORE_PAGE_USER_def Let_def)

text \<open>
  C8. A copy to user memory always returns. If it reports success, every byte of the target range
  lies in a page that is mapped for the user and writable, the range does not start at address 0
  and does not wrap, the bytes are those of the source, and nothing else changed. If it
  fails, memory is unchanged.
\<close>

theorem copy_to_user_safe:
  assumes "fault_keeps hf" and "ahead destination source (unat len)"
  shows "\<exists>ok vm' m'. xscore_copy_to_user hf destination source len (vm, m) = Some (ok, vm', m') \<and>
    (if ok then covers True destination len vm' \<and>
       (\<forall>a. m' a = (if unat (a - destination) < unat len then m (source + (a - destination)) else m a))
     else m' = m)"
proof -
  obtain ok vm' where "xscore_user_range_prepare hf destination len True vm = Some (ok, vm')"
    "ok \<Longrightarrow> covers True destination len vm'"
    using range_prepare_spec [OF assms(1)] by metis
  then show ?thesis
    using xscore_memcpy_copied [OF assms(2), of m]
    by (auto simp: xscore_copy_to_user_def copied_def covers_def)
qed

theorem copy_to_user_safe_witness:
  "\<exists>vm' m'. xscore_copy_to_user no_fault_handler 0x400000 0x1000 8 (user_demo, (\<lambda>a. if a = 0x1003 then 9 else 0)) = Some (True, vm', m') \<and>
    covers True 0x400000 8 vm' \<and> m' 0x400003 = 9 \<and> m' 0x400004 = 0"
  using copy_to_user_safe [of no_fault_handler "0x400000" "0x1000" 8 user_demo "\<lambda>a. if a = 0x1003 then 9 else 0"]
  by (auto simp: no_fault_keeps ahead_def xscore_copy_to_user_def user_demo_prepare)

text \<open>
  C9. Copying a string from user memory always returns and writes only inside the destination
  buffer, whatever the user supplies. If it reports length \<open>n\<close>, then \<open>n\<close> is below the capacity,
  the \<open>n\<close> bytes and the terminator are those at the source, none of the \<open>n\<close> bytes is 0, and each of
  them was read from a page that the user may read.
\<close>

theorem copy_string_from_user_safe:
  assumes "fault_keeps hf" and "apart destination source capacity"
  shows "\<exists>r vm' m'. xscore_copy_string_from_user hf destination capacity source (vm, m) = Some (r, vm', m') \<and>
    (\<forall>a. \<not> a - destination < capacity \<longrightarrow> m' a = m a) \<and>
    (\<forall>n. r = Some n \<longrightarrow> n < capacity \<and>
       (\<forall>j \<le> n. accessible False (source + j) vm' \<and> m' (destination + j) = m (source + j)) \<and>
       (\<forall>j < n. m (source + j) \<noteq> 0) \<and> m (source + n) = 0)"
proof (cases "destination = 0 \<or> capacity = 0 \<or> source = 0")
  case False
  have "string_prefix destination source m 0 vm m"
    by (simp add: string_prefix_def)
  from copy_string_loop_spec [OF assms _ _ this, of "unat capacity"] show ?thesis
    using False by (simp add: xscore_copy_string_from_user_def)
qed (auto simp: xscore_copy_string_from_user_def)

theorem copy_string_from_user_safe_witness:
  "\<exists>vm' m'. xscore_copy_string_from_user no_fault_handler 0x1000 16 0x400000
      (user_demo, (\<lambda>_. 0)(0x400000 := 104, 0x400001 := 105)) = Some (Some 2, vm', m') \<and>
     m' 0x1000 = 104 \<and> m' 0x1001 = 105 \<and> m' 0x1002 = 0 \<and> accessible False 0x400001 vm'"
proof -
  let ?m = "(\<lambda>_. 0)(0x400000 := 104, 0x400001 := 105 :: u8)"
  have "\<exists>vm' m'. xscore_copy_string_from_user no_fault_handler 0x1000 16 0x400000 (user_demo, ?m) = Some (Some 2, vm', m')"
    by (simp add: xscore_copy_string_from_user_def copy_string_loop.simps user_demo_prepare Let_def)
  then obtain vm' m' where r:
    "xscore_copy_string_from_user no_fault_handler 0x1000 16 0x400000 (user_demo, ?m) = Some (Some 2, vm', m')"
    by blast
  have "apart 0x1000 0x400000 16" by (simp add: apart_def)
  from copy_string_from_user_safe [OF no_fault_keeps this, of user_demo ?m] r
  have s: "\<forall>j \<le> 2. accessible False (0x400000 + j) vm' \<and> m' (0x1000 + j) = ?m (0x400000 + j)"
    by auto
  show ?thesis
    using r s [rule_format, of 0] s [rule_format, of 1] s [rule_format, of 2] by simp
qed

end
