(* ===== verification/Base_Codecs.thy ===== *)
theory Base_Codecs
  imports Prelude
begin

unbundle bit_operations_syntax

text \<open>
  The \<^verbatim>\<open>base64\<close> and \<^verbatim>\<open>base32\<close> programs, \<^verbatim>\<open>userspace/bin/base64/main.c\<close> and
  \<^verbatim>\<open>userspace/bin/base32/main.c\<close>: the block codecs, the streaming loops over the results of
  \<^verbatim>\<open>read\<close>, and that decoding inverts encoding for every line width and every way the input
  arrives. The two programs have the same loops around different blocks; the loops are
  modelled once, with the block size and the block functions as arguments, and the interface
  between the loops and the blocks is a locale that both codecs interpret.
\<close>

section \<open>The streaming loops\<close>

text \<open>A call of \<^verbatim>\<open>read\<close> fails or delivers bytes (none at the end of the file).\<close>

datatype read_result = Read_Error | Read_Data "u8 list"

text \<open>Standard output and the current column, after one \<^verbatim>\<open>putchar\<close> with the wrapping test.\<close>

definition emit_char :: "int \<Rightarrow> u8 \<Rightarrow> u8 list \<times> int \<Rightarrow> u8 list \<times> int" where
  "emit_char wrap_cols c = (\<lambda>(out, col).
     let out = out @ [c]; col = col + 1
     in if wrap_cols > 0 \<and> col \<ge> wrap_cols then (out @ [10], 0) else (out, col))"

definition emit_block :: "int \<Rightarrow> u8 list \<Rightarrow> u8 list \<times> int \<Rightarrow> u8 list \<times> int" where
  "emit_block wrap_cols block = fold (emit_char wrap_cols) block"

text \<open>
  The \<^verbatim>\<open>while (offset < n)\<close> loop on one buffer. At its head \<^verbatim>\<open>pending_len\<close> is below the block
  size, so each byte goes to \<^verbatim>\<open>pending\<close> and a full block is written out.
\<close>

fun encode_buffer ::
  "nat \<Rightarrow> (u8 list \<Rightarrow> u8 list) \<Rightarrow> int \<Rightarrow> u8 list \<Rightarrow> u8 list \<Rightarrow> u8 list \<times> int \<Rightarrow> u8 list \<times> u8 list \<times> int" where
  "encode_buffer n chunk wrap_cols [] pending outcol = (pending, outcol)"
| "encode_buffer n chunk wrap_cols (b # bs) pending outcol =
     (let pending = pending @ [b] in
      if length pending = n
      then encode_buffer n chunk wrap_cols bs [] (emit_block wrap_cols (chunk pending) outcol)
      else encode_buffer n chunk wrap_cols bs pending outcol)"

definition encode_finish :: "(u8 list \<Rightarrow> u8 list) \<Rightarrow> int \<Rightarrow> u8 list \<Rightarrow> u8 list \<times> int \<Rightarrow> int \<times> u8 list" where
  "encode_finish chunk wrap_cols pending outcol =
     (let (out, col) = (if length pending > 0 then emit_block wrap_cols (chunk pending) outcol else outcol);
          out = (if wrap_cols > 0 \<and> col > 0 then out @ [10]
                 else if wrap_cols = 0 \<and> col > 0 then out @ [10] else out)
      in (0, out))"

fun encode_loop ::
  "nat \<Rightarrow> (u8 list \<Rightarrow> u8 list) \<Rightarrow> int \<Rightarrow> read_result list \<Rightarrow> u8 list \<Rightarrow> u8 list \<times> int \<Rightarrow> int \<times> u8 list" where
  "encode_loop n chunk wrap_cols [] pending outcol = encode_finish chunk wrap_cols pending outcol"
| "encode_loop n chunk wrap_cols (Read_Error # rs) pending outcol = (1, fst outcol)"
| "encode_loop n chunk wrap_cols (Read_Data bs # rs) pending outcol =
     (if bs = [] then encode_finish chunk wrap_cols pending outcol
      else let (pending, outcol) = encode_buffer n chunk wrap_cols bs pending outcol
           in encode_loop n chunk wrap_cols rs pending outcol)"

definition is_blank_char :: "u8 \<Rightarrow> bool" where
  "is_blank_char c \<longleftrightarrow> c = 13 \<or> c = 10 \<or> c = 32 \<or> c = 9"

text \<open>
  The body of the loop over one buffer of the decoder, for one character: \<open>val\<close> is the value of
  a character of the alphabet (negative for the others). The result is the collected block,
  \<^const>\<open>None\<close> for the early return with status 1, and what has been written.
\<close>

definition decode_char ::
  "nat \<Rightarrow> (u8 \<Rightarrow> int) \<Rightarrow> (u8 list \<Rightarrow> u8 list option) \<Rightarrow> bool \<Rightarrow> u8 \<Rightarrow> u8 list \<Rightarrow> u8 list \<Rightarrow>
   u8 list option \<times> u8 list" where
  "decode_char n val block_fn ignore_garbage c block out =
     (if is_blank_char c then (Some block, out)
      else if \<not> (val c \<ge> 0 \<or> c = 61) \<and> \<not> ignore_garbage then (None, out)
      else
        let block = (if val c \<ge> 0 \<or> c = 61 then block @ [c] else block) in
        if length block = n then
          (case block_fn block of
             None \<Rightarrow> (None, out)
           | Some bytes \<Rightarrow> (Some [], out @ bytes))
        else (Some block, out))"

fun decode_buffer ::
  "nat \<Rightarrow> (u8 \<Rightarrow> int) \<Rightarrow> (u8 list \<Rightarrow> u8 list option) \<Rightarrow> bool \<Rightarrow> u8 list \<Rightarrow> u8 list \<Rightarrow> u8 list \<Rightarrow>
   u8 list option \<times> u8 list" where
  "decode_buffer n val block_fn ignore_garbage [] block out = (Some block, out)"
| "decode_buffer n val block_fn ignore_garbage (c # cs) block out =
     (case decode_char n val block_fn ignore_garbage c block out of
        (None, out) \<Rightarrow> (None, out)
      | (Some block, out) \<Rightarrow> decode_buffer n val block_fn ignore_garbage cs block out)"

definition decode_finish :: "u8 list \<Rightarrow> u8 list \<Rightarrow> int \<times> u8 list" where
  "decode_finish block out = (if length block > 0 then 1 else 0, out)"

fun decode_loop ::
  "nat \<Rightarrow> (u8 \<Rightarrow> int) \<Rightarrow> (u8 list \<Rightarrow> u8 list option) \<Rightarrow> bool \<Rightarrow> read_result list \<Rightarrow> u8 list \<Rightarrow> u8 list \<Rightarrow>
   int \<times> u8 list" where
  "decode_loop n val block_fn ignore_garbage [] block out = decode_finish block out"
| "decode_loop n val block_fn ignore_garbage (Read_Error # rs) block out = (1, out)"
| "decode_loop n val block_fn ignore_garbage (Read_Data cs # rs) block out =
     (if cs = [] then decode_finish block out
      else case decode_buffer n val block_fn ignore_garbage cs block out of
             (None, out) \<Rightarrow> (1, out)
           | (Some block, out) \<Rightarrow> decode_loop n val block_fn ignore_garbage rs block out)"

section \<open>Base 64\<close>

definition ascii :: "string \<Rightarrow> u8 list" where
  "ascii s = map of_char s"

definition b64_alphabet :: "u8 list" where
  "b64_alphabet = ascii ''ABCDEFGHIJKLMNOPQRSTUVWXYZabcdefghijklmnopqrstuvwxyz0123456789+/''"

text \<open>Index \<open>i\<close> of the zero-initialised local copy \<^verbatim>\<open>b\<close> of the input.\<close>

definition padded :: "u8 list \<Rightarrow> nat \<Rightarrow> u8" where
  "padded xs i = (if i < length xs then xs ! i else 0)"

definition base64_encode_chunk :: "u8 list \<Rightarrow> u8 list" where
  "base64_encode_chunk xs =
     (let b = padded xs in
      [b64_alphabet ! unat (drop_bit 2 (b 0) AND 0x3f),
       b64_alphabet ! unat ((push_bit 4 (b 0) AND 0x30) OR (drop_bit 4 (b 1) AND 0x0f)),
       if length xs > 1
       then b64_alphabet ! unat ((push_bit 2 (b 1) AND 0x3c) OR (drop_bit 6 (b 2) AND 0x03)) else 61,
       if length xs > 2 then b64_alphabet ! unat (b 2 AND 0x3f) else 61])"

definition b64_val :: "u8 \<Rightarrow> int" where
  "b64_val c =
     (if sint c \<ge> 65 \<and> sint c \<le> 90 then sint c - 65
      else if sint c \<ge> 97 \<and> sint c \<le> 122 then sint c - 97 + 26
      else if sint c \<ge> 48 \<and> sint c \<le> 57 then sint c - 48 + 52
      else if c = 43 then 62
      else if c = 47 then 63
      else -1)"

text \<open>
  The values of the characters of a block, 0 for a pad character, and the position of the
  first pad character; \<^const>\<open>None\<close> when a character has no value.
\<close>

fun block_values :: "(u8 \<Rightarrow> int) \<Rightarrow> nat \<Rightarrow> nat \<Rightarrow> nat \<Rightarrow> u8 list \<Rightarrow> (int list \<times> nat) option" where
  "block_values val n i pad_start [] = Some ([], pad_start)"
| "block_values val n i pad_start (c # cs) =
     (if c = 61 then
        map_option (\<lambda>(vs, p). (0 # vs, p)) (block_values val n (Suc i) (if pad_start = n then i else pad_start) cs)
      else if val c < 0 then None
      else map_option (\<lambda>(vs, p). (val c # vs, p)) (block_values val n (Suc i) pad_start cs))"

definition base64_decode_block :: "u8 list \<Rightarrow> u8 list option" where
  "base64_decode_block xs =
     (case block_values b64_val 4 0 4 xs of
        None \<Rightarrow> None
      | Some (v, pad_start) \<Rightarrow>
          let out = [word_of_int (push_bit 2 (v ! 0) OR drop_bit 4 (v ! 1)),
                     word_of_int (push_bit 4 (v ! 1) OR drop_bit 2 (v ! 2)),
                     word_of_int (push_bit 6 (v ! 2) OR v ! 3)]
          in if pad_start = 2 then Some (take 1 out)
             else if pad_start = 3 then Some (take 2 out)
             else if pad_start = 4 then Some (take 3 out)
             else None)"

definition base64_do_encode :: "int \<Rightarrow> read_result list \<Rightarrow> int \<times> u8 list" where
  "base64_do_encode wrap_cols input = encode_loop 3 base64_encode_chunk wrap_cols input [] ([], 0)"

definition base64_do_decode :: "bool \<Rightarrow> read_result list \<Rightarrow> int \<times> u8 list" where
  "base64_do_decode ignore_garbage input = decode_loop 4 b64_val base64_decode_block ignore_garbage input [] []"

section \<open>Base 32\<close>

definition b32_alphabet :: "u8 list" where
  "b32_alphabet = ascii ''ABCDEFGHIJKLMNOPQRSTUVWXYZ234567''"

definition base32_encode_chunk :: "u8 list \<Rightarrow> u8 list" where
  "base32_encode_chunk xs =
     (let b = padded xs in
      [b32_alphabet ! unat (drop_bit 3 (b 0) AND 0x1f),
       b32_alphabet ! unat ((push_bit 2 (b 0) AND 0x1c) OR (drop_bit 6 (b 1) AND 0x03)),
       if length xs > 1 then b32_alphabet ! unat (drop_bit 1 (b 1) AND 0x1f) else 61,
       if length xs > 1
       then b32_alphabet ! unat ((push_bit 4 (b 1) AND 0x10) OR (drop_bit 4 (b 2) AND 0x0f)) else 61,
       if length xs > 2
       then b32_alphabet ! unat ((push_bit 1 (b 2) AND 0x1e) OR (drop_bit 7 (b 3) AND 0x01)) else 61,
       if length xs > 3 then b32_alphabet ! unat (drop_bit 2 (b 3) AND 0x1f) else 61,
       if length xs > 3
       then b32_alphabet ! unat ((push_bit 3 (b 3) AND 0x18) OR (drop_bit 5 (b 4) AND 0x07)) else 61,
       if length xs > 4 then b32_alphabet ! unat (b 4 AND 0x1f) else 61])"

definition b32_val :: "u8 \<Rightarrow> int" where
  "b32_val c =
     (if sint c \<ge> 65 \<and> sint c \<le> 90 then sint c - 65
      else if sint c \<ge> 97 \<and> sint c \<le> 122 then sint c - 97
      else if sint c \<ge> 50 \<and> sint c \<le> 55 then sint c - 50 + 26
      else -1)"

definition base32_decode_block :: "u8 list \<Rightarrow> u8 list option" where
  "base32_decode_block xs =
     (case block_values b32_val 8 0 8 xs of
        None \<Rightarrow> None
      | Some (v, pad_start) \<Rightarrow>
          let out = [word_of_int (push_bit 3 (v ! 0) OR drop_bit 2 (v ! 1)),
                     word_of_int (push_bit 6 (v ! 1) OR push_bit 1 (v ! 2) OR drop_bit 4 (v ! 3)),
                     word_of_int (push_bit 4 (v ! 3) OR drop_bit 1 (v ! 4)),
                     word_of_int (push_bit 7 (v ! 4) OR push_bit 2 (v ! 5) OR drop_bit 3 (v ! 6)),
                     word_of_int (push_bit 5 (v ! 6) OR v ! 7)]
          in if pad_start = 2 then Some (take 1 out)
             else if pad_start = 4 then Some (take 2 out)
             else if pad_start = 5 then Some (take 3 out)
             else if pad_start = 7 then Some (take 4 out)
             else if pad_start = 8 then Some (take 5 out)
             else None)"

definition base32_do_encode :: "int \<Rightarrow> read_result list \<Rightarrow> int \<times> u8 list" where
  "base32_do_encode wrap_cols input = encode_loop 5 base32_encode_chunk wrap_cols input [] ([], 0)"

definition base32_do_decode :: "bool \<Rightarrow> read_result list \<Rightarrow> int \<times> u8 list" where
  "base32_do_decode ignore_garbage input = decode_loop 8 b32_val base32_decode_block ignore_garbage input [] []"

section \<open>Streams over a block codec\<close>

definition symbols :: "u8 list \<Rightarrow> u8 list" where
  "symbols cs = filter (\<lambda>c. \<not> is_blank_char c) cs"

lemma symbols_simps [simp]:
  "symbols [] = []" "symbols (xs @ ys) = symbols xs @ symbols ys" "symbols [c, 10] = symbols [c]" "symbols [10] = []"
  by (simp_all add: symbols_def is_blank_char_def)

lemma symbols_emit_char: "symbols (fst (emit_char w c oc)) = symbols (fst oc) @ symbols [c]"
  by (cases oc) (simp add: emit_char_def Let_def)

lemma symbols_emit_block: "symbols (fst (emit_block w cs oc)) = symbols (fst oc) @ symbols cs"
proof -
  have "symbols (fst (fold (emit_char w) cs oc)) = symbols (fst oc) @ symbols cs"
  proof (induction cs arbitrary: oc)
    case (Cons c cs)
    have "symbols (c # cs) = symbols [c] @ symbols cs"
      by (simp add: symbols_def)
    then show ?case
      using Cons by (simp add: symbols_emit_char)
  qed simp
  then show ?thesis
    by (simp add: emit_block_def)
qed

lemma decode_buffer_append:
  "decode_buffer n val f g (xs @ ys) b out =
     (case decode_buffer n val f g xs b out of
        (None, out) \<Rightarrow> (None, out)
      | (Some b, out) \<Rightarrow> decode_buffer n val f g ys b out)"
  by (induction xs arbitrary: b out) (simp_all split: option.splits prod.splits)

lemma decode_buffer_symbols:
  "decode_buffer n val f g cs b out = decode_buffer n val f g (symbols cs) b out"
proof (induction cs arbitrary: b out)
  case (Cons c cs)
  show ?case
  proof (cases "is_blank_char c")
    case True
    then show ?thesis
      using Cons by (simp add: symbols_def decode_char_def)
  next
    case False
    then have "symbols (c # cs) = c # symbols cs"
      by (simp add: symbols_def)
    then show ?thesis
      using Cons by (simp split: option.splits prod.splits)
  qed
qed simp

text \<open>How the bytes arrive does not matter.\<close>

lemma decode_loop_concat:
  assumes "\<forall>cs \<in> set css. cs \<noteq> []"
  shows "decode_loop n val f g (map Read_Data css) b out =
    (case decode_buffer n val f g (concat css) b out of
       (None, out) \<Rightarrow> (1, out) | (Some b, out) \<Rightarrow> decode_finish b out)"
  using assms
  by (induction css arbitrary: b out) (auto simp: decode_buffer_append split: option.splits prod.splits)

locale block_codec =
  fixes n m :: nat
    and chunk :: "u8 list \<Rightarrow> u8 list"
    and val :: "u8 \<Rightarrow> int"
    and block_fn :: "u8 list \<Rightarrow> u8 list option"
  assumes sizes: "0 < n" "0 < m"
    and chunk_length: "length (chunk xs) = m"
    and chunk_symbols: "0 < length xs \<Longrightarrow> length xs \<le> n \<Longrightarrow> c \<in> set (chunk xs) \<Longrightarrow>
      (val c \<ge> 0 \<or> c = 61) \<and> \<not> is_blank_char c"
    and block_inverse: "0 < length xs \<Longrightarrow> length xs \<le> n \<Longrightarrow> block_fn (chunk xs) = Some xs"
begin

lemma symbols_chunk: "0 < length xs \<Longrightarrow> length xs \<le> n \<Longrightarrow> symbols (chunk xs) = chunk xs"
  unfolding symbols_def by (rule filter_True) (use chunk_symbols in blast)

lemma decode_partial:
  assumes "\<forall>c \<in> set cs. (val c \<ge> 0 \<or> c = 61) \<and> \<not> is_blank_char c" "length b + length cs \<le> m"
    "cs \<noteq> []" "block_fn (b @ cs) = Some ys" "length b + length cs = m"
  shows "decode_buffer m val block_fn g (cs @ ds) b out = decode_buffer m val block_fn g ds [] (out @ ys)"
  using assms
proof (induction cs arbitrary: b)
  case (Cons c cs)
  show ?case
  proof (cases "cs = []")
    case True
    then show ?thesis
      using Cons.prems by (auto simp: decode_char_def)
  next
    case False
    then have "length b + 1 \<noteq> m"
      using Cons.prems(5) by (cases cs) auto
    then show ?thesis
      using Cons.IH [of "b @ [c]"] Cons.prems False by (auto simp: decode_char_def)
  qed
qed simp

lemma decode_chunk:
  assumes "0 < length xs" "length xs \<le> n"
  shows "decode_buffer m val block_fn g (chunk xs @ ds) [] out = decode_buffer m val block_fn g ds [] (out @ xs)"
proof (rule decode_partial)
  show "\<forall>c\<in>set (chunk xs). (0 \<le> val c \<or> c = 61) \<and> \<not> is_blank_char c"
    using chunk_symbols [OF assms] by blast
  show "chunk xs \<noteq> []"
    using chunk_length [of xs] sizes(2) by auto
qed (use chunk_length block_inverse [OF assms] in simp_all)

lemma decode_chunks:
  assumes "\<forall>xs \<in> set B. 0 < length xs \<and> length xs \<le> n"
  shows "decode_buffer m val block_fn g (concat (map chunk B)) [] out = (Some [], out @ concat B)"
  using assms by (induction B arbitrary: out) (simp_all add: decode_chunk)

text \<open>The encoder cuts what it has read into full blocks and a pending rest.\<close>

lemma encode_buffer_blocks:
  assumes "length p < n"
  shows "\<exists>B p' out col. encode_buffer n chunk w bs p oc = (p', out, col) \<and> length p' < n \<and>
    (\<forall>xs \<in> set B. length xs = n) \<and> p @ bs = concat B @ p' \<and>
    symbols out = symbols (fst oc) @ concat (map chunk B)"
  using assms
proof (induction bs arbitrary: p oc)
  case Nil
  then show ?case
    by (cases oc) (auto intro: exI [of _ "[]"])
next
  case (Cons b bs)
  show ?case
  proof (cases "length (p @ [b]) = n")
    case True
    let ?oc = "emit_block w (chunk (p @ [b])) oc"
    obtain B p' out col where IH: "encode_buffer n chunk w bs [] ?oc = (p', out, col)" "length p' < n"
      "\<forall>xs \<in> set B. length xs = n" "bs = concat B @ p'"
      "symbols out = symbols (fst ?oc) @ concat (map chunk B)"
      using Cons.IH [of "[]" ?oc] sizes(1) by auto
    have "symbols (chunk (p @ [b])) = chunk (p @ [b])"
      using True sizes(1) by (intro symbols_chunk) simp_all
    then show ?thesis
      using IH True
      by (intro exI [of _ "(p @ [b]) # B"] exI [of _ p'] exI [of _ out] exI [of _ col])
        (simp add: symbols_emit_block)
  next
    case False
    then show ?thesis
      using Cons.IH [of "p @ [b]" oc] Cons.prems by auto
  qed
qed

lemma encode_finish_blocks:
  assumes "length p < n"
  shows "\<exists>B out. encode_finish chunk w p oc = (0, out) \<and>
    (\<forall>xs \<in> set B. 0 < length xs \<and> length xs \<le> n) \<and> concat B = p \<and>
    symbols out = symbols (fst oc) @ concat (map chunk B)"
proof -
  obtain out col where oc: "oc = (out, col)" by fastforce
  define nl :: "u8 list \<Rightarrow> int \<Rightarrow> u8 list" where "nl = (\<lambda>out col. if w > 0 \<and> col > 0 then out @ [10] else if w = 0 \<and> col > (0::int) then out @ [10] else out)"
  have nl: "symbols (nl out col) = symbols out" for out col
    by (simp add: nl_def)
  show ?thesis
  proof (cases "p = []")
    case True
    have "encode_finish chunk w p oc = (0, nl out col)"
      by (simp add: encode_finish_def Let_def oc True nl_def)
    then show ?thesis
      using True nl by (intro exI [of _ "[]"] exI [of _ "nl out col"]) (simp add: oc)
  next
    case False
    obtain out' col' where e: "emit_block w (chunk p) oc = (out', col')" by fastforce
    have "symbols out' = symbols out @ chunk p"
      using symbols_emit_block [of w "chunk p" oc] symbols_chunk [of p] assms False oc e by simp
    moreover have "encode_finish chunk w p oc = (0, nl out' col')"
      using False by (simp add: encode_finish_def Let_def e nl_def)
    ultimately show ?thesis
      using False assms nl by (intro exI [of _ "[p]"] exI [of _ "nl out' col'"]) (simp add: oc)
  qed
qed

lemma encode_loop_blocks:
  assumes "\<forall>bs \<in> set bss. bs \<noteq> []" "length p < n"
  shows "\<exists>B out. encode_loop n chunk w (map Read_Data bss) p oc = (0, out) \<and>
    (\<forall>xs \<in> set B. 0 < length xs \<and> length xs \<le> n) \<and> concat B = p @ concat bss \<and>
    symbols out = symbols (fst oc) @ concat (map chunk B)"
  using assms
proof (induction bss arbitrary: p oc)
  case Nil
  then show ?case
    using encode_finish_blocks [of p w oc] by simp
next
  case (Cons bs bss)
  obtain B p' out col where b: "encode_buffer n chunk w bs p oc = (p', out, col)" "length p' < n"
    "\<forall>xs \<in> set B. length xs = n" "p @ bs = concat B @ p'"
    "symbols out = symbols (fst oc) @ concat (map chunk B)"
    using encode_buffer_blocks [OF Cons.prems(2)] by blast
  obtain B' out' where l: "encode_loop n chunk w (map Read_Data bss) p' (out, col) = (0, out')"
    "\<forall>xs \<in> set B'. 0 < length xs \<and> length xs \<le> n" "concat B' = p' @ concat bss"
    "symbols out' = symbols out @ concat (map chunk B')"
    using Cons.IH [of p' "(out, col)"] Cons.prems(1) b(2) by auto
  have "concat (B @ B') = p @ concat (bs # bss)"
    using b(4) l(3) by (simp flip: append_assoc)
  moreover have "\<forall>xs \<in> set (B @ B'). 0 < length xs \<and> length xs \<le> n"
    using b(3) l(2) sizes(1) by auto
  ultimately show ?case
    using b l Cons.prems(1) by (intro exI [of _ "B @ B'"] exI [of _ out']) auto
qed

lemma roundtrip:
  assumes "\<forall>bs \<in> set bss. bs \<noteq> []"
  shows "fst (encode_loop n chunk w (map Read_Data bss) [] ([], 0)) = 0"
    and "\<forall>cs \<in> set css. cs \<noteq> [] \<Longrightarrow> concat css = snd (encode_loop n chunk w (map Read_Data bss) [] ([], 0)) \<Longrightarrow>
      decode_loop m val block_fn g (map Read_Data css) [] [] = (0, concat bss)"
proof -
  obtain B out where e: "encode_loop n chunk w (map Read_Data bss) [] ([], 0) = (0, out)"
    "\<forall>xs \<in> set B. 0 < length xs \<and> length xs \<le> n" "concat B = concat bss" "symbols out = concat (map chunk B)"
    using encode_loop_blocks [OF assms, of "[]" w "([], 0)"] sizes(1) by auto
  show "fst (encode_loop n chunk w (map Read_Data bss) [] ([], 0)) = 0"
    using e(1) by simp
  assume css: "\<forall>cs \<in> set css. cs \<noteq> []"
    "concat css = snd (encode_loop n chunk w (map Read_Data bss) [] ([], 0))"
  have "decode_buffer m val block_fn g (concat css) [] [] = (Some [], concat bss)"
    using decode_chunks [OF e(2), of g "[]"] decode_buffer_symbols [of m val block_fn g out] css(2) e
    by simp
  then show "decode_loop m val block_fn g (map Read_Data css) [] [] = (0, concat bss)"
    by (simp add: decode_loop_concat [OF css(1)] decode_finish_def)
qed

end

section \<open>The two block codecs\<close>

lemma byte_eqI:
  fixes x y :: u8
  assumes "bit x 0 = bit y 0" "bit x 1 = bit y 1" "bit x 2 = bit y 2" "bit x 3 = bit y 3"
    "bit x 4 = bit y 4" "bit x 5 = bit y 5" "bit x 6 = bit y 6" "bit x 7 = bit y 7"
  shows "x = y"
proof (rule bit_word_eqI)
  fix n assume "n < LENGTH(8)"
  then have "n = 0 \<or> n = 1 \<or> n = 2 \<or> n = 3 \<or> n = 4 \<or> n = 5 \<or> n = 6 \<or> n = 7"
    by auto
  then show "bit x n = bit y n"
    using assms by (elim disjE) simp_all
qed

lemma unat_less_mask:
  fixes x :: u8
  assumes "\<And>n. k \<le> n \<Longrightarrow> n < 8 \<Longrightarrow> \<not> bit x n" "k < 8"
  shows "unat x < 2 ^ k"
proof -
  have "take_bit k x = x"
  proof (rule bit_word_eqI)
    fix n assume "n < LENGTH(8)"
    then show "bit (take_bit k x) n = bit x n"
      using assms(1) [of n] by (cases "k \<le> n") (auto simp: bit_take_bit_iff)
  qed
  then have "unat x = unat (take_bit k x)"
    by simp
  also have "\<dots> < 2 ^ k"
    by (simp add: unsigned_take_bit_eq take_bit_nat_eq_self_iff)
  finally show ?thesis .
qed

lemma unat_less_64: "\<not> bit x 6 \<Longrightarrow> \<not> bit x 7 \<Longrightarrow> unat (x :: u8) < 64"
  using unat_less_mask [of 6 x] by (force simp: less_Suc_eq eval_nat_numeral)

lemma unat_less_32: "\<not> bit x 5 \<Longrightarrow> \<not> bit x 6 \<Longrightarrow> \<not> bit x 7 \<Longrightarrow> unat (x :: u8) < 32"
  using unat_less_mask [of 5 x] by (force simp: less_Suc_eq eval_nat_numeral)

lemma b64_alphabet_eq: "b64_alphabet =
  [65,66,67,68,69,70,71,72,73,74,75,76,77,78,79,80,81,82,83,84,85,86,87,88,89,90,
   97,98,99,100,101,102,103,104,105,106,107,108,109,110,111,112,113,114,115,116,117,118,119,120,121,122,
   48,49,50,51,52,53,54,55,56,57,43,47]"
  by (simp add: b64_alphabet_def ascii_def)

lemma b32_alphabet_eq: "b32_alphabet =
  [65,66,67,68,69,70,71,72,73,74,75,76,77,78,79,80,81,82,83,84,85,86,87,88,89,90,50,51,52,53,54,55]"
  by (simp add: b32_alphabet_def ascii_def)

lemma b64_symbol:
  assumes "i < 64"
  shows "b64_val (b64_alphabet ! i) = int i" "b64_alphabet ! i \<noteq> 61" "\<not> is_blank_char (b64_alphabet ! i)"
proof -
  have vals: "map b64_val b64_alphabet = map int [0..<64]"
    by (simp add: b64_alphabet_eq b64_val_def upt_rec)
  have syms: "\<forall>c \<in> set b64_alphabet. c \<noteq> 61 \<and> \<not> is_blank_char c"
    by (simp add: b64_alphabet_eq is_blank_char_def)
  have len: "length b64_alphabet = 64"
    by (simp add: b64_alphabet_eq)
  have "map b64_val b64_alphabet ! i = map int [0..<64] ! i"
    by (simp only: vals)
  then show "b64_val (b64_alphabet ! i) = int i"
    using assms len by simp
  show "b64_alphabet ! i \<noteq> 61" "\<not> is_blank_char (b64_alphabet ! i)"
    using syms assms len by simp_all
qed

lemma b32_symbol:
  assumes "i < 32"
  shows "b32_val (b32_alphabet ! i) = int i" "b32_alphabet ! i \<noteq> 61" "\<not> is_blank_char (b32_alphabet ! i)"
proof -
  have vals: "map b32_val b32_alphabet = map int [0..<32]"
    by (simp add: b32_alphabet_eq b32_val_def upt_rec)
  have syms: "\<forall>c \<in> set b32_alphabet. c \<noteq> 61 \<and> \<not> is_blank_char c"
    by (simp add: b32_alphabet_eq is_blank_char_def)
  have len: "length b32_alphabet = 32"
    by (simp add: b32_alphabet_eq)
  have "map b32_val b32_alphabet ! i = map int [0..<32] ! i"
    by (simp only: vals)
  then show "b32_val (b32_alphabet ! i) = int i"
    using assms len by simp
  show "b32_alphabet ! i \<noteq> 61" "\<not> is_blank_char (b32_alphabet ! i)"
    using syms assms len by simp_all
qed

definition encoded_char :: "(u8 \<Rightarrow> int) \<Rightarrow> u8 \<Rightarrow> bool" where
  "encoded_char val c \<longleftrightarrow> (0 \<le> val c \<or> c = 61) \<and> \<not> is_blank_char c"

lemma encoded_pad: "encoded_char val 61"
  by (simp add: encoded_char_def is_blank_char_def)

lemma b64_encoded: "i < 64 \<Longrightarrow> encoded_char b64_val (b64_alphabet ! i)"
  by (simp add: encoded_char_def b64_symbol)

lemma b32_encoded: "i < 32 \<Longrightarrow> encoded_char b32_val (b32_alphabet ! i)"
  by (simp add: encoded_char_def b32_symbol)

lemma block64_values:
  assumes "unat v0 < 64" "unat v1 < 64" "unat v2 < 64" "unat v3 < 64"
  shows "block_values b64_val 4 0 4 [b64_alphabet ! unat v0, b64_alphabet ! unat v1, b64_alphabet ! unat v2, b64_alphabet ! unat v3] =
      Some ([uint v0, uint v1, uint v2, uint v3], 4)"
    "block_values b64_val 4 0 4 [b64_alphabet ! unat v0, b64_alphabet ! unat v1, b64_alphabet ! unat v2, 61] =
      Some ([uint v0, uint v1, uint v2, 0], 3)"
    "block_values b64_val 4 0 4 [b64_alphabet ! unat v0, b64_alphabet ! unat v1, 61, 61] =
      Some ([uint v0, uint v1, 0, 0], 2)"
  using assms by (simp_all add: b64_symbol)

lemma base64_bits:
  fixes b0 b1 b2 :: u8
  shows "word_of_int (push_bit 2 (uint (drop_bit 2 b0 AND 0x3f)) OR
       drop_bit 4 (uint ((push_bit 4 b0 AND 0x30) OR (drop_bit 4 b1 AND 0x0f)))) = b0"
    "word_of_int (push_bit 4 (uint ((push_bit 4 b0 AND 0x30) OR (drop_bit 4 b1 AND 0x0f))) OR
       drop_bit 2 (uint ((push_bit 2 b1 AND 0x3c) OR (drop_bit 6 b2 AND 0x03)))) = b1"
    "word_of_int (push_bit 6 (uint ((push_bit 2 b1 AND 0x3c) OR (drop_bit 6 b2 AND 0x03))) OR
       uint (b2 AND 0x3f)) = b2"
  by (rule byte_eqI; simp add: bit_simps)+

lemma base64_indices:
  fixes b0 b1 b2 :: u8
  shows "unat (drop_bit 2 b0 AND 0x3f) < 64"
    "unat ((push_bit 4 b0 AND 0x30) OR (drop_bit 4 b1 AND 0x0f)) < 64"
    "unat ((push_bit 2 b1 AND 0x3c) OR (drop_bit 6 b2 AND 0x03)) < 64"
    "unat (b2 AND 0x3f) < 64"
  by (rule unat_less_64; simp add: bit_simps)+

lemma padded_lists:
  "length xs = 1 \<Longrightarrow> [padded xs 0] = xs"
  "length xs = 2 \<Longrightarrow> [padded xs 0, padded xs 1] = xs"
  "length xs = 3 \<Longrightarrow> [padded xs 0, padded xs 1, padded xs 2] = xs"
  "length xs = 4 \<Longrightarrow> [padded xs 0, padded xs 1, padded xs 2, padded xs 3] = xs"
  "length xs = 5 \<Longrightarrow> [padded xs 0, padded xs 1, padded xs 2, padded xs 3, padded xs 4] = xs"
  by (auto simp: padded_def length_Suc_conv eval_nat_numeral)

lemma base64_block_inverse:
  assumes "0 < length xs" "length xs \<le> 3"
  shows "base64_decode_block (base64_encode_chunk xs) = Some xs"
proof -
  define b where "b = padded xs"
  define u0 where "u0 = drop_bit 2 (b 0) AND 0x3f"
  define u1 where "u1 = (push_bit 4 (b 0) AND 0x30) OR (drop_bit 4 (b 1) AND 0x0f)"
  define u2 where "u2 = (push_bit 2 (b 1) AND 0x3c) OR (drop_bit 6 (b 2) AND 0x03)"
  define u3 where "u3 = b 2 AND 0x3f"
  note u = u0_def u1_def u2_def u3_def
  have chunk: "base64_encode_chunk xs = [b64_alphabet ! unat u0, b64_alphabet ! unat u1,
      if length xs > 1 then b64_alphabet ! unat u2 else 61, if length xs > 2 then b64_alphabet ! unat u3 else 61]"
    unfolding base64_encode_chunk_def Let_def u b_def by (rule refl)
  have lt: "unat u0 < 64" "unat u1 < 64" "unat u2 < 64" "unat u3 < 64"
    using base64_indices by (simp_all add: u)
  have out: "word_of_int (push_bit 2 (uint u0) OR drop_bit 4 (uint u1)) = b 0"
    "word_of_int (push_bit 4 (uint u1) OR drop_bit 2 (uint u2)) = b 1"
    "word_of_int (push_bit 6 (uint u2) OR uint u3) = b 2"
    unfolding u by (rule base64_bits)+
  consider "length xs = 1" | "length xs = 2" | "length xs = 3"
    using assms by linarith
  then show ?thesis
  proof cases
    case 1
    then show ?thesis
      using block64_values(3) [OF lt] out(1) padded_lists(1) [OF 1]
      by (simp add: base64_decode_block_def chunk Let_def b_def del: block_values.simps)
  next
    case 2
    then show ?thesis
      using block64_values(2) [OF lt] out(1,2) padded_lists(2) [OF 2]
      by (simp add: base64_decode_block_def chunk Let_def b_def numeral_2_eq_2 del: block_values.simps)
  next
    case 3
    then show ?thesis
      using block64_values(1) [OF lt] out padded_lists(3) [OF 3]
      by (simp add: base64_decode_block_def chunk Let_def b_def eval_nat_numeral del: block_values.simps)
  qed
qed

interpretation base64: block_codec 3 4 base64_encode_chunk b64_val base64_decode_block
proof
  show "length (base64_encode_chunk xs) = 4" for xs
    by (simp add: base64_encode_chunk_def Let_def)
  show "(0 \<le> b64_val c \<or> c = 61) \<and> \<not> is_blank_char c" if "c \<in> set (base64_encode_chunk xs)" for xs c
  proof -
    have "\<forall>c \<in> set (base64_encode_chunk xs). encoded_char b64_val c"
      by (simp add: base64_encode_chunk_def Let_def base64_indices b64_encoded encoded_pad del: set_append)
    then show ?thesis
      using that by (simp add: encoded_char_def)
  qed
qed (simp_all add: base64_block_inverse)

text \<open>
  C26. Base 64 round trip: encoding succeeds, and decoding what the encoder wrote gives back the
  input, for every line width, with or without \<^verbatim>\<open>--ignore-garbage\<close>, and however the input and
  the encoded text are cut into non-empty reads.
\<close>

theorem base64_roundtrip:
  assumes "\<forall>bs \<in> set bss. bs \<noteq> []" and "\<forall>cs \<in> set css. cs \<noteq> []"
    and "base64_do_encode wrap_cols (map Read_Data bss) = (r, concat css)"
  shows "r = 0 \<and> base64_do_decode g (map Read_Data css) = (0, concat bss)"
  using base64.roundtrip(1) [OF assms(1), of wrap_cols] base64.roundtrip(2) [OF assms(1,2), of wrap_cols g] assms(3)
  by (simp add: base64_do_encode_def base64_do_decode_def)

theorem base64_roundtrip_witness:
  "base64_do_encode 76 [Read_Data [77, 97], Read_Data [110, 33]] = (0, ascii ''TWFuIQ=='' @ [10]) \<and>
   base64_do_decode False [Read_Data (ascii ''TWFu''), Read_Data (ascii ''IQ=='' @ [10])] = (0, [77, 97, 110, 33])"
proof -
  have enc: "base64_do_encode 76 (map Read_Data [[77, 97], [110, 33]]) =
      (0, concat [ascii ''TWFu'', ascii ''IQ=='' @ [10]])"
    by (simp add: base64_do_encode_def encode_finish_def emit_block_def emit_char_def base64_encode_chunk_def
        padded_def b64_alphabet_eq ascii_def Let_def)
  show ?thesis
    using base64_roundtrip [OF _ _ enc, of False] enc by (simp add: ascii_def)
qed

lemma base32_bits:
  fixes b0 b1 b2 b3 b4 :: u8
  shows "word_of_int (push_bit 3 (uint (drop_bit 3 b0 AND 0x1f)) OR
       drop_bit 2 (uint ((push_bit 2 b0 AND 0x1c) OR (drop_bit 6 b1 AND 0x03)))) = b0"
    "word_of_int (push_bit 6 (uint ((push_bit 2 b0 AND 0x1c) OR (drop_bit 6 b1 AND 0x03))) OR
       push_bit 1 (uint (drop_bit 1 b1 AND 0x1f)) OR
       drop_bit 4 (uint ((push_bit 4 b1 AND 0x10) OR (drop_bit 4 b2 AND 0x0f)))) = b1"
    "word_of_int (push_bit 4 (uint ((push_bit 4 b1 AND 0x10) OR (drop_bit 4 b2 AND 0x0f))) OR
       drop_bit 1 (uint ((push_bit 1 b2 AND 0x1e) OR (drop_bit 7 b3 AND 0x01)))) = b2"
    "word_of_int (push_bit 7 (uint ((push_bit 1 b2 AND 0x1e) OR (drop_bit 7 b3 AND 0x01))) OR
       push_bit 2 (uint (drop_bit 2 b3 AND 0x1f)) OR
       drop_bit 3 (uint ((push_bit 3 b3 AND 0x18) OR (drop_bit 5 b4 AND 0x07)))) = b3"
    "word_of_int (push_bit 5 (uint ((push_bit 3 b3 AND 0x18) OR (drop_bit 5 b4 AND 0x07))) OR
       uint (b4 AND 0x1f)) = b4"
  by (rule byte_eqI; simp add: bit_simps del: push_bit_Suc; simp add: eval_nat_numeral)+

lemma base32_indices:
  fixes b0 b1 b2 b3 b4 :: u8
  shows "unat (drop_bit 3 b0 AND 0x1f) < 32"
    "unat ((push_bit 2 b0 AND 0x1c) OR (drop_bit 6 b1 AND 0x03)) < 32"
    "unat (drop_bit 1 b1 AND 0x1f) < 32"
    "unat ((push_bit 4 b1 AND 0x10) OR (drop_bit 4 b2 AND 0x0f)) < 32"
    "unat ((push_bit 1 b2 AND 0x1e) OR (drop_bit 7 b3 AND 0x01)) < 32"
    "unat (drop_bit 2 b3 AND 0x1f) < 32"
    "unat ((push_bit 3 b3 AND 0x18) OR (drop_bit 5 b4 AND 0x07)) < 32"
    "unat (b4 AND 0x1f) < 32"
  by (rule unat_less_32; simp add: bit_simps)+

lemma block32_values:
  assumes "unat v0 < 32" "unat v1 < 32" "unat v2 < 32" "unat v3 < 32" "unat v4 < 32" "unat v5 < 32"
    "unat v6 < 32" "unat v7 < 32"
  defines "a \<equiv> \<lambda>v. b32_alphabet ! unat v"
  shows "block_values b32_val 8 0 8 [a v0, a v1, a v2, a v3, a v4, a v5, a v6, a v7] =
      Some ([uint v0, uint v1, uint v2, uint v3, uint v4, uint v5, uint v6, uint v7], 8)"
    "block_values b32_val 8 0 8 [a v0, a v1, a v2, a v3, a v4, a v5, a v6, 61] =
      Some ([uint v0, uint v1, uint v2, uint v3, uint v4, uint v5, uint v6, 0], 7)"
    "block_values b32_val 8 0 8 [a v0, a v1, a v2, a v3, a v4, 61, 61, 61] =
      Some ([uint v0, uint v1, uint v2, uint v3, uint v4, 0, 0, 0], 5)"
    "block_values b32_val 8 0 8 [a v0, a v1, a v2, a v3, 61, 61, 61, 61] =
      Some ([uint v0, uint v1, uint v2, uint v3, 0, 0, 0, 0], 4)"
    "block_values b32_val 8 0 8 [a v0, a v1, 61, 61, 61, 61, 61, 61] =
      Some ([uint v0, uint v1, 0, 0, 0, 0, 0, 0], 2)"
  using assms by (simp_all add: b32_symbol a_def)

lemma base32_block_inverse:
  assumes "0 < length xs" "length xs \<le> 5"
  shows "base32_decode_block (base32_encode_chunk xs) = Some xs"
proof -
  define b where "b = padded xs"
  define u0 where "u0 = drop_bit 3 (b 0) AND 0x1f"
  define u1 where "u1 = (push_bit 2 (b 0) AND 0x1c) OR (drop_bit 6 (b 1) AND 0x03)"
  define u2 where "u2 = drop_bit 1 (b 1) AND 0x1f"
  define u3 where "u3 = (push_bit 4 (b 1) AND 0x10) OR (drop_bit 4 (b 2) AND 0x0f)"
  define u4 where "u4 = (push_bit 1 (b 2) AND 0x1e) OR (drop_bit 7 (b 3) AND 0x01)"
  define u5 where "u5 = drop_bit 2 (b 3) AND 0x1f"
  define u6 where "u6 = (push_bit 3 (b 3) AND 0x18) OR (drop_bit 5 (b 4) AND 0x07)"
  define u7 where "u7 = b 4 AND 0x1f"
  note u = u0_def u1_def u2_def u3_def u4_def u5_def u6_def u7_def
  have chunk: "base32_encode_chunk xs = [b32_alphabet ! unat u0, b32_alphabet ! unat u1,
      if length xs > 1 then b32_alphabet ! unat u2 else 61, if length xs > 1 then b32_alphabet ! unat u3 else 61,
      if length xs > 2 then b32_alphabet ! unat u4 else 61, if length xs > 3 then b32_alphabet ! unat u5 else 61,
      if length xs > 3 then b32_alphabet ! unat u6 else 61, if length xs > 4 then b32_alphabet ! unat u7 else 61]"
    unfolding base32_encode_chunk_def Let_def u b_def by (rule refl)
  have lt: "unat u0 < 32" "unat u1 < 32" "unat u2 < 32" "unat u3 < 32" "unat u4 < 32" "unat u5 < 32"
    "unat u6 < 32" "unat u7 < 32"
    unfolding u by (rule base32_indices)+
  have out: "word_of_int (push_bit 3 (uint u0) OR drop_bit 2 (uint u1)) = b 0"
    "word_of_int (push_bit 6 (uint u1) OR push_bit 1 (uint u2) OR drop_bit 4 (uint u3)) = b 1"
    "word_of_int (push_bit 4 (uint u3) OR drop_bit 1 (uint u4)) = b 2"
    "word_of_int (push_bit 7 (uint u4) OR push_bit 2 (uint u5) OR drop_bit 3 (uint u6)) = b 3"
    "word_of_int (push_bit 5 (uint u6) OR uint u7) = b 4"
    unfolding u by (rule base32_bits)+
  note vals = block32_values [OF lt]
  consider "length xs = 1" | "length xs = 2" | "length xs = 3" | "length xs = 4" | "length xs = 5"
    using assms by linarith
  then show ?thesis
  proof cases
    case 1
    show ?thesis
      using vals(5) out(1) padded_lists(1) [OF 1]
      by (simp add: base32_decode_block_def chunk 1 Let_def b_def del: block_values.simps)
  next
    case 2
    show ?thesis
      using vals(4) out(1,2) padded_lists(2) [OF 2]
      by (simp add: base32_decode_block_def chunk 2 Let_def b_def numeral_2_eq_2 del: block_values.simps)
  next
    case 3
    show ?thesis
      using vals(3) out(1-3) padded_lists(3) [OF 3]
      by (simp add: base32_decode_block_def chunk 3 Let_def b_def eval_nat_numeral del: block_values.simps)
  next
    case 4
    show ?thesis
      using vals(2) out(1-4) padded_lists(4) [OF 4]
      by (simp add: base32_decode_block_def chunk 4 Let_def b_def eval_nat_numeral del: block_values.simps)
  next
    case 5
    show ?thesis
      using vals(1) out padded_lists(5) [OF 5]
      by (simp add: base32_decode_block_def chunk 5 Let_def b_def eval_nat_numeral del: block_values.simps)
  qed
qed

interpretation base32: block_codec 5 8 base32_encode_chunk b32_val base32_decode_block
proof
  show "length (base32_encode_chunk xs) = 8" for xs
    by (simp add: base32_encode_chunk_def Let_def)
  show "(0 \<le> b32_val c \<or> c = 61) \<and> \<not> is_blank_char c" if "c \<in> set (base32_encode_chunk xs)" for xs c
  proof -
    have "\<forall>c \<in> set (base32_encode_chunk xs). encoded_char b32_val c"
      by (simp add: base32_encode_chunk_def Let_def base32_indices b32_encoded encoded_pad del: set_append push_bit_Suc One_nat_def)
    then show ?thesis
      using that by (simp add: encoded_char_def)
  qed
qed (simp_all add: base32_block_inverse)

text \<open>
  Base 32 round trip, as for base 64: encoding succeeds and decoding what the encoder wrote
  gives back the input, for every line width and every way the data is cut into reads.
\<close>

lemma base32_roundtrip:
  assumes "\<forall>bs \<in> set bss. bs \<noteq> []" and "\<forall>cs \<in> set css. cs \<noteq> []"
    and "base32_do_encode wrap_cols (map Read_Data bss) = (r, concat css)"
  shows "r = 0 \<and> base32_do_decode g (map Read_Data css) = (0, concat bss)"
  using base32.roundtrip(1) [OF assms(1), of wrap_cols] base32.roundtrip(2) [OF assms(1,2), of wrap_cols g] assms(3)
  by (simp add: base32_do_encode_def base32_do_decode_def)

lemma base32_roundtrip_witness:
  "base32_do_encode 0 [Read_Data [77, 97, 110]] = (0, ascii ''JVQW4==='' @ [10]) \<and>
   base32_do_decode True [Read_Data (ascii ''JVQW4===''), Read_Data [10]] = (0, [77, 97, 110])"
proof -
  have enc: "base32_do_encode 0 (map Read_Data [[77, 97, 110]]) = (0, concat [ascii ''JVQW4==='', [10]])"
    by (simp add: base32_do_encode_def encode_finish_def emit_block_def emit_char_def base32_encode_chunk_def
        padded_def b32_alphabet_eq ascii_def Let_def)
  show ?thesis
    using base32_roundtrip [OF _ _ enc, of True] enc by (simp add: ascii_def)
qed

end
