(* ===== verification/C_String.thy ===== *)
theory C_String
  imports C_Memory "HOL-Library.List_Lexorder" "HOL-Library.Sublist"
begin

unbundle bit_operations_syntax

text \<open>
  The C strings of \<^verbatim>\<open>userspace/libc/src/string.c\<close> over the byte store: character classes,
  length, comparison, search, copying, tokens and path names. A function that loops on the
  store returns an option, \<^const>\<open>None\<close> for a loop that does not end (no terminator); the
  lemmas show that each of them returns on terminated strings and what it returns.
\<close>

section \<open>Character classes\<close>

definition ascii_lower :: "int \<Rightarrow> int" where
  "ascii_lower c = (if c \<ge> 65 \<and> c \<le> 90 then c + 32 else c)"

definition isalnum :: "int \<Rightarrow> bool" where
  "isalnum c \<longleftrightarrow> (c \<ge> 48 \<and> c \<le> 57) \<or> (ascii_lower c \<ge> 97 \<and> ascii_lower c \<le> 122)"

definition isalpha :: "int \<Rightarrow> bool" where
  "isalpha c \<longleftrightarrow> (let c = ascii_lower c in c \<ge> 97 \<and> c \<le> 122)"

definition isblank :: "int \<Rightarrow> bool" where "isblank c \<longleftrightarrow> c = 32 \<or> c = 9"

definition iscntrl :: "int \<Rightarrow> bool" where "iscntrl c \<longleftrightarrow> (c \<ge> 0 \<and> c < 0x20) \<or> c = 0x7f"

definition isdigit :: "int \<Rightarrow> bool" where "isdigit c \<longleftrightarrow> c \<ge> 48 \<and> c \<le> 57"

definition isgraph :: "int \<Rightarrow> bool" where "isgraph c \<longleftrightarrow> c > 0x20 \<and> c < 0x7f"

definition islower :: "int \<Rightarrow> bool" where "islower c \<longleftrightarrow> c \<ge> 97 \<and> c \<le> 122"

definition isprint :: "int \<Rightarrow> bool" where "isprint c \<longleftrightarrow> c \<ge> 0x20 \<and> c < 0x7f"

definition ispunct :: "int \<Rightarrow> bool" where "ispunct c \<longleftrightarrow> isgraph c \<and> \<not> isalnum c"

definition isspace :: "int \<Rightarrow> bool" where
  "isspace c \<longleftrightarrow> c = 32 \<or> c = 9 \<or> c = 10 \<or> c = 13 \<or> c = 11 \<or> c = 12"

definition isupper :: "int \<Rightarrow> bool" where "isupper c \<longleftrightarrow> c \<ge> 65 \<and> c \<le> 90"

definition isxdigit :: "int \<Rightarrow> bool" where
  "isxdigit c \<longleftrightarrow> isdigit c \<or> (ascii_lower c \<ge> 97 \<and> ascii_lower c \<le> 102)"

definition tolower :: "int \<Rightarrow> int" where "tolower c = ascii_lower c"

definition isascii :: "int \<Rightarrow> bool" where "isascii c \<longleftrightarrow> c AND NOT 0x7f = 0"

definition toascii :: "int \<Rightarrow> int" where "toascii c = c AND 0x7f"

definition toupper :: "int \<Rightarrow> int" where
  "toupper c = (if c \<ge> 97 \<and> c \<le> 122 then c - 32 else c)"

section \<open>Length and spans\<close>

definition strlen :: "u64 \<Rightarrow> memory \<Rightarrow> u64 option" where
  "strlen text m = scan (\<lambda>i. Some (m (text + i) \<noteq> 0)) 0"

definition strnlen :: "u64 \<Rightarrow> u64 \<Rightarrow> memory \<Rightarrow> u64 option" where
  "strnlen text maximum_length m =
     (if text = 0 then Some 0
      else scan (\<lambda>i. Some (i < maximum_length \<and> m (text + i) \<noteq> 0)) 0)"

text \<open>The inner loop of the span functions: the first place of the set that holds \<open>c\<close>, or its end.\<close>

definition candidate :: "u64 \<Rightarrow> u8 \<Rightarrow> memory \<Rightarrow> u64 option" where
  "candidate set_text c m = scan (\<lambda>k. Some (m k \<noteq> 0 \<and> m k \<noteq> c)) set_text"

definition strspn :: "u64 \<Rightarrow> u64 \<Rightarrow> memory \<Rightarrow> u64 option" where
  "strspn text accept m =
     (if text = 0 \<or> accept = 0 then Some 0
      else scan (\<lambda>i. if m (text + i) = 0 then Some False
                     else map_option (\<lambda>k. m k \<noteq> 0) (candidate accept (m (text + i)) m)) 0)"

definition strcspn :: "u64 \<Rightarrow> u64 \<Rightarrow> memory \<Rightarrow> u64 option" where
  "strcspn text reject m =
     (if text = 0 \<or> reject = 0 then Some 0
      else scan (\<lambda>i. if m (text + i) = 0 then Some False
                     else map_option (\<lambda>k. m k = 0) (candidate reject (m (text + i)) m)) 0)"

definition strpbrk :: "u64 \<Rightarrow> u64 \<Rightarrow> memory \<Rightarrow> u64 option" where
  "strpbrk text accept m =
     (if text = 0 \<or> accept = 0 then Some 0
      else map_option (\<lambda>t. if m t = 0 then 0 else t)
             (scan (\<lambda>t. if m t = 0 then Some False
                        else map_option (\<lambda>k. m k = 0) (candidate accept (m t) m)) text))"

section \<open>Tokens\<close>

text \<open>
  The pointer variable behind \<^verbatim>\<open>char **stringp\<close> is a value that is passed and returned,
  \<^const>\<open>None\<close> for a null \<^verbatim>\<open>stringp\<close>. The result is the token, the new value and the store.
\<close>

definition strsep :: "u64 option \<Rightarrow> u64 \<Rightarrow> memory \<Rightarrow> (u64 \<times> u64 option \<times> memory) option" where
  "strsep stringp delimiters m =
     (case stringp of
        None \<Rightarrow> Some (0, None, m)
      | Some token \<Rightarrow>
          if token = 0 \<or> delimiters = 0 then Some (0, Some token, m)
          else map_option (\<lambda>cursor. if m cursor = 0 then (token, Some 0, m)
                                    else (token, Some (cursor + 1), m(cursor := 0)))
                 (scan (\<lambda>t. if m t = 0 then Some False
                            else map_option (\<lambda>k. m k = 0) (candidate delimiters (m t) m)) token))"

definition strtok_r :: "u64 \<Rightarrow> u64 \<Rightarrow> u64 option \<Rightarrow> memory \<Rightarrow> (u64 \<times> u64 option \<times> memory) option" where
  "strtok_r text delimiters save_pointer m =
     (case save_pointer of
        None \<Rightarrow> Some (0, None, m)
      | Some save \<Rightarrow>
          if delimiters = 0 then Some (0, Some save, m)
          else
            let cursor = (if text \<noteq> 0 then text else save) in
            if cursor = 0 then Some (0, Some save, m)
            else
              case strspn cursor delimiters m of None \<Rightarrow> None | Some skip \<Rightarrow>
              let cursor = cursor + skip in
              if m cursor = 0 then Some (0, Some cursor, m)
              else
                case strcspn cursor delimiters m of None \<Rightarrow> None | Some len \<Rightarrow>
                let e = cursor + len in
                if m e \<noteq> 0 then Some (cursor, Some (e + 1), m(e := 0))
                else Some (cursor, Some e, m))"

section \<open>Comparison\<close>

definition strcmp :: "u64 \<Rightarrow> u64 \<Rightarrow> memory \<Rightarrow> int option" where
  "strcmp left right m =
     map_option (\<lambda>i. uint (m (left + i)) - uint (m (right + i)))
       (scan (\<lambda>i. Some (m (left + i) \<noteq> 0 \<and> m (left + i) = m (right + i))) 0)"

definition strcoll :: "u64 \<Rightarrow> u64 \<Rightarrow> memory \<Rightarrow> int option" where
  "strcoll left right m = strcmp left right m"

definition strcasecmp :: "u64 \<Rightarrow> u64 \<Rightarrow> memory \<Rightarrow> int option" where
  "strcasecmp left right m =
     map_option (\<lambda>i. if m (left + i) \<noteq> 0 \<and> m (right + i) \<noteq> 0
                     then tolower (uint (m (left + i))) - tolower (uint (m (right + i)))
                     else uint (m (left + i)) - uint (m (right + i)))
       (scan (\<lambda>i. Some (m (left + i) \<noteq> 0 \<and> m (right + i) \<noteq> 0 \<and>
                        tolower (uint (m (left + i))) - tolower (uint (m (right + i))) = 0)) 0)"

definition strncasecmp :: "u64 \<Rightarrow> u64 \<Rightarrow> u64 \<Rightarrow> memory \<Rightarrow> int" where
  "strncasecmp left right maximum_length m =
     (let difference = (\<lambda>i. tolower (uint (m (left + of_nat i))) - tolower (uint (m (right + of_nat i)))) in
      case find_from (\<lambda>i. difference i \<noteq> 0 \<or> m (left + of_nat i) = 0 \<or> m (right + of_nat i) = 0)
             0 (unat maximum_length) of
        None \<Rightarrow> 0
      | Some i \<Rightarrow> difference i)"

definition strncmp :: "u64 \<Rightarrow> u64 \<Rightarrow> u64 \<Rightarrow> memory \<Rightarrow> int" where
  "strncmp left right n m =
     (case find_from (\<lambda>i. m (left + of_nat i) \<noteq> m (right + of_nat i) \<or> m (left + of_nat i) = 0) 0 (unat n) of
        None \<Rightarrow> 0
      | Some i \<Rightarrow> if m (left + of_nat i) \<noteq> m (right + of_nat i)
                  then uint (m (left + of_nat i)) - uint (m (right + of_nat i)) else 0)"

section \<open>Copying\<close>

text \<open>\<^verbatim>\<open>while ((*dest++ = *source++)) ;\<close>\<close>

partial_function (option) copy_string :: "u64 \<Rightarrow> u64 \<Rightarrow> memory \<Rightarrow> memory option" where
  "copy_string dest source m =
     (let c = m source; m = m(dest := c) in if c \<noteq> 0 then copy_string (dest + 1) (source + 1) m else Some m)"

definition strcpy :: "u64 \<Rightarrow> u64 \<Rightarrow> memory \<Rightarrow> memory option" where
  "strcpy destination source m = copy_string destination source m"

definition strcat :: "u64 \<Rightarrow> u64 \<Rightarrow> memory \<Rightarrow> memory option" where
  "strcat destination source m =
     (case strlen destination m of None \<Rightarrow> None | Some len \<Rightarrow> copy_string (destination + len) source m)"

text \<open>The counted copy loop of \<^verbatim>\<open>strncpy\<close> and \<^verbatim>\<open>strncat\<close>: how far it got, and the store.\<close>

function copy_bounded :: "u64 \<Rightarrow> u64 \<Rightarrow> u64 \<Rightarrow> u64 \<Rightarrow> memory \<Rightarrow> u64 \<times> memory" where
  "copy_bounded destination source n i m =
     (if i < n \<and> m (source + i) \<noteq> 0
      then copy_bounded destination source n (i + 1) (m(destination + i := m (source + i)))
      else (i, m))"
  by pat_completeness auto
termination
proof (relation "measure (\<lambda>(d, s, n, i, m). unat n - unat i)", simp)
  fix d s n i :: u64 and m :: memory
  assume "i < n \<and> m (s + i) \<noteq> 0"
  then have lt: "unat i < unat n" by (simp add: word_less_nat_alt)
  then have "unat i < 2 ^ LENGTH(64) - 1"
    using unat_lt_max64 [of n] by simp
  from unat_inc_bounded [OF this] lt
  show "((d, s, n, i + 1, m(d + i := m (s + i))), d, s, n, i, m) \<in> measure (\<lambda>(d, s, n, i, m). unat n - unat i)"
    by simp
qed

declare copy_bounded.simps [simp del]

definition strncpy :: "u64 \<Rightarrow> u64 \<Rightarrow> u64 \<Rightarrow> memory \<Rightarrow> memory" where
  "strncpy destination source n m =
     (let (i, m) = copy_bounded destination source n 0 m
      in fold (\<lambda>k m. m(destination + of_nat k := 0)) [unat i ..< unat n] m)"

definition strncat :: "u64 \<Rightarrow> u64 \<Rightarrow> u64 \<Rightarrow> memory \<Rightarrow> memory option" where
  "strncat destination source n m =
     (case strlen destination m of
        None \<Rightarrow> None
      | Some len \<Rightarrow>
          let e = destination + len; (copied, m) = copy_bounded e source n 0 m
          in Some (m(e + copied := 0)))"

definition strxfrm :: "u64 \<Rightarrow> u64 \<Rightarrow> u64 \<Rightarrow> memory \<Rightarrow> (u64 \<times> memory) option" where
  "strxfrm destination source count m =
     (case strlen source m of
        None \<Rightarrow> None
      | Some len \<Rightarrow>
          if destination \<noteq> 0 \<and> count \<noteq> 0 then
            let copied = (if len < count - 1 then len else count - 1);
                m = memcpy destination source copied m
            in Some (len, m(destination + copied := 0))
          else Some (len, m))"

section \<open>Search\<close>

definition strchr :: "u64 \<Rightarrow> int \<Rightarrow> memory \<Rightarrow> u64 option" where
  "strchr text character m =
     (let ch = word_of_int character in
      map_option (\<lambda>t. if m t \<noteq> 0 then t else if ch = 0 then t else 0)
        (scan (\<lambda>t. Some (m t \<noteq> 0 \<and> m t \<noteq> ch)) text))"

partial_function (option) strrchr_loop :: "u8 \<Rightarrow> u64 \<Rightarrow> u64 \<Rightarrow> memory \<Rightarrow> (u64 \<times> u64) option" where
  "strrchr_loop ch text last_match m =
     (if m text \<noteq> 0 then strrchr_loop ch (text + 1) (if m text = ch then text else last_match) m
      else Some (text, last_match))"

definition strrchr :: "u64 \<Rightarrow> int \<Rightarrow> memory \<Rightarrow> u64 option" where
  "strrchr text character m =
     (let ch = word_of_int character in
      map_option (\<lambda>(t, last_match). if ch = 0 then t else last_match) (strrchr_loop ch text 0 m))"

definition strstr :: "u64 \<Rightarrow> u64 \<Rightarrow> memory \<Rightarrow> u64 option" where
  "strstr haystack needle m =
     (if m needle = 0 then Some haystack
      else
        case strlen needle m of None \<Rightarrow> None | Some nlen \<Rightarrow>
        map_option (\<lambda>h. if m h = 0 then 0 else h)
          (scan (\<lambda>h. Some (m h \<noteq> 0 \<and> \<not> (m h = m needle \<and> strncmp h needle nlen m = 0))) haystack))"

definition strcasestr :: "u64 \<Rightarrow> u64 \<Rightarrow> memory \<Rightarrow> u64 option" where
  "strcasestr haystack needle m =
     (if haystack = 0 \<or> needle = 0 then Some 0
      else if m needle = 0 then Some haystack
      else
        case strlen needle m of None \<Rightarrow> None | Some needle_len \<Rightarrow>
        map_option (\<lambda>h. if m h = 0 then 0 else h)
          (scan (\<lambda>h. Some (m h \<noteq> 0 \<and> strncasecmp h needle needle_len m \<noteq> 0)) haystack))"

section \<open>Path names\<close>

text \<open>\<^verbatim>\<open>while (len > 1 && path[len - 1] == '/') path[--len] = 0;\<close>\<close>

function strip_slashes :: "u64 \<Rightarrow> u64 \<Rightarrow> memory \<Rightarrow> u64 \<times> memory" where
  "strip_slashes path len m =
     (if len > 1 \<and> m (path + (len - 1)) = 47
      then strip_slashes path (len - 1) (m(path + (len - 1) := 0))
      else (len, m))"
  by pat_completeness auto
termination
proof (relation "measure (\<lambda>(path, len, m). unat len)", simp)
  fix path len :: u64 and m :: memory
  assume "1 < len \<and> m (path + (len - 1)) = 47"
  then have "len \<noteq> 0" by auto
  then show "((path, len - 1, m(path + (len - 1) := 0)), path, len, m) \<in> measure (\<lambda>(path, len, m). unat len)"
    by (simp add: word_facts unat_gt_0)
qed

declare strip_slashes.simps [simp del]

text \<open>\<open>dot\<close> and \<open>slash\<close> are the addresses of the static strings the functions return.\<close>

definition basename :: "u64 \<Rightarrow> u64 \<Rightarrow> memory \<Rightarrow> (u64 \<times> memory) option" where
  "basename dot path m =
     (if path = 0 \<or> m path = 0 then Some (dot, m)
      else
        case strlen path m of None \<Rightarrow> None | Some len \<Rightarrow>
        let (len, m) = strip_slashes path len m in
        if len = 1 \<and> m path = 47 then Some (path, m)
        else map_option (\<lambda>p. (if p \<noteq> 0 then p + 1 else path, m)) (strrchr path 47 m))"

definition dirname :: "u64 \<Rightarrow> u64 \<Rightarrow> u64 \<Rightarrow> memory \<Rightarrow> (u64 \<times> memory) option" where
  "dirname dot slash path m =
     (if path = 0 \<or> m path = 0 then Some (dot, m)
      else
        case strlen path m of None \<Rightarrow> None | Some len \<Rightarrow>
        let (len, m) = strip_slashes path len m in
        if len = 1 \<and> m path = 47 then Some (slash, m)
        else map_option (\<lambda>p. if p = 0 then (dot, m) else if p = path then (slash, m) else (path, m(p := 0)))
               (strrchr path 47 m))"

section \<open>Terminated strings\<close>

text \<open>An array of characters, bytes or wide, that ends with the first zero.\<close>

primrec cstring :: "(u64 \<Rightarrow> 'a::zero) \<Rightarrow> u64 \<Rightarrow> 'a list \<Rightarrow> bool" where
  "cstring m p [] \<longleftrightarrow> m p = 0"
| "cstring m p (x # xs) \<longleftrightarrow> x \<noteq> 0 \<and> m p = x \<and> cstring m (p + 1) xs"

lemma add_Suc64: "p + of_nat (Suc i) = (p + 1) + (of_nat i :: u64)"
  by simp

lemma cstring_nth: "cstring m p xs \<Longrightarrow> i < length xs \<Longrightarrow> m (p + of_nat i) = xs ! i \<and> xs ! i \<noteq> 0"
proof (induction xs arbitrary: p i)
  case (Cons x xs)
  then show ?case
    by (cases i) (auto simp: add_Suc64 simp del: of_nat_Suc)
qed simp

lemma cstring_drop: "cstring m p xs \<Longrightarrow> i \<le> length xs \<Longrightarrow> cstring m (p + of_nat i) (drop i xs)"
proof (induction xs arbitrary: p i)
  case (Cons x xs)
  then show ?case
    by (cases i) (auto simp: add_Suc64 simp del: of_nat_Suc)
qed simp

lemma cstring_end: "cstring m p xs \<Longrightarrow> m (p + of_nat (length xs)) = 0"
  using cstring_drop [of m p xs "length xs"] by simp

lemma cstring_no_zero: "cstring m p xs \<Longrightarrow> 0 \<notin> set xs"
  by (induction xs arbitrary: p) auto

lemma cstring_intro:
  assumes "\<And>i. i < length xs \<Longrightarrow> m (p + of_nat i) = xs ! i" "0 \<notin> set xs" "m (p + of_nat (length xs)) = 0"
  shows "cstring m p xs"
  using assms
proof (induction xs arbitrary: p)
  case (Cons x xs)
  have "m p = x"
    using Cons.prems(1) [of 0] by simp
  moreover have "cstring m (p + 1) xs"
  proof (rule Cons.IH)
    show "m (p + 1 + of_nat i) = xs ! i" if "i < length xs" for i
      using Cons.prems(1) [of "Suc i"] that by (simp add: add_Suc64 del: of_nat_Suc)
  qed (use Cons.prems in \<open>simp_all add: add.assoc\<close>)
  ultimately show ?case
    using Cons.prems(2) by auto
qed simp

lemma cstring_length: "cstring m p xs \<Longrightarrow> length xs < 2 ^ 64"
proof (rule ccontr)
  assume c: "cstring m p xs" and "\<not> length xs < 2 ^ 64"
  then have le: "2 ^ 64 \<le> length xs" by simp
  define i where "i = length xs - 2 ^ 64"
  have len: "length xs = i + 2 ^ 64" using le by (simp add: i_def)
  have "(of_nat (2 ^ 64) :: u64) = 0"
    by simp
  then have "of_nat (length xs) = (of_nat i :: u64)"
    unfolding len of_nat_add by simp
  moreover have "i < length xs" using len by simp
  ultimately show False
    using cstring_nth [OF c, of i] cstring_end [OF c] by metis
qed

lemma scan_run:
  assumes "\<And>j. j < n \<Longrightarrow> P (i + of_nat j) = Some True" "P (i + of_nat n) = Some False"
  shows "scan P i = Some (i + of_nat n)"
  using assms
proof (induction n arbitrary: i)
  case 0
  then show ?case by (simp add: scan.simps [of P i])
next
  case (Suc n)
  have "scan P (i + 1) = Some (i + 1 + of_nat n)"
  proof (rule Suc.IH)
    show "P (i + 1 + of_nat j) = Some True" if "j < n" for j
      using Suc.prems(1) [of "Suc j"] that by (simp add: add_Suc64 del: of_nat_Suc)
  qed (use Suc.prems(2) in \<open>simp add: add.assoc\<close>)
  then show ?case
    using Suc.prems(1) [of 0] by (simp add: scan.simps [of P i] add.assoc)
qed

lemma strlen_cstring:
  assumes "cstring m p xs"
  shows "strlen p m = Some (of_nat (length xs))"
proof -
  have "scan (\<lambda>i. Some (m (p + i) \<noteq> 0)) 0 = Some (0 + of_nat (length xs))"
    by (rule scan_run) (use cstring_nth [OF assms] cstring_end [OF assms] in simp_all)
  then show ?thesis
    by (simp add: strlen_def)
qed

text \<open>Scanning a string up to the first character without a property.\<close>

lemma scan_string:
  assumes c: "cstring m (b + i) xs" and stop: "\<And>k. m (b + k) = 0 \<Longrightarrow> P k = Some False"
    and test: "\<And>k. m (b + k) \<noteq> 0 \<Longrightarrow> P k = Some (Q (m (b + k)))"
  shows "scan P i = Some (i + of_nat (length (takeWhile Q xs)))"
proof (rule scan_run)
  let ?n = "length (takeWhile Q xs)"
  have at: "m (b + (i + of_nat j)) = xs ! j" "xs ! j \<noteq> 0" if "j < length xs" for j
    using cstring_nth [OF c that] by (simp_all add: add.assoc)
  show "P (i + of_nat j) = Some True" if "j < ?n" for j
  proof -
    have j: "j < length xs" using that length_takeWhile_le [of Q xs] by simp
    have "Q (xs ! j)"
      using nth_mem [OF that] takeWhile_nth [OF that] set_takeWhileD by metis
    then show ?thesis
      using at [OF j] test [of "i + of_nat j"] by simp
  qed
  show "P (i + of_nat ?n) = Some False"
  proof (cases "?n < length xs")
    case True
    then have "\<not> Q (xs ! ?n)" by (rule nth_length_takeWhile)
    then show ?thesis
      using at [OF True] test [of "i + of_nat ?n"] by simp
  next
    case False
    then have "?n = length xs" using length_takeWhile_le [of Q xs] by simp
    then show ?thesis
      using cstring_end [OF c] stop [of "i + of_nat ?n"] by (simp add: add.assoc)
  qed
qed

lemma candidate_cstring:
  assumes "cstring m s ds"
  shows "map_option (\<lambda>k. m k \<noteq> 0) (candidate s c m) = Some (c \<in> set ds \<and> c \<noteq> 0)"
proof -
  have "candidate s c m = Some (s + of_nat (length (takeWhile (\<lambda>d. d \<noteq> c) ds)))"
    unfolding candidate_def using assms
    by (intro scan_string [where b = 0 and m = m]) auto
  moreover have "m (s + of_nat (length (takeWhile (\<lambda>d. d \<noteq> c) ds))) \<noteq> 0 \<longleftrightarrow> c \<in> set ds"
  proof (cases "c \<in> set ds")
    case True
    then have lt: "length (takeWhile (\<lambda>d. d \<noteq> c) ds) < length ds"
      by (metis (mono_tags, lifting) length_takeWhile_le linorder_neqE_nat not_le set_takeWhileD takeWhile_eq_all_conv
          takeWhile_eq_take take_all_iff)
    then show ?thesis
      using cstring_nth [OF assms lt] True by simp
  next
    case False
    then have "takeWhile (\<lambda>d. d \<noteq> c) ds = ds"
      by (simp add: takeWhile_eq_all_conv) blast
    then show ?thesis
      using False cstring_end [OF assms] by metis
  qed
  moreover have "c \<in> set ds \<Longrightarrow> c \<noteq> 0"
    using cstring_no_zero [OF assms] by auto
  ultimately show ?thesis
    by auto
qed

lemma candidate_not:
  assumes "cstring m s ds"
  shows "map_option (\<lambda>k. m k = 0) (candidate s c m) = Some (\<not> (c \<in> set ds \<and> c \<noteq> 0))"
  using candidate_cstring [OF assms, of c] by (cases "candidate s c m") auto

lemma strspn_cstring:
  assumes "cstring m p xs" "cstring m q ds" "p \<noteq> 0" "q \<noteq> 0"
  shows "strspn p q m = Some (of_nat (length (takeWhile (\<lambda>c. c \<in> set ds) xs)))"
proof -
  have "scan (\<lambda>i. if m (p + i) = 0 then Some False
          else map_option (\<lambda>k. m k \<noteq> 0) (candidate q (m (p + i)) m)) 0 =
      Some (0 + of_nat (length (takeWhile (\<lambda>c. c \<in> set ds) xs)))"
    by (rule scan_string [where b = p and m = m])
      (use assms in \<open>simp_all add: candidate_cstring del: map_option_eq_Some\<close>)
  then show ?thesis
    using assms by (simp add: strspn_def)
qed

lemma strcspn_cstring:
  assumes "cstring m p xs" "cstring m q ds" "p \<noteq> 0" "q \<noteq> 0"
  shows "strcspn p q m = Some (of_nat (length (takeWhile (\<lambda>c. c \<notin> set ds) xs)))"
proof -
  have "scan (\<lambda>i. if m (p + i) = 0 then Some False
          else map_option (\<lambda>k. m k = 0) (candidate q (m (p + i)) m)) 0 =
      Some (0 + of_nat (length (takeWhile (\<lambda>c. c \<notin> set ds) xs)))"
    by (rule scan_string [where b = p and m = m])
      (use assms in \<open>simp_all add: candidate_not del: map_option_eq_Some\<close>)
  then show ?thesis
    using assms by (simp add: strcspn_def)
qed

section \<open>Comparison\<close>

lemma strcmp_scan:
  fixes m :: memory
  assumes "cstring m (p + i) xs" "cstring m (q + i) ys"
  obtains k where "scan (\<lambda>i. Some (m (p + i) \<noteq> 0 \<and> m (p + i) = m (q + i))) i = Some k"
    "m (p + k) = m (q + k) \<longleftrightarrow> xs = ys" "m (p + k) < m (q + k) \<longleftrightarrow> xs < ys"
  using assms
proof (induction xs arbitrary: i ys thesis)
  case Nil
  then show ?case
    by (cases ys) (auto simp: scan.simps [of _ i] word_neq_0_conv)
next
  case (Cons x xs)
  show ?case
  proof (cases ys)
    case Nil
    then show ?thesis
      using Cons.prems by (auto simp: scan.simps [of _ i])
  next
    case (Cons y ys')
    show ?thesis
    proof (cases "x = y")
      case True
      have "cstring m (p + (i + 1)) xs" "cstring m (q + (i + 1)) ys'"
        using Cons.prems \<open>ys = y # ys'\<close> by (simp_all add: add.assoc)
      from Cons.IH [OF _ this] obtain k where
        "scan (\<lambda>i. Some (m (p + i) \<noteq> 0 \<and> m (p + i) = m (q + i))) (i + 1) = Some k"
        "m (p + k) = m (q + k) \<longleftrightarrow> xs = ys'" "m (p + k) < m (q + k) \<longleftrightarrow> xs < ys'" by blast
      then show ?thesis
        using Cons.prems True \<open>ys = y # ys'\<close> by (auto simp: scan.simps [of _ i])
    next
      case False
      then show ?thesis
        using Cons.prems \<open>ys = y # ys'\<close> by (auto simp: scan.simps [of _ i])
    qed
  qed
qed

text \<open>
  \<^verbatim>\<open>strcmp\<close> returns on terminated strings and its sign is the lexicographic order of the
  unsigned bytes: zero exactly for equal strings, negative exactly when the left one is smaller.
\<close>

lemma strcmp_lexicographic:
  assumes "cstring m left xs" and "cstring m right ys"
  shows "\<exists>r. strcmp left right m = Some r \<and> (r = 0 \<longleftrightarrow> xs = ys) \<and> (r < 0 \<longleftrightarrow> xs < ys)"
proof -
  obtain k where "scan (\<lambda>i. Some (m (left + i) \<noteq> 0 \<and> m (left + i) = m (right + i))) 0 = Some k"
    "m (left + k) = m (right + k) \<longleftrightarrow> xs = ys" "m (left + k) < m (right + k) \<longleftrightarrow> xs < ys"
    using strcmp_scan [of m left 0 xs right ys] assms by auto
  then show ?thesis
    by (simp add: strcmp_def word_less_def word_uint_eq_iff)
qed

definition demo_text :: memory where
  "demo_text = ((\<lambda>_. 0)(0x1000 := 97, 0x1001 := 44, 0x1002 := 98, 0x1003 := 97, 0x1004 := 98,
     0x2000 := 97, 0x2001 := 98, 0x3000 := 44, 0x3001 := 32))"

lemma demo_text_strings:
  "cstring demo_text 0x1000 [97, 44, 98, 97, 98]" "cstring demo_text 0x2000 [97, 98]"
  "cstring demo_text 0x3000 [44, 32]"
  by (simp_all add: demo_text_def)

lemma strcmp_lexicographic_witness:
  "\<exists>r. strcmp 0x1000 0x2000 demo_text = Some r \<and> r < 0"
  using strcmp_lexicographic [OF demo_text_strings(1,2)] by auto

section \<open>Search for a substring\<close>

lemma find_append: "find P (as @ bs) = (case find P as of None \<Rightarrow> find P bs | Some a \<Rightarrow> Some a)"
  by (induction as) auto

lemma prefix_cstring:
  assumes "cstring m p xs" "\<And>j. j < length ys \<Longrightarrow> m (p + of_nat j) = ys ! j" "0 \<notin> set ys"
  shows "prefix ys xs"
  using assms
proof (induction ys arbitrary: p xs)
  case (Cons y ys)
  have y: "m p = y" "y \<noteq> 0"
    using Cons.prems(2) [of 0] Cons.prems(3) by auto
  then obtain xs' where xs: "xs = y # xs'" "cstring m (p + 1) xs'"
    using Cons.prems(1) by (cases xs) auto
  have "prefix ys xs'"
  proof (rule Cons.IH [OF xs(2)])
    show "m (p + 1 + of_nat j) = ys ! j" if "j < length ys" for j
      using Cons.prems(2) [of "Suc j"] that by (simp add: add_Suc64 del: of_nat_Suc)
  qed (use Cons.prems(3) in simp)
  then show ?case
    by (simp add: xs)
qed simp

lemma strncmp_prefix:
  assumes h: "cstring m h xs" and n: "cstring m needle ys"
  shows "strncmp h needle (of_nat (length ys)) m = 0 \<longleftrightarrow> prefix ys xs"
proof -
  let ?diff = "\<lambda>i. m (h + of_nat i) \<noteq> m (needle + of_nat i) \<or> m (h + of_nat i) = 0"
  let ?r = "find_from ?diff 0 (length ys)"
  have len: "unat (of_nat (length ys) :: u64) = length ys"
    using cstring_length [OF n] by (simp add: unat_of_nat64)
  have "strncmp h needle (of_nat (length ys)) m = 0 \<longleftrightarrow> ?r = None"
  proof (cases ?r)
    case (Some i)
    then have "i < length ys" "?diff i"
      by (simp_all add: find_from_Some)
    then show ?thesis
      using Some cstring_nth [OF n, of i] by (auto simp: strncmp_def len word_uint_eq_iff)
  qed (simp add: strncmp_def len)
  also have "?r = None \<longleftrightarrow> (\<forall>i < length ys. m (h + of_nat i) = ys ! i)"
    using cstring_nth [OF n] by (auto simp: find_from_None)
  also have "\<dots> \<longleftrightarrow> prefix ys xs"
  proof
    assume "\<forall>i < length ys. m (h + of_nat i) = ys ! i"
    then show "prefix ys xs"
      by (intro prefix_cstring [OF h]) (simp_all add: cstring_no_zero [OF n])
  next
    assume p: "prefix ys xs"
    show "\<forall>i < length ys. m (h + of_nat i) = ys ! i"
    proof (intro allI impI)
      fix i assume "i < length ys"
      then show "m (h + of_nat i) = ys ! i"
        using p cstring_nth [OF h, of i] by (auto simp: prefix_def nth_append)
    qed
  qed
  finally show ?thesis .
qed

lemma find_map_Suc: "find P (map Suc is) = map_option Suc (find (\<lambda>i. P (Suc i)) is)"
  by (induction "is") auto

lemma strstr_scan:
  assumes "cstring m h xs" "cstring m needle ys" "ys \<noteq> []"
  shows "scan (\<lambda>h. Some (m h \<noteq> 0 \<and> \<not> (m h = m needle \<and> strncmp h needle (of_nat (length ys)) m = 0))) h =
    Some (h + of_nat (case find (\<lambda>i. prefix ys (drop i xs)) [0..<length xs] of None \<Rightarrow> length xs | Some i \<Rightarrow> i))"
    (is "scan ?P h = _")
  using assms(1)
proof (induction xs arbitrary: h)
  case Nil
  then show ?case
    by (subst scan.simps) simp
next
  case (Cons x xs)
  have head: "m needle = hd ys"
    using assms(2,3) by (cases ys) auto
  have step: "?P h = Some (\<not> prefix ys (x # xs))"
  proof -
    have "prefix ys (x # xs) \<Longrightarrow> x = hd ys"
      using assms(3) by (cases ys) auto
    then show ?thesis
      using Cons.prems strncmp_prefix [OF Cons.prems assms(2)] head by auto
  qed
  have upt: "[0..<length (x # xs)] = 0 # map Suc [0..<length xs]"
    by (simp add: upt_conv_Cons map_Suc_upt del: upt_Suc)
  show ?case
  proof (cases "prefix ys (x # xs)")
    case True
    then show ?thesis
      using step unfolding upt by (subst scan.simps) (auto simp del: upt_Suc)
  next
    case False
    then have "scan ?P h = scan ?P (h + 1)"
      using step by (subst scan.simps) simp
    also have "\<dots> = Some (h + of_nat (case find (\<lambda>i. prefix ys (drop i (x # xs))) [0..<length (x # xs)] of
        None \<Rightarrow> length (x # xs) | Some i \<Rightarrow> i))"
      using Cons.prems Cons.IH [of "h + 1"] False unfolding upt
      by (simp add: find_map_Suc del: upt_Suc split: option.split)
    finally show ?thesis .
  qed
qed

text \<open>
  \<^verbatim>\<open>strstr\<close> returns on terminated strings: the address of the first position at which the
  needle is a prefix of the rest of the haystack, and the null pointer if there is none.
\<close>

lemma strstr_first_occurrence:
  assumes "cstring m haystack xs" and "cstring m needle ys" and "haystack \<noteq> 0"
    and "unat haystack + length xs < 2 ^ 64"
  shows "strstr haystack needle m =
    Some (case find (\<lambda>i. prefix ys (drop i xs)) [0..<Suc (length xs)] of None \<Rightarrow> 0 | Some i \<Rightarrow> haystack + of_nat i)"
proof (cases ys)
  case Nil
  then show ?thesis
    using assms by (simp add: strstr_def upt_conv_Cons del: upt_Suc)
next
  case (Cons y ys')
  let ?f = "find (\<lambda>i. prefix ys (drop i xs)) [0..<length xs]"
  have start: "m needle \<noteq> 0" "ys \<noteq> []"
    using assms(2) Cons by auto
  have last: "find (\<lambda>i. prefix ys (drop i xs)) [0..<Suc (length xs)] = ?f"
    using start by (simp add: find_append split: option.split)
  have "strstr haystack needle m = (case ?f of None \<Rightarrow> Some 0 | Some i \<Rightarrow> Some (haystack + of_nat i))"
  proof (cases ?f)
    case None
    then show ?thesis
      using start strstr_scan [OF assms(1,2) start(2)] strlen_cstring [OF assms(2)] cstring_end [OF assms(1)]
      by (simp add: strstr_def)
  next
    case (Some i)
    then have "i < length xs"
      by (auto simp: find_Some_iff)
    then show ?thesis
      using Some start strstr_scan [OF assms(1,2) start(2)] strlen_cstring [OF assms(2)]
        cstring_nth [OF assms(1), of i]
      by (simp add: strstr_def)
  qed
  then show ?thesis
    unfolding last by (simp split: option.split)
qed

lemma strstr_first_occurrence_witness:
  "strstr 0x1000 0x2000 demo_text = Some 0x1003"
  using strstr_first_occurrence [OF demo_text_strings(1,2)] by simp

section \<open>Tokens\<close>

lemma cstring_agree:
  assumes "cstring m p xs" "\<And>i. i \<le> length xs \<Longrightarrow> m' (p + of_nat i) = m (p + of_nat i)"
  shows "cstring m' p xs"
  using assms cstring_nth [OF assms(1)] cstring_end [OF assms(1)] cstring_no_zero [OF assms(1)]
  by (intro cstring_intro) auto

lemma of_nat64_cancel:
  assumes "i < 2 ^ 64" "j < 2 ^ 64"
  shows "p + of_nat i = p + (of_nat j :: u64) \<longleftrightarrow> i = j"
  using assms by (simp add: of_nat64_eq_iff)

lemma cstring_cut:
  assumes "cstring m p xs" "n < length xs"
  shows "cstring (m(p + of_nat n := 0)) p (take n xs)"
    and "cstring (m(p + of_nat n := 0)) (p + of_nat n + 1) (drop (Suc n) xs)"
proof -
  have len: "length xs < 2 ^ 64" by (rule cstring_length [OF assms(1)])
  show "cstring (m(p + of_nat n := 0)) p (take n xs)"
  proof (rule cstring_intro)
    fix i assume "i < length (take n xs)"
    then show "(m(p + of_nat n := 0)) (p + of_nat i) = take n xs ! i"
      using cstring_nth [OF assms(1), of i] assms(2) len of_nat64_cancel [of i n p] by auto
  qed (use assms cstring_no_zero [OF assms(1)] in \<open>auto dest: in_set_takeD\<close>)
  show "cstring (m(p + of_nat n := 0)) (p + of_nat n + 1) (drop (Suc n) xs)"
  proof (rule cstring_agree)
    show "cstring m (p + of_nat n + 1) (drop (Suc n) xs)"
      using cstring_drop [OF assms(1), of "Suc n"] assms(2) by (simp add: ac_simps)
    fix i assume "i \<le> length (drop (Suc n) xs)"
    moreover have "p + of_nat n + 1 + of_nat i = p + (of_nat (Suc n + i) :: u64)"
      by simp
    ultimately show "(m(p + of_nat n := 0)) (p + of_nat n + 1 + of_nat i) = m (p + of_nat n + 1 + of_nat i)"
      using assms(2) len of_nat64_cancel [of "Suc n + i" n p] by (auto simp del: of_nat_Suc of_nat_add)
  qed
qed

text \<open>
  One call of \<^verbatim>\<open>strtok_r\<close> on a terminated text: leading delimiters are skipped; if only
  delimiters are left it returns null, otherwise a pointer to the longest run of other
  characters, terminated in place by overwriting at most the one byte after it, and the saved
  pointer is the rest of the text after that byte.
\<close>

lemma strtok_r_token:
  fixes xs ds :: "u8 list"
  defines "rest \<equiv> dropWhile (\<lambda>c. c \<in> set ds) xs"
  defines "token \<equiv> takeWhile (\<lambda>c. c \<notin> set ds) rest"
  assumes "cstring m cursor xs" and "cstring m delimiters ds"
    and "cursor = (if str \<noteq> 0 then str else save)" and "cursor \<noteq> 0" and "delimiters \<noteq> 0"
    and "unat cursor + length xs < 2 ^ 64"
  shows "\<exists>result save' m'. strtok_r str delimiters (Some save) m = Some (result, Some save', m') \<and>
    (if rest = [] then result = 0 \<and> m' = m
     else cstring m' result token \<and>
       result = cursor + of_nat (length xs - length rest) \<and> result \<noteq> 0 \<and>
       (\<forall>a. a \<noteq> result + of_nat (length token) \<longrightarrow> m' a = m a)) \<and>
    cstring m' save' (drop (Suc (length token)) rest)"
proof -
  let ?skip = "length (takeWhile (\<lambda>c. c \<in> set ds) xs)" and ?len = "length token"
  let ?r = "cursor + of_nat ?skip"
  have rest: "rest = drop ?skip xs" "length xs - length rest = ?skip" "?skip \<le> length xs"
    using length_takeWhile_le [of "\<lambda>c. c \<in> set ds" xs] by (simp_all add: rest_def dropWhile_eq_drop)
  have r: "cstring m ?r rest"
    using cstring_drop [OF assms(3) rest(3)] rest(1) by simp
  have "unat ?r = unat cursor + ?skip"
    using assms(8) rest(3) by (simp add: unat_add_below unat_of_nat64)
  moreover have "unat cursor \<noteq> 0"
    using assms(6) by (simp add: unat_eq_0)
  ultimately have nz: "?r \<noteq> 0"
    by (metis add_is_0 unat_0)
  have spn: "strspn cursor delimiters m = Some (of_nat ?skip)"
    using assms by (intro strspn_cstring) auto
  show ?thesis
  proof (cases rest)
    case Nil
    then show ?thesis
      using assms(5-7) spn r by (auto simp: strtok_r_def)
  next
    case (Cons c rest')
    have nonempty: "m ?r \<noteq> 0"
      using r Cons by auto
    have cspn: "strcspn ?r delimiters m = Some (of_nat ?len)"
      unfolding token_def using assms nz by (intro strcspn_cstring [OF r]) auto
    let ?e = "?r + of_nat ?len"
    have le: "?len \<le> length rest"
      unfolding token_def by (rule length_takeWhile_le)
    have take: "token = take ?len rest"
      unfolding token_def by (rule takeWhile_eq_take)
    have call: "strtok_r str delimiters (Some save) m =
        (if m ?e \<noteq> 0 then Some (?r, Some (?e + 1), m(?e := 0)) else Some (?r, Some ?e, m))"
      using assms(5-7) spn cspn nonempty by (auto simp: strtok_r_def Let_def)
    show ?thesis
    proof (cases "?len < length rest")
      case True
      have "m ?e \<noteq> 0"
        using cstring_nth [OF r True] by simp
      then show ?thesis
        using call cstring_cut [OF r True] take Cons nz rest(2) by simp
    next
      case False
      then have "?len = length rest" "token = rest"
        using le take by simp_all
      moreover from this have "m ?e = 0"
        using cstring_end [OF r] by simp
      ultimately show ?thesis
        using call r Cons nz rest(2) by simp
    qed
  qed
qed

lemma strtok_r_token_witness:
  "\<exists>result save' m'. strtok_r 0x1000 0x3000 (Some 0) demo_text = Some (result, Some save', m') \<and>
    cstring m' result [97] \<and> cstring m' save' [98, 97, 98]"
  using strtok_r_token [OF demo_text_strings(1,3), where str = 4096 and save = 0]
  by (auto simp del: cstring.simps)

end
