(* ===== verification/C_Sort.thy ===== *)
theory C_Sort
  imports C_Memory "HOL-Library.Multiset"
begin

text \<open>
  \<^verbatim>\<open>qsort\<close> and \<^verbatim>\<open>bsearch\<close> of \<^verbatim>\<open>userspace/libc/src/stdlib.c\<close>, on the byte store: an in-place
  heapsort on elements of any size, and a binary search. The comparison function is a parameter
  that reads the store at two addresses; the order it induces is stated on the bytes of the
  elements. The proof goes through a heapsort on a function from indices to elements.
\<close>

section \<open>The code\<close>

type_synonym comparator = "memory \<Rightarrow> u64 \<Rightarrow> u64 \<Rightarrow> int"

definition swap_byte :: "u64 \<Rightarrow> u64 \<Rightarrow> nat \<Rightarrow> memory \<Rightarrow> memory" where
  "swap_byte left right offset m =
     (let temporary = m (left + of_nat offset);
          m = m(left + of_nat offset := m (right + of_nat offset))
      in m(right + of_nat offset := temporary))"

definition swap_elements :: "u64 \<Rightarrow> u64 \<Rightarrow> u64 \<Rightarrow> memory \<Rightarrow> memory" where
  "swap_elements left right element_size m = fold (swap_byte left right) [0 ..< unat element_size] m"

function sift_down :: "u64 \<Rightarrow> u64 \<Rightarrow> u64 \<Rightarrow> u64 \<Rightarrow> comparator \<Rightarrow> memory \<Rightarrow> memory" where
  "sift_down base root cnt element_size compare m =
     (if root < cnt div 2 then
        let child = root * 2 + 1;
            child = (if child + 1 < cnt \<and>
                        compare m (base + child * element_size) (base + (child + 1) * element_size) < 0
                     then child + 1 else child)
        in if compare m (base + root * element_size) (base + child * element_size) \<ge> 0 then m
           else sift_down base child cnt element_size compare
                  (swap_elements (base + root * element_size) (base + child * element_size) element_size m)
      else m)"
  by pat_completeness auto

lemma half_child:
  assumes "root < cnt div 2"
  shows "unat (root * 2 + 1 :: u64) = 2 * unat root + 1" "2 * unat root + 1 < unat cnt"
    "unat root < unat cnt div 2" "root * 2 + 1 + 1 < cnt \<longleftrightarrow> 2 * unat root + 2 < unat cnt"
    "root * 2 + 1 + 1 < cnt \<Longrightarrow> unat (root * 2 + 1 + 1 :: u64) = 2 * unat root + 2"
proof -
  show u: "unat root < unat cnt div 2"
    using assms by (simp add: word_less_nat_alt unat_div)
  then show "2 * unat root + 1 < unat cnt" by linarith
  then show c: "unat (root * 2 + 1 :: u64) = 2 * unat root + 1"
    using unat_lt_max64 [of cnt] by (simp add: unat_word_ariths)
  have "2 * unat root + 2 < 2 ^ 64"
    using u unat_lt_max64 [of cnt] by simp
  then have d: "unat (root * 2 + 1 + 1 :: u64) = 2 * unat root + 2"
    unfolding unat_plus_if' [of "root * 2 + 1" 1] c by simp
  then show "root * 2 + 1 + 1 < cnt \<longleftrightarrow> 2 * unat root + 2 < unat cnt"
    by (simp only: word_less_nat_alt)
  show "root * 2 + 1 + 1 < cnt \<Longrightarrow> unat (root * 2 + 1 + 1 :: u64) = 2 * unat root + 2"
    using d by simp
qed

termination sift_down
proof (relation "measure (\<lambda>(base, root, cnt, element_size, compare, m). unat cnt - unat root)", goal_cases)
  case (2 base root cnt element_size compare m child child')
  then show ?case
    using half_child [OF 2(1)] by (auto split: if_splits)
qed simp

declare sift_down.simps [simp del]

text \<open>The two loops count down: \<^verbatim>\<open>start\<close> from half the count to 0, \<^verbatim>\<open>end\<close> from the last index to 1.\<close>

definition qsort :: "u64 \<Rightarrow> u64 \<Rightarrow> u64 \<Rightarrow> comparator option \<Rightarrow> memory \<Rightarrow> memory" where
  "qsort base element_count element_size compare m =
     (case compare of None \<Rightarrow> m | Some compare \<Rightarrow>
      if base = 0 \<or> element_size = 0 \<or> element_count < 2 \<or> element_count > -1 div element_size then m
      else
        let m = fold (\<lambda>start. sift_down base (of_nat start) element_count element_size compare)
                  (rev [0 ..< unat (element_count div 2)]) m
        in fold (\<lambda>last m. sift_down base 0 (of_nat last) element_size compare
                    (swap_elements base (base + of_nat last * element_size) element_size m))
             (rev [1 ..< unat element_count]) m)"

lemma half_step:
  assumes "cnt \<noteq> (0 :: u64)"
  shows "unat (cnt div 2) = unat cnt div 2" "unat (cnt - (cnt div 2 + 1)) = unat cnt - (unat cnt div 2 + 1)"
    "unat cnt div 2 < unat cnt"
proof -
  show h: "unat (cnt div 2) = unat cnt div 2" by (simp add: unat_div)
  have pos: "0 < unat cnt" using assms by (simp add: unat_gt_0)
  then show "unat cnt div 2 < unat cnt" by simp
  have s: "unat (cnt div 2 + 1) = unat cnt div 2 + 1"
    using pos unat_lt_max64 [of cnt] by (subst unat_plus_if') (simp add: h)
  then have "cnt div 2 + 1 \<le> cnt"
    using pos by (simp add: word_le_nat_alt)
  then show "unat (cnt - (cnt div 2 + 1)) = unat cnt - (unat cnt div 2 + 1)"
    using s by (simp add: unat_sub)
qed

function bsearch_loop :: "u64 \<Rightarrow> u64 \<Rightarrow> u64 \<Rightarrow> u64 \<Rightarrow> u64 \<Rightarrow> comparator \<Rightarrow> memory \<Rightarrow> u64" where
  "bsearch_loop key base first cnt element_size compare m =
     (if cnt \<noteq> 0 then
        let step = cnt div 2;
            index = first + step;
            element = base + index * element_size;
            order = compare m key element
        in if order = 0 then element
           else if order > 0 then bsearch_loop key base (index + 1) (cnt - (step + 1)) element_size compare m
           else bsearch_loop key base first step element_size compare m
      else 0)"
  by pat_completeness auto
termination
proof (relation "measure (\<lambda>(key, base, first, cnt, element_size, compare, m). unat cnt)", goal_cases)
  case (2 key base first cnt)
  then show ?case
    using half_step [of cnt] by simp
next
  case (3 key base first cnt)
  then show ?case
    using half_step [of cnt] by simp
qed simp

declare bsearch_loop.simps [simp del]

definition bsearch :: "u64 \<Rightarrow> u64 \<Rightarrow> u64 \<Rightarrow> u64 \<Rightarrow> comparator option \<Rightarrow> memory \<Rightarrow> u64" where
  "bsearch key base element_count element_size compare m =
     (case compare of None \<Rightarrow> 0 | Some compare \<Rightarrow>
      if key = 0 \<or> base = 0 \<or> element_size = 0 \<or> element_count > -1 div element_size then 0
      else bsearch_loop key base 0 element_count element_size compare m)"

section \<open>Heapsort on indexed elements\<close>

definition exchange :: "nat \<Rightarrow> nat \<Rightarrow> (nat \<Rightarrow> 'a) \<Rightarrow> nat \<Rightarrow> 'a" where
  "exchange i j a = a(i := a j, j := a i)"

lemma exchange_at: "exchange i j a k = (if k = j then a i else if k = i then a j else a k)"
  by (simp add: exchange_def)

definition big_child :: "('a \<Rightarrow> 'a \<Rightarrow> bool) \<Rightarrow> nat \<Rightarrow> (nat \<Rightarrow> 'a) \<Rightarrow> nat \<Rightarrow> nat" where
  "big_child lt n a r = (if 2 * r + 2 < n \<and> lt (a (2 * r + 1)) (a (2 * r + 2)) then 2 * r + 2 else 2 * r + 1)"

lemma big_child_cases: "big_child lt n a r = 2 * r + 1 \<or> big_child lt n a r = 2 * r + 2"
  by (simp add: big_child_def)

lemma big_child_less: "r < n div 2 \<Longrightarrow> big_child lt n a r < n"
  by (auto simp: big_child_def)

function sift :: "('a \<Rightarrow> 'a \<Rightarrow> bool) \<Rightarrow> nat \<Rightarrow> nat \<Rightarrow> (nat \<Rightarrow> 'a) \<Rightarrow> nat \<Rightarrow> 'a" where
  "sift lt r n a =
     (if r < n div 2 \<and> lt (a r) (a (big_child lt n a r))
      then sift lt (big_child lt n a r) n (exchange r (big_child lt n a r) a)
      else a)"
  by pat_completeness auto
termination
proof (relation "measure (\<lambda>(lt, r, n, a). n - r)", goal_cases)
  case (2 lt r n a)
  then show ?case
    using big_child_cases [of lt n a r] by auto
qed simp

declare sift.simps [simp del]

definition heapsort :: "('a \<Rightarrow> 'a \<Rightarrow> bool) \<Rightarrow> nat \<Rightarrow> (nat \<Rightarrow> 'a) \<Rightarrow> nat \<Rightarrow> 'a" where
  "heapsort lt n a =
     fold (\<lambda>e a. sift lt 0 e (exchange 0 e a)) (rev [1 ..< n])
       (fold (\<lambda>s. sift lt s n) (rev [0 ..< n div 2]) a)"

text \<open>A strict weak order: irreflexive, transitive, with transitive incomparability.\<close>

definition weak_order :: "('a \<Rightarrow> 'a \<Rightarrow> bool) \<Rightarrow> bool" where
  "weak_order lt \<longleftrightarrow> (\<forall>x. \<not> lt x x) \<and> (\<forall>x y. lt x y \<longrightarrow> \<not> lt y x) \<and>
     (\<forall>x y z. \<not> lt y x \<longrightarrow> \<not> lt z y \<longrightarrow> \<not> lt z x)"

definition heap_above :: "('a \<Rightarrow> 'a \<Rightarrow> bool) \<Rightarrow> nat \<Rightarrow> nat \<Rightarrow> nat \<Rightarrow> (nat \<Rightarrow> 'a) \<Rightarrow> bool" where
  "heap_above lt s r n a \<longleftrightarrow>
     (\<forall>p c. s \<le> p \<and> p \<noteq> r \<and> (c = 2 * p + 1 \<or> c = 2 * p + 2) \<and> c < n \<longrightarrow> \<not> lt (a p) (a c)) \<and>
     (\<forall>p c. s \<le> p \<and> (r = 2 * p + 1 \<or> r = 2 * p + 2) \<and> (c = 2 * r + 1 \<or> c = 2 * r + 2) \<and> c < n \<longrightarrow> \<not> lt (a p) (a c))"

text \<open>With \<open>r = n\<close> no index is exempt: the elements from \<open>s\<close> on form a heap.\<close>

lemma weak_orderD:
  assumes "weak_order lt"
  shows "lt x y \<Longrightarrow> \<not> lt y x" "\<not> lt y x \<Longrightarrow> \<not> lt z y \<Longrightarrow> \<not> lt z x" "\<not> lt x x"
  using assms unfolding weak_order_def by blast+

lemma heap_aboveD:
  assumes "heap_above lt s r n a"
  shows "s \<le> p \<Longrightarrow> p \<noteq> r \<Longrightarrow> c = 2 * p + 1 \<or> c = 2 * p + 2 \<Longrightarrow> c < n \<Longrightarrow> \<not> lt (a p) (a c)"
    "s \<le> p \<Longrightarrow> r = 2 * p + 1 \<or> r = 2 * p + 2 \<Longrightarrow> c = 2 * r + 1 \<or> c = 2 * r + 2 \<Longrightarrow> c < n \<Longrightarrow> \<not> lt (a p) (a c)"
  using assms unfolding heap_above_def by blast+

lemma heap_above_swap:
  assumes wo: "weak_order lt" and h: "heap_above lt s r n a" and s: "s \<le> r" and c: "c = 2 * r + 1 \<or> c = 2 * r + 2"
    and sib: "\<And>d. d = 2 * r + 1 \<or> d = 2 * r + 2 \<Longrightarrow> d < n \<Longrightarrow> \<not> lt (a c) (a d)" and lt: "lt (a r) (a c)" "c < n"
  shows "heap_above lt s c n (exchange r c a)"
  unfolding heap_above_def
proof (intro conjI allI impI; elim conjE)
  let ?a = "exchange r c a"
  fix p d assume pd: "s \<le> p" "p \<noteq> c" "d = 2 * p + 1 \<or> d = 2 * p + 2" "d < n"
  consider "p = r" "d = c" | "p = r" "d \<noteq> c" | "p \<noteq> r" "d = r" | "p \<noteq> r" "d \<noteq> r" by blast
  then show "\<not> lt (?a p) (?a d)"
  proof cases
    case 1
    then show ?thesis using weak_orderD(1) [OF wo lt(1)] c by (auto simp: exchange_at)
  next
    case 2
    then show ?thesis using sib [of d] pd by (auto simp: exchange_at)
  next
    case 3
    then show ?thesis using heap_aboveD(2) [OF h pd(1) _ c] pd lt(2) c by (auto simp: exchange_at)
  next
    case 4
    have "d \<noteq> c" using 4(1) pd(3) c by presburger
    then show ?thesis using heap_aboveD(1) [OF h pd(1) 4(1) pd(3,4)] 4 pd(2) by (simp add: exchange_at)
  qed
next
  let ?a = "exchange r c a"
  fix p d assume pd: "s \<le> p" "c = 2 * p + 1 \<or> c = 2 * p + 2" "d = 2 * c + 1 \<or> d = 2 * c + 2" "d < n"
  have "p = r" using c pd(2) by presburger
  moreover have "r \<noteq> c" "d \<noteq> c" "d \<noteq> r" "s \<le> c" using c pd(3) s by auto
  ultimately show "\<not> lt (?a p) (?a d)"
    using heap_aboveD(1) [OF h, of c d] pd(3,4) by (simp add: exchange_at)
qed

lemma sift_heap:
  assumes wo: "weak_order lt" and "heap_above lt s r n a" "s \<le> r"
  shows "heap_above lt s n n (sift lt r n a)"
  using assms
proof (induction lt r n a rule: sift.induct)
  case (1 lt r n a)
  note wo = 1(2) and h = 1(3)
  define c where "c = big_child lt n a r"
  have c: "c = 2 * r + 1 \<or> c = 2 * r + 2" unfolding c_def by (rule big_child_cases)
  have sib: "\<not> lt (a c) (a d)" if "d = 2 * r + 1 \<or> d = 2 * r + 2" "d < n" for d
    using that weak_orderD(3) [OF wo] weak_orderD(1) [OF wo, of "a (2 * r + 1)" "a (2 * r + 2)"]
    by (cases "2 * r + 2 < n \<and> lt (a (2 * r + 1)) (a (2 * r + 2))") (auto simp: c_def big_child_def)
  show ?case
  proof (cases "r < n div 2 \<and> lt (a r) (a c)")
    case True
    then have "c < n" by (simp add: c_def big_child_less)
    then have "heap_above lt s c n (exchange r c a)"
      using True by (intro heap_above_swap [OF wo h 1(4) c sib]) auto
    then have "heap_above lt s n n (sift lt c n (exchange r c a))"
      using 1(1,2,4) True c unfolding c_def by (metis le_trans le_add1 mult_2 trans_le_add1)
    then show ?thesis
      using True by (subst sift.simps) (simp add: c_def)
  next
    case False
    then have "sift lt r n a = a"
      by (subst sift.simps) (auto simp: c_def)
    moreover have "\<not> lt (a r) (a d)" if "d = 2 * r + 1 \<or> d = 2 * r + 2" "d < n" for d
      using that False sib [OF that] weak_orderD(2) [OF wo, of "a c" "a d" "a r"] by auto
    ultimately show ?thesis
      using heap_aboveD(1) [OF h] unfolding heap_above_def by auto
  qed
qed

text \<open>The elements below the bound are permuted, the others are untouched.\<close>

definition items :: "nat \<Rightarrow> (nat \<Rightarrow> 'a) \<Rightarrow> 'a list" where
  "items n a = map a [0 ..< n]"

lemma items_swap:
  assumes "i < n" "j < n"
  shows "mset (items n (exchange i j a)) = mset (items n a)"
proof -
  have "items n (exchange i j a) = (items n a)[i := items n a ! j, j := items n a ! i]"
    using assms by (intro nth_equalityI) (auto simp: items_def nth_list_update exchange_at)
  then show ?thesis
    using assms mset_swap [of j "items n a" i] by (simp add: items_def)
qed

lemma sift_permutes: "mset (items n (sift lt r n a)) = mset (items n a) \<and> (\<forall>i \<ge> n. sift lt r n a i = a i)"
proof (induction lt r n a rule: sift.induct)
  case (1 lt r n a)
  define c where "c = big_child lt n a r"
  show ?case
  proof (cases "r < n div 2 \<and> lt (a r) (a c)")
    case True
    then have "c < n" "r < n" by (auto simp: c_def big_child_less)
    moreover have "sift lt r n a = sift lt c n (exchange r c a)"
      using True by (subst sift.simps) (simp add: c_def)
    moreover note 1 [folded c_def, OF True] items_swap [of r n c a]
    moreover have "exchange r c a i = a i" if "n \<le> i" for i
      using that \<open>c < n\<close> \<open>r < n\<close> by (simp add: exchange_at)
    ultimately show ?thesis by simp
  next
    case False
    then have "sift lt r n a = a" by (subst sift.simps) (auto simp: c_def)
    then show ?thesis by simp
  qed
qed

lemma items_set_eq: "mset (items n a) = mset (items n b) \<Longrightarrow> a ` {..<n} = b ` {..<n}"
  by (drule arg_cong [where f = set_mset]) (simp add: items_def atLeast0LessThan)

text \<open>The root of a heap is a greatest element.\<close>

lemma heap_root:
  assumes wo: "weak_order lt" and h: "heap_above lt 0 n n a" and "i < n"
  shows "\<not> lt (a 0) (a i)"
  using assms(3)
proof (induction i rule: less_induct)
  case (less i)
  show ?case
  proof (cases "i = 0")
    case True
    then show ?thesis by (simp add: weak_orderD(3) [OF wo])
  next
    case False
    define p where "p = (i - 1) div 2"
    have p: "p < i" "i = 2 * p + 1 \<or> i = 2 * p + 2" using False by (auto simp: p_def)
    have "\<not> lt (a 0) (a p)" "\<not> lt (a p) (a i)"
      using less p heap_aboveD(1) [OF h, of p i] by auto
    then show ?thesis using weak_orderD(2) [OF wo] by blast
  qed
qed

lemma build_heap:
  assumes wo: "weak_order lt" and "s \<le> n div 2"
  shows "heap_above lt (n div 2 - s) n n (fold (\<lambda>s. sift lt s n) (rev [n div 2 - s ..< n div 2]) a) \<and>
    mset (items n (fold (\<lambda>s. sift lt s n) (rev [n div 2 - s ..< n div 2]) a)) = mset (items n a)"
  using assms(2)
proof (induction s)
  case 0
  then show ?case by (auto simp: heap_above_def)
next
  case (Suc s)
  let ?a = "fold (\<lambda>s. sift lt s n) (rev [n div 2 - s ..< n div 2]) a" and ?r = "n div 2 - Suc s"
  have l: "[?r ..< n div 2] = ?r # [n div 2 - s ..< n div 2]"
    using Suc.prems by (subst upt_rec) (auto simp: Suc_diff_Suc)
  have h: "heap_above lt (Suc ?r) n n ?a" "mset (items n ?a) = mset (items n a)"
    using Suc by (auto simp: Suc_diff_Suc)
  have "heap_above lt ?r ?r n ?a"
    using heap_aboveD(1) [OF h(1)] unfolding heap_above_def by (auto simp: Suc_le_eq)
  from sift_heap [OF wo this] sift_permutes [of n lt ?r ?a] h(2) show ?case
    by (simp add: l)
qed

definition sorted_from :: "('a \<Rightarrow> 'a \<Rightarrow> bool) \<Rightarrow> nat \<Rightarrow> nat \<Rightarrow> (nat \<Rightarrow> 'a) \<Rightarrow> bool" where
  "sorted_from lt e n a \<longleftrightarrow> (\<forall>i j. i < j \<and> e \<le> j \<and> j < n \<longrightarrow> \<not> lt (a j) (a i))"

lemma extract_step:
  assumes wo: "weak_order lt" and h: "heap_above lt 0 (Suc e) (Suc e) a" and s: "sorted_from lt (Suc e) n a" and e: "e < n"
  defines "b \<equiv> sift lt 0 e (exchange 0 e a)"
  shows "heap_above lt 0 e e b" "sorted_from lt e n b" "mset (items n b) = mset (items n a)"
proof -
  let ?c = "exchange 0 e a"
  have "heap_above lt 0 0 e ?c"
    using heap_aboveD(1) [OF h] unfolding heap_above_def by (auto simp: exchange_at)
  from sift_heap [OF wo this] show "heap_above lt 0 e e b" by (simp add: b_def)
  have p: "mset (items e b) = mset (items e ?c)" "\<And>i. e \<le> i \<Longrightarrow> b i = ?c i"
    using sift_permutes [of e lt 0 ?c] by (auto simp: b_def)
  have sp: "items n f = items e f @ map f [e ..< n]" for f :: "nat \<Rightarrow> 'a"
    using e by (simp add: items_def flip: map_append) (metis le_add_diff_inverse less_imp_le upt_add_eq_append zero_le)
  have "map b [e ..< n] = map ?c [e ..< n]"
    by (rule map_cong [OF refl]) (simp add: p(2))
  then have "mset (items n b) = mset (items n ?c)"
    by (simp only: sp [of b] sp [of ?c] mset_append p(1))
  then show "mset (items n b) = mset (items n a)"
    using items_swap [of 0 n e a] e by simp
  show "sorted_from lt e n b"
    unfolding sorted_from_def
  proof (intro allI impI; elim conjE)
    fix i j assume ij: "i < j" "e \<le> j" "j < n"
    have below: "\<exists>k \<le> e. b i = a k" if "i < e"
    proof -
      have "b i \<in> ?c ` {..<e}" using items_set_eq [OF p(1)] that by auto
      then obtain k where "b i = ?c k" "k < e" by auto
      then have "b i = a (if k = 0 then e else k)" by (simp add: exchange_at)
      then show ?thesis using \<open>k < e\<close> by (metis le_refl less_imp_le)
    qed
    show "\<not> lt (b j) (b i)"
    proof (cases "j = e")
      case True
      then obtain k where "k \<le> e" "b i = a k" using below ij by auto
      moreover have "b j = a 0" using p(2) [of j] True by (auto simp: exchange_at)
      ultimately show ?thesis using heap_root [OF wo h, of k] by simp
    next
      case False
      then have bj: "b j = a j" "Suc e \<le> j" using p(2) [of j] ij by (auto simp: exchange_at)
      moreover have "\<exists>k < j. b i = a k"
      proof (cases "i < e")
        case True
        then show ?thesis using below bj(2) by (meson Suc_le_eq le_less_trans)
      next
        case False
        then have "b i = (if i = e then a 0 else a i)" using p(2) [of i] by (auto simp: exchange_at)
        then show ?thesis using ij bj(2) by (metis Suc_le_eq gr_implies_not0 neq0_conv)
      qed
      ultimately show ?thesis using s ij unfolding sorted_from_def by auto
    qed
  qed
qed

lemma heapsort_sorts:
  assumes wo: "weak_order lt"
  shows "sorted_from lt 0 n (heapsort lt n a)" "mset (items n (heapsort lt n a)) = mset (items n a)"
proof -
  let ?b = "fold (\<lambda>s. sift lt s n) (rev [0 ..< n div 2]) a"
  let ?f = "\<lambda>k. fold (\<lambda>e a. sift lt 0 e (exchange 0 e a)) (rev [n - k ..< n]) ?b"
  have b: "heap_above lt 0 n n ?b" "mset (items n ?b) = mset (items n a)"
    using build_heap [OF wo, of "n div 2" n a] by auto
  have inv: "heap_above lt 0 (n - k) (n - k) (?f k) \<and> sorted_from lt (n - k) n (?f k) \<and> mset (items n (?f k)) = mset (items n a)"
    if "k < n \<or> k = 0" for k
    using that
  proof (induction k)
    case 0
    then show ?case using b by (auto simp: sorted_from_def)
  next
    case (Suc k)
    then have e: "Suc (n - Suc k) = n - k" "n - Suc k < n" by auto
    have l: "[n - Suc k ..< n] = (n - Suc k) # [n - k ..< n]"
      using e by (subst upt_rec) auto
    have "heap_above lt 0 (Suc (n - Suc k)) (Suc (n - Suc k)) (?f k)" "sorted_from lt (Suc (n - Suc k)) n (?f k)"
      "mset (items n (?f k)) = mset (items n a)"
      using Suc unfolding e(1) by auto
    from extract_step [OF wo this(1,2) e(2)] this(3) show ?case
      by (simp add: l)
  qed
  have "heapsort lt n a = ?f (n - 1)"
    by (cases n) (auto simp: heapsort_def)
  then show "mset (items n (heapsort lt n a)) = mset (items n a)" "sorted_from lt 0 n (heapsort lt n a)"
    using inv [of "n - 1"] by (cases "n = 0"; auto simp: sorted_from_def)+
qed

section \<open>The code refines heapsort\<close>

text \<open>Element \<open>i\<close> of the array, as the bytes at its address.\<close>

definition bytes_at :: "memory \<Rightarrow> u64 \<Rightarrow> u64 \<Rightarrow> u8 list" where
  "bytes_at m a sz = map (\<lambda>k. m (a + of_nat k)) [0 ..< unat sz]"

definition element :: "u64 \<Rightarrow> u64 \<Rightarrow> memory \<Rightarrow> nat \<Rightarrow> u8 list" where
  "element base sz m i = bytes_at m (base + of_nat i * sz) sz"

definition array_fits :: "u64 \<Rightarrow> u64 \<Rightarrow> nat \<Rightarrow> bool" where
  "array_fits base sz n \<longleftrightarrow> base \<noteq> 0 \<and> unat base + n * unat sz \<le> 2 ^ 64"

definition outside :: "u64 \<Rightarrow> u64 \<Rightarrow> nat \<Rightarrow> u64 \<Rightarrow> bool" where
  "outside base sz n a \<longleftrightarrow> n * unat sz \<le> unat (a - base)"

text \<open>The store holds the elements \<open>a\<close>, and equals \<open>m0\<close> outside the array.\<close>

definition holds :: "u64 \<Rightarrow> u64 \<Rightarrow> nat \<Rightarrow> memory \<Rightarrow> memory \<Rightarrow> (nat \<Rightarrow> u8 list) \<Rightarrow> bool" where
  "holds base sz n m0 m a \<longleftrightarrow> (\<forall>i < n. element base sz m i = a i) \<and> (\<forall>x. outside base sz n x \<longrightarrow> m x = m0 x)"

lemma swap_elements_at:
  assumes "\<And>i j. i < n \<Longrightarrow> j < n \<Longrightarrow> l + of_nat i \<noteq> r + (of_nat j :: u64)" "n \<le> 2 ^ 64"
  shows "fold (swap_byte l r) [0 ..< n] m x =
    (if unat (x - l) < n then m (r + (x - l)) else if unat (x - r) < n then m (l + (x - r)) else m x)"
  using assms
proof (induction n arbitrary: x)
  case (Suc n)
  let ?M = "fold (swap_byte l r) [0 ..< n] m"
  have n: "n < 2 ^ 64" using Suc.prems(2) by simp
  have apart: "unat (x - l) < Suc n \<Longrightarrow> unat (x - r) < Suc n \<Longrightarrow> False" for x
    using Suc.prems(1) [of "unat (x - l)" "unat (x - r)"] by simp
  have IH: "?M x = (if unat (x - l) < n then m (r + (x - l)) else if unat (x - r) < n then m (l + (x - r)) else m x)" for x
    using Suc by simp
  have o: "unat (l + of_nat n - l) = n" "unat (r + of_nat n - r) = n"
    using n by (simp_all add: unat_of_nat64)
  then have M: "?M (l + of_nat n) = m (l + of_nat n)" "?M (r + of_nat n) = m (r + of_nat n)"
    using apart [of "l + of_nat n"] apart [of "r + of_nat n"] unfolding IH by auto
  have "fold (swap_byte l r) [0 ..< Suc n] m x =
      (if x = r + of_nat n then m (l + of_nat n) else if x = l + of_nat n then m (r + of_nat n) else ?M x)"
    by (simp add: swap_byte_def M Let_def)
  also have "\<dots> = (if unat (x - l) < Suc n then m (r + (x - l)) else if unat (x - r) < Suc n then m (l + (x - r)) else m x)"
    using apart [of x] unat_diff_eq [OF n, of x l] unat_diff_eq [OF n, of x r] unfolding IH
    by (auto simp: less_Suc_eq)
  finally show ?case .
qed simp

lemma byte_offset:
  assumes "array_fits base sz n" "i < n" "k < unat sz"
  shows "unat (base + of_nat i * sz + of_nat k - base) = i * unat sz + k" "i * unat sz + k < n * unat sz"
proof -
  have "Suc i * unat sz \<le> n * unat sz" using assms(2) by (intro mult_le_mono1) simp
  then show l: "i * unat sz + k < n * unat sz" using assms(3) by simp
  have "base + of_nat i * sz + of_nat k - base = of_nat (i * unat sz + k)" by simp
  moreover have "i * unat sz + k < 2 ^ 64"
    using l assms(1) by (simp add: array_fits_def)
  ultimately show "unat (base + of_nat i * sz + of_nat k - base) = i * unat sz + k"
    by (simp only: unat_of_nat64)
qed

lemma in_element:
  assumes f: "array_fits base sz n" and i: "i < n" and x: "unat (x - (base + of_nat i * sz)) < unat sz"
  shows "unat (x - base) = i * unat sz + unat (x - (base + of_nat i * sz))"
  using byte_offset(1) [OF f i x] by simp

lemma element_index:
  assumes f: "array_fits base sz n" and "i < n" "j < n" "k < unat sz"
  shows "unat (base + of_nat j * sz + of_nat k - (base + of_nat i * sz)) < unat sz \<longleftrightarrow> i = j"
proof
  let ?x = "base + of_nat j * sz + of_nat k"
  assume l: "unat (?x - (base + of_nat i * sz)) < unat sz"
  then have "j * unat sz + k = i * unat sz + unat (?x - (base + of_nat i * sz))"
    using in_element [OF f assms(2) l] byte_offset(1) [OF f assms(3,4)] by simp
  then have "(j * unat sz + k) div unat sz = (i * unat sz + unat (?x - (base + of_nat i * sz))) div unat sz"
    by simp
  then show "i = j" using assms(4) l by simp
next
  assume "i = j"
  then show "unat (base + of_nat j * sz + of_nat k - (base + of_nat i * sz)) < unat sz"
    using assms(4) unat_lt_max64 [of sz] by (simp add: unat_of_nat64)
qed

lemma swap_elements_spec:
  fixes m :: memory
  assumes f: "array_fits base sz n" and ij: "i < n" "j < n" "i \<noteq> j"
  defines "m' \<equiv> swap_elements (base + of_nat i * sz) (base + of_nat j * sz) sz m"
  shows "k < n \<Longrightarrow> element base sz m' k = exchange i j (element base sz m) k"
    "outside base sz n x \<Longrightarrow> m' x = m x"
proof -
  let ?l = "base + of_nat i * sz" and ?r = "base + of_nat j * sz"
  have at: "m' x = (if unat (x - ?l) < unat sz then m (?r + (x - ?l)) else if unat (x - ?r) < unat sz then m (?l + (x - ?r)) else m x)" for x
    unfolding m'_def swap_elements_def
  proof (rule swap_elements_at)
    fix a b assume ab: "a < unat sz" "b < unat sz"
    show "?l + of_nat a \<noteq> ?r + of_nat b"
      using element_index [OF f ij(1) ij(1) ab(1)] element_index [OF f ij(1) ij(2) ab(2)] ij(3) by metis
  qed (use unat_lt_max64 [of sz] in simp)
  show "outside base sz n x \<Longrightarrow> m' x = m x"
    using in_element [OF f ij(1), of x] in_element [OF f ij(2), of x] byte_offset(2) [OF f ij(1)] byte_offset(2) [OF f ij(2)]
    unfolding at outside_def by (metis not_le)
  assume k: "k < n"
  show "element base sz m' k = exchange i j (element base sz m) k"
    unfolding exchange_at
    using element_index [OF f ij(1) k] element_index [OF f ij(2) k] ij(3)
    by (auto simp: element_def bytes_at_def at algebra_simps)
qed

text \<open>
  A comparison function is the sign of an order on the bytes of the elements; \<open>order_lt\<close> is the
  strict part.
\<close>

definition order_lt :: "(u8 list \<Rightarrow> u8 list \<Rightarrow> int) \<Rightarrow> u8 list \<Rightarrow> u8 list \<Rightarrow> bool" where
  "order_lt ord x y \<longleftrightarrow> ord x y < 0"

definition compares :: "comparator \<Rightarrow> u64 \<Rightarrow> (u8 list \<Rightarrow> u8 list \<Rightarrow> int) \<Rightarrow> bool" where
  "compares compare sz ord \<longleftrightarrow> (\<forall>m p q. compare m p q = ord (bytes_at m p sz) (bytes_at m q sz))"

lemma holds_swap:
  assumes f: "array_fits base sz n" and h: "holds base sz n m0 m a" and ij: "i < n" "j < n" "i \<noteq> j"
  shows "holds base sz n m0 (swap_elements (base + of_nat i * sz) (base + of_nat j * sz) sz m) (exchange i j a)"
  using h ij swap_elements_spec [OF f ij] by (auto simp: holds_def exchange_at)

lemma element_compare:
  assumes "compares compare sz ord" "holds base sz n m0 m a" "unat i < n" "unat j < n"
  shows "compare m (base + i * sz) (base + j * sz) < 0 \<longleftrightarrow> order_lt ord (a (unat i)) (a (unat j))"
proof -
  have "bytes_at m (base + k * sz) sz = a (unat k)" if "unat k < n" for k
    using assms(2) that by (auto simp: holds_def element_def dest: spec [of _ "unat k"])
  then show ?thesis
    using assms by (simp add: compares_def order_lt_def)
qed

lemma sift_down_refines:
  assumes "array_fits base sz n" and "compares compare sz ord" and "holds base sz n m0 m a" "unat cnt \<le> n"
  shows "holds base sz n m0 (sift_down base root cnt sz compare m) (sift (order_lt ord) (unat root) (unat cnt) a)"
  using assms
proof (induction base root cnt sz compare m arbitrary: a rule: sift_down.induct)
  case (1 base root cnt sz compare m)
  let ?lt = "order_lt ord"
  show ?case
  proof (cases "root < cnt div 2")
    case True
    note hc = half_child [OF True]
    define child where "child = (if root * 2 + 1 + 1 < cnt \<and>
      compare m (base + (root * 2 + 1) * sz) (base + (root * 2 + 1 + 1) * sz) < 0 then root * 2 + 1 + 1 else root * 2 + 1)"
    note cmp = element_compare [OF 1(3,4)]
    have c: "unat child = big_child ?lt (unat cnt) a (unat root)"
      using hc 1(5) cmp [of "root * 2 + 1" "root * 2 + 1 + 1"] by (auto simp: child_def big_child_def)
    have lim: "unat root < n" "unat child < n" "unat root \<noteq> unat child"
      using hc big_child_less [of "unat root" "unat cnt" ?lt a] big_child_cases [of ?lt "unat cnt" a "unat root"] 1(5)
      by (auto simp: c)
    have step: "sift_down base root cnt sz compare m =
      (if compare m (base + root * sz) (base + child * sz) \<ge> 0 then m
       else sift_down base child cnt sz compare (swap_elements (base + root * sz) (base + child * sz) sz m))"
      unfolding sift_down.simps [of base root] child_def Let_def using True by simp
    have sift: "sift ?lt (unat root) (unat cnt) a =
      (if ?lt (a (unat root)) (a (unat child)) then sift ?lt (unat child) (unat cnt) (exchange (unat root) (unat child) a) else a)"
      unfolding sift.simps [of ?lt "unat root"] c using hc(3) by simp
    show ?thesis
    proof (cases "compare m (base + root * sz) (base + child * sz) < 0")
      case less: True
      let ?m = "swap_elements (base + root * sz) (base + child * sz) sz m"
      have "holds base sz n m0 ?m (exchange (unat root) (unat child) a)"
        using holds_swap [OF 1(2,4) lim] by simp
      then have "holds base sz n m0 (sift_down base child cnt sz compare ?m)
          (sift ?lt (unat child) (unat cnt) (exchange (unat root) (unat child) a))"
        using less 1(2,3,5) by (intro 1(1) [OF True refl child_def]) auto
      then show ?thesis
        using less cmp [OF lim(1,2)] by (simp add: step sift)
    next
      case False
      then show ?thesis
        using cmp [OF lim(1,2)] 1(4) by (simp add: step sift)
    qed
  next
    case False
    then have "\<not> unat root < unat cnt div 2"
      by (simp add: word_less_nat_alt unat_div)
    then show ?thesis
      using False 1(4) by (subst sift_down.simps, subst sift.simps) simp
  qed
qed

text \<open>What a comparison function must satisfy: signs are antisymmetric and the order is transitive.\<close>

definition comparison_order :: "(u8 list \<Rightarrow> u8 list \<Rightarrow> int) \<Rightarrow> bool" where
  "comparison_order ord \<longleftrightarrow> (\<forall>x y. ord x y < 0 \<longleftrightarrow> ord y x > 0) \<and>
     (\<forall>x y z. ord x y \<le> 0 \<longrightarrow> ord y z \<le> 0 \<longrightarrow> ord x z \<le> 0)"

lemma comparison_weak_order: "comparison_order ord \<Longrightarrow> weak_order (order_lt ord)"
  unfolding comparison_order_def weak_order_def order_lt_def by (meson linorder_not_less less_asym)

lemma fold_holds:
  assumes "\<And>x m a. x \<in> set xs \<Longrightarrow> holds base sz n m0 m a \<Longrightarrow> holds base sz n m0 (f x m) (g x a)" "holds base sz n m0 m a"
  shows "holds base sz n m0 (fold f xs m) (fold g xs a)"
  using assms by (induction xs arbitrary: m a) auto

lemma array_fits_count:
  assumes "array_fits base sz (unat n)" "sz \<noteq> 0"
  shows "\<not> n > -1 div sz"
proof -
  have "unat n * unat sz \<le> 2 ^ 64 - 1"
    using assms(1) unat_gt_0 [of base] unfolding array_fits_def by linarith
  then have "unat n \<le> (2 ^ 64 - 1) div unat sz"
    using assms(2) by (simp add: less_eq_div_iff_mult_less_eq unat_gt_0)
  moreover have "unat (-1 div sz) = (2 ^ 64 - 1) div unat sz"
    by (simp add: unat_div unsigned_minus_1_eq_mask mask_eq_exp_minus_1)
  ultimately show ?thesis
    by (simp add: word_less_nat_alt)
qed

lemma qsort_refines:
  assumes f: "array_fits base sz (unat n)" and c: "compares compare sz ord" and "sz \<noteq> 0" "\<not> n < 2"
  shows "holds base sz (unat n) m (qsort base n sz (Some compare) m) (heapsort (order_lt ord) (unat n) (element base sz m))"
proof -
  let ?h = "holds base sz (unat n) m" and ?lt = "order_lt ord"
  have small: "unat (of_nat i :: u64) = i" if "i \<le> unat n" for i
    using that unat_lt_max64 [of n] by (simp add: unat_of_nat64)
  let ?m = "fold (\<lambda>start. sift_down base (of_nat start) n sz compare) (rev [0 ..< unat (n div 2)]) m"
  have half: "unat (n div 2) = unat n div 2" by (simp add: unat_div)
  have "?h ?m (fold (\<lambda>s. sift ?lt s (unat n)) (rev [0 ..< unat n div 2]) (element base sz m))"
    unfolding half
  proof (rule fold_holds)
    fix s and m' :: memory and a assume "s \<in> set (rev [0 ..< unat n div 2])" "?h m' a"
    then show "?h (sift_down base (of_nat s) n sz compare m') (sift ?lt s (unat n) a)"
      using sift_down_refines [OF f c, of m m' a n "of_nat s"] small [of s] by simp
  qed (simp add: holds_def)
  moreover have "?h (fold (\<lambda>last m. sift_down base 0 (of_nat last) sz compare (swap_elements base (base + of_nat last * sz) sz m)) (rev [1 ..< unat n]) ?m)
      (fold (\<lambda>e a. sift ?lt 0 e (exchange 0 e a)) (rev [1 ..< unat n]) a)" if "?h ?m a" for a
  proof (rule fold_holds [OF _ that])
    fix e and m' :: memory and a assume e: "e \<in> set (rev [1 ..< unat n])" and h: "?h m' a"
    then have "?h (swap_elements base (base + of_nat e * sz) sz m') (exchange 0 e a)"
      using holds_swap [OF f h, of 0 e] by auto
    then show "?h (sift_down base 0 (of_nat e) sz compare (swap_elements base (base + of_nat e * sz) sz m')) (sift ?lt 0 e (exchange 0 e a))"
      using sift_down_refines [OF f c, of m _ _ "of_nat e" 0] small [of e] e by simp
  qed
  ultimately show ?thesis
    using assms(3,4) f array_fits_count [OF f assms(3)]
    by (simp add: qsort_def heapsort_def Let_def array_fits_def)
qed

section \<open>The claims\<close>

text \<open>
  C25. \<^verbatim>\<open>qsort\<close> sorts: for a comparison function that is a total preorder on the elements, the
  array afterwards holds the same elements with the same multiplicities in ascending order, and
  no byte outside the array has changed.
\<close>

theorem qsort_sorts:
  assumes "comparison_order ord" "compares compare sz ord" "array_fits base sz (unat n)"
  shows "sorted_wrt (\<lambda>x y. ord x y \<le> 0) (items (unat n) (element base sz (qsort base n sz (Some compare) m))) \<and>
    mset (items (unat n) (element base sz (qsort base n sz (Some compare) m))) = mset (items (unat n) (element base sz m)) \<and>
    (\<forall>x. outside base sz (unat n) x \<longrightarrow> qsort base n sz (Some compare) m x = m x)"
proof (cases "sz = 0 \<or> n < 2")
  case True
  then have q: "qsort base n sz (Some compare) m = m" by (auto simp: qsort_def)
  have r: "ord x x \<le> 0" for x using assms(1) unfolding comparison_order_def by (metis less_asym linorder_not_less)
  have "element base sz m i = []" if "sz = 0" for i using that by (simp add: element_def bytes_at_def)
  then have "sorted_wrt (\<lambda>x y. ord x y \<le> 0) (items (unat n) (element base sz m))"
    using True r by (auto simp: sorted_wrt_iff_nth_less items_def word_less_nat_alt)
  then show ?thesis by (simp add: q)
next
  case False
  let ?m = "qsort base n sz (Some compare) m" and ?a = "heapsort (order_lt ord) (unat n) (element base sz m)"
  have h: "holds base sz (unat n) m ?m ?a" using qsort_refines [OF assms(3,2)] False by simp
  then have e: "items (unat n) (element base sz ?m) = items (unat n) ?a"
    by (auto simp: holds_def items_def)
  note s = heapsort_sorts [OF comparison_weak_order [OF assms(1)], of "unat n" "element base sz m"]
  have "ord x y \<le> 0 \<longleftrightarrow> \<not> order_lt ord y x" for x y
    using assms(1) unfolding comparison_order_def order_lt_def by (meson linorder_not_less)
  then have "sorted_wrt (\<lambda>x y. ord x y \<le> 0) (items (unat n) ?a)"
    using s(1) by (auto simp: sorted_from_def sorted_wrt_iff_nth_less items_def)
  then show ?thesis
    using h s(2) e by (simp add: holds_def)
qed

definition byte_order :: "u8 list \<Rightarrow> u8 list \<Rightarrow> int" where
  "byte_order x y = uint (hd (x @ [0])) - uint (hd (y @ [0]))"

definition byte_compare :: comparator where
  "byte_compare m p q = uint (m p) - uint (m q)"

lemma byte_compares: "compares byte_compare 1 byte_order" "comparison_order byte_order"
  by (auto simp: compares_def byte_compare_def byte_order_def bytes_at_def comparison_order_def)

theorem qsort_sorts_witness:
  "sorted_wrt (\<lambda>x y. byte_order x y \<le> 0) (items 5 (element 0x1000 1 (qsort 0x1000 5 1 (Some byte_compare) (\<lambda>a. 3 * ucast a)))) \<and>
    mset (items 5 (element 0x1000 1 (qsort 0x1000 5 1 (Some byte_compare) (\<lambda>a. 3 * ucast a)))) =
      mset (items 5 (element 0x1000 1 (\<lambda>a. 3 * ucast a)))"
  using qsort_sorts [OF byte_compares(2,1), of "0x1000" 5 "\<lambda>a. 3 * ucast a"]
  by (simp add: array_fits_def)

section \<open>Binary search\<close>

text \<open>
  The order of the elements relative to the key: first those below it, then the equal ones, then
  those above, where \<open>kord\<close> is the comparison of the key with an element.
\<close>

definition key_sorted :: "(u8 list \<Rightarrow> int) \<Rightarrow> u8 list list \<Rightarrow> bool" where
  "key_sorted kord es \<longleftrightarrow> sorted_wrt (\<lambda>x y. sgn (kord y) \<le> sgn (kord x)) es"

lemma bsearch_loop_spec:
  fixes n :: u64
  assumes f: "array_fits base sz (unat n)" and c: "\<And>i. i < unat n \<Longrightarrow> compare m key (base + of_nat i * sz) = k i"
    and s: "\<And>i j. i < j \<Longrightarrow> j < unat n \<Longrightarrow> sgn (k j) \<le> sgn (k i :: int)"
    and "unat first + unat cnt \<le> unat n" "\<forall>i < unat first. k i > 0" "\<forall>i < unat n. unat first + unat cnt \<le> i \<longrightarrow> k i < 0"
  shows "if \<exists>i < unat n. k i = 0 then \<exists>i < unat n. k i = 0 \<and> bsearch_loop key base first cnt sz compare m = base + of_nat i * sz
    else bsearch_loop key base first cnt sz compare m = 0"
  using assms(4-6)
proof (induction "unat cnt" arbitrary: first cnt rule: less_induct)
  case less
  show ?case
  proof (cases "cnt = 0")
    case True
    have "\<not> (\<exists>i < unat n. k i = 0)"
      using less.prems True by (metis add.right_neutral linorder_not_less order_less_irrefl unsigned_0)
    then show ?thesis
      using True by (auto simp: bsearch_loop.simps [of key base first 0])
  next
    case False
    note hs = half_step [OF False]
    define i where "i = unat first + unat cnt div 2"
    have i: "i < unat n" "unat (first + cnt div 2) = i"
      using less.prems(1) hs unat_lt_max64 [of n] by (auto simp: i_def unat_word_ariths)
    have ix: "first + cnt div 2 = of_nat i"
      unfolding i(2) [symmetric] by simp
    have step: "bsearch_loop key base first cnt sz compare m =
      (if k i = 0 then base + of_nat i * sz
       else if k i > 0 then bsearch_loop key base (first + cnt div 2 + 1) (cnt - (cnt div 2 + 1)) sz compare m
       else bsearch_loop key base first (cnt div 2) sz compare m)"
      using False c [OF i(1)] by (subst bsearch_loop.simps) (simp add: Let_def ix)
    consider "k i = 0" | "k i > 0" | "k i < 0" by linarith
    then show ?thesis
    proof cases
      case 1
      then show ?thesis using i(1) by (auto simp: step)
    next
      case 2
      have up: "unat (first + cnt div 2 + 1) = i + 1"
        using i unat_lt_max64 [of n] by (simp add: ix unat_word_ariths unat_of_nat64)
      have "k j > 0" if "j < i" for j
        using s [OF that i(1)] 2 by (simp add: sgn_if split: if_splits)
      then have "\<forall>j < unat (first + cnt div 2 + 1). k j > 0"
        using 2 unfolding up by (metis add.commute less_antisym plus_1_eq_Suc)
      then have "if \<exists>i < unat n. k i = 0 then \<exists>i < unat n. k i = 0 \<and>
          bsearch_loop key base (first + cnt div 2 + 1) (cnt - (cnt div 2 + 1)) sz compare m = base + of_nat i * sz
        else bsearch_loop key base (first + cnt div 2 + 1) (cnt - (cnt div 2 + 1)) sz compare m = 0"
        using less.prems hs up by (intro less.hyps) (simp_all add: i_def)
      then show ?thesis
        unfolding step using 2 by simp
    next
      case 3
      have "k j < 0" if "j < unat n" "i \<le> j" for j
      proof (cases "i = j")
        case False
        then show ?thesis using s [of i j] that 3 by (simp add: sgn_if split: if_splits)
      qed (use 3 in simp)
      then have "if \<exists>i < unat n. k i = 0 then \<exists>i < unat n. k i = 0 \<and>
          bsearch_loop key base first (cnt div 2) sz compare m = base + of_nat i * sz
        else bsearch_loop key base first (cnt div 2) sz compare m = 0"
        using less.prems hs by (intro less.hyps) (simp_all add: i_def)
      then show ?thesis
        unfolding step using 3 by simp
    qed
  qed
qed

text \<open>
  \<^verbatim>\<open>bsearch\<close> on an array that is sorted relative to the key returns the address of an element
  that compares equal to the key when there is one, and the null pointer when there is none.
\<close>

lemma bsearch_correct:
  assumes "array_fits base sz (unat n)" "key \<noteq> 0" "sz \<noteq> 0"
    and "\<forall>i < unat n. compare m key (base + of_nat i * sz) = kord (element base sz m i)"
    and "key_sorted kord (items (unat n) (element base sz m))"
  shows "if \<exists>i < unat n. kord (element base sz m i) = 0
    then \<exists>i < unat n. kord (element base sz m i) = 0 \<and> bsearch key base n sz (Some compare) m = base + of_nat i * sz
    else bsearch key base n sz (Some compare) m = 0"
proof -
  have "bsearch key base n sz (Some compare) m = bsearch_loop key base 0 n sz compare m"
    using assms(1-3) array_fits_count [OF assms(1,3)] by (simp add: bsearch_def array_fits_def)
  moreover have "sgn (kord (element base sz m j)) \<le> sgn (kord (element base sz m i))" if "i < j" "j < unat n" for i j
    using assms(5) that by (simp add: key_sorted_def sorted_wrt_iff_nth_less items_def)
  ultimately show ?thesis
    using bsearch_loop_spec [OF assms(1), of compare m key "\<lambda>i. kord (element base sz m i)" 0 n] assms(4) by simp
qed

lemma bsearch_correct_witness:
  "\<exists>i < 4. bsearch 0x2000 0x1000 4 1 (Some byte_compare) ((\<lambda>_. 0)(0x2000 := 7, 0x1002 := 7, 0x1003 := 9)) = 0x1000 + of_nat i \<and>
     7 - uint (hd (element 0x1000 1 ((\<lambda>_. 0)(0x2000 := 7, 0x1002 := 7, 0x1003 := 9)) i)) = 0"
proof -
  let ?m = "(\<lambda>_. 0)(0x2000 := 7, 0x1002 := 7, 0x1003 := 9) :: memory"
  have four: "i < 4 \<longleftrightarrow> i = 0 \<or> i = 1 \<or> i = 2 \<or> i = 3" for i :: nat by auto
  have e: "element 0x1000 1 ?m 0 = [0]" "element 0x1000 1 ?m 1 = [0]" "element 0x1000 1 ?m 2 = [7]" "element 0x1000 1 ?m 3 = [9]"
    by (simp_all add: element_def bytes_at_def)
  then have "key_sorted (\<lambda>e. 7 - uint (hd e)) (items (unat (4 :: u64)) (element 0x1000 1 ?m))"
    by (simp add: key_sorted_def items_def upt_rec flip: numeral_2_eq_2 numeral_3_eq_3)
  moreover have "\<forall>i < unat (4 :: u64). byte_compare ?m 0x2000 (0x1000 + of_nat i * 1) = 7 - uint (hd (element 0x1000 1 ?m i))"
    using e by (auto simp: four byte_compare_def)
  moreover have "\<exists>i < unat (4 :: u64). 7 - uint (hd (element 0x1000 1 ?m i)) = 0"
    using e(3) by (intro exI [of _ 2]) simp
  ultimately show ?thesis
    using bsearch_correct [of "0x1000" 1 4 "0x2000" byte_compare ?m "\<lambda>e. 7 - uint (hd e)"]
    by (auto simp: array_fits_def)
qed

end
