(* ===== verification/Errno.thy ===== *)
theory Errno
  imports C_Memory
begin

unbundle bit_operations_syntax

text \<open>
  The error numbers of the system, \<^verbatim>\<open>sdk/include/akaos/errno.h\<close> and \<^verbatim>\<open>userspace/libc/include/errno.h\<close>,
  and their messages, \<^verbatim>\<open>strerror\<close> and \<^verbatim>\<open>strerror_r\<close> of \<^verbatim>\<open>userspace/libc/src/string.c\<close>. The kernel's
  interface returns the negated number; the library stores the number in \<^verbatim>\<open>errno\<close>. The theories of the
  development use the constructors as the error values of their models.
\<close>

section \<open>The numbers\<close>

datatype (plugins only: size) errno =
    EPERM | ENOENT | ESRCH | EBADF | ECHILD | EAGAIN | ENOMEM | EACCES
  | EFAULT | EBUSY | EEXIST | EXDEV | ENODEV | ENOTDIR | EISDIR | EINVAL
  | ENOTTY | EINTR | E2BIG | ENOEXEC | EIO | ENXIO | EPROTOTYPE | EINPROGRESS
  | ENFILE | EMFILE | EROFS | EPIPE | ENOSPC | ESPIPE | EPROTO | ENOSYS
  | ENOTEMPTY | ELOOP | ENOTSOCK | ECONNRESET | ENOTCONN | ESHUTDOWN | ETIMEDOUT | ECONNREFUSED
  | EHOSTUNREACH | EMSGSIZE | EOPNOTSUPP | EAFNOSUPPORT | EPROTONOSUPPORT | ENOPROTOOPT | EADDRINUSE | EDOM
  | ERANGE | EOVERFLOW | ENAMETOOLONG | ECANCELED | EILSEQ | EDEADLK | ENOLCK | EBADMSG
  | EDESTADDRREQ | ESOCKTNOSUPPORT | EPFNOSUPPORT | EADDRNOTAVAIL | ENETDOWN | ENETUNREACH | ENETRESET | ECONNABORTED
  | ENOBUFS | EISCONN | ETOOMANYREFS | EHOSTDOWN | EALREADY

primrec errno_code :: "errno \<Rightarrow> int" where
  "errno_code EPERM = 1"
| "errno_code ENOENT = 2"
| "errno_code ESRCH = 3"
| "errno_code EINTR = 4"
| "errno_code E2BIG = 7"
| "errno_code ENOEXEC = 8"
| "errno_code EBADF = 9"
| "errno_code ECHILD = 10"
| "errno_code EAGAIN = 11"
| "errno_code ENOMEM = 12"
| "errno_code EACCES = 13"
| "errno_code EFAULT = 14"
| "errno_code EBUSY = 16"
| "errno_code EEXIST = 17"
| "errno_code EXDEV = 18"
| "errno_code ENODEV = 19"
| "errno_code ENOTDIR = 20"
| "errno_code EISDIR = 21"
| "errno_code EINVAL = 22"
| "errno_code ENOTTY = 25"
| "errno_code ENFILE = 23"
| "errno_code EMFILE = 24"
| "errno_code EROFS = 30"
| "errno_code EPIPE = 32"
| "errno_code ENOSPC = 28"
| "errno_code ESPIPE = 29"
| "errno_code EPROTO = 71"
| "errno_code ENOSYS = 38"
| "errno_code ENOTEMPTY = 39"
| "errno_code ELOOP = 40"
| "errno_code EIO = 5"
| "errno_code ENXIO = 6"
| "errno_code EPROTOTYPE = 91"
| "errno_code EINPROGRESS = 115"
| "errno_code ECONNRESET = 104"
| "errno_code ENOTCONN = 107"
| "errno_code ESHUTDOWN = 108"
| "errno_code ETIMEDOUT = 110"
| "errno_code ECONNREFUSED = 111"
| "errno_code EHOSTUNREACH = 113"
| "errno_code EMSGSIZE = 90"
| "errno_code EOPNOTSUPP = 95"
| "errno_code EAFNOSUPPORT = 97"
| "errno_code EPROTONOSUPPORT = 93"
| "errno_code EADDRINUSE = 98"
| "errno_code EDOM = 33"
| "errno_code ERANGE = 34"
| "errno_code EOVERFLOW = 75"
| "errno_code ENAMETOOLONG = 36"
| "errno_code ENOTSOCK = 88"
| "errno_code ECANCELED = 125"
| "errno_code ENOPROTOOPT = 92"
| "errno_code EILSEQ = 84"
| "errno_code EDEADLK = 35"
| "errno_code ENOLCK = 37"
| "errno_code EBADMSG = 74"
| "errno_code EDESTADDRREQ = 89"
| "errno_code ESOCKTNOSUPPORT = 94"
| "errno_code EPFNOSUPPORT = 96"
| "errno_code EADDRNOTAVAIL = 99"
| "errno_code ENETDOWN = 100"
| "errno_code ENETUNREACH = 101"
| "errno_code ENETRESET = 102"
| "errno_code ECONNABORTED = 103"
| "errno_code ENOBUFS = 105"
| "errno_code EISCONN = 106"
| "errno_code ETOOMANYREFS = 109"
| "errno_code EHOSTDOWN = 112"
| "errno_code EALREADY = 114"

abbreviation EWOULDBLOCK :: errno where "EWOULDBLOCK \<equiv> EAGAIN"

abbreviation ENOTSUP :: errno where "ENOTSUP \<equiv> EOPNOTSUPP"

section \<open>The messages\<close>

definition strerror :: "int \<Rightarrow> string" where
  "strerror errnum =
     (if errnum = 0 then ''Success''
      else if errnum = 1 then ''Operation not permitted''
      else if errnum = 2 then ''No such file or directory''
      else if errnum = 3 then ''No such process''
      else if errnum = 4 then ''Interrupted system call''
      else if errnum = 5 then ''Input/output error''
      else if errnum = 6 then ''No such device or address''
      else if errnum = errno_code ENOEXEC then ''Exec format error''
      else if errnum = 9 then ''Bad file descriptor''
      else if errnum = 10 then ''No child processes''
      else if errnum = 11 then ''Resource temporarily unavailable''
      else if errnum = 12 then ''Cannot allocate memory''
      else if errnum = 13 then ''Permission denied''
      else if errnum = 14 then ''Bad address''
      else if errnum = 16 then ''Device or resource busy''
      else if errnum = 17 then ''File exists''
      else if errnum = errno_code EXDEV then ''Cross-device link''
      else if errnum = 19 then ''No such device''
      else if errnum = 20 then ''Not a directory''
      else if errnum = 21 then ''Is a directory''
      else if errnum = 22 then ''Invalid argument''
      else if errnum = errno_code ENFILE then ''Too many open files in system''
      else if errnum = errno_code EMFILE then ''Too many open files''
      else if errnum = 25 then ''Inappropriate ioctl for device''
      else if errnum = 28 then ''No space left on device''
      else if errnum = errno_code ESPIPE then ''Illegal seek''
      else if errnum = 30 then ''Read-only file system''
      else if errnum = 32 then ''Broken pipe''
      else if errnum = 38 then ''Function not implemented''
      else if errnum = 39 then ''Directory not empty''
      else if errnum = errno_code ELOOP then ''Too many levels of symbolic links''
      else if errnum = 104 then ''Connection reset by peer''
      else if errnum = 107 then ''Transport endpoint is not connected''
      else if errnum = 110 then ''Connection timed out''
      else if errnum = 111 then ''Connection refused''
      else if errnum = 113 then ''No route to host''
      else ''Unknown error'')"

text \<open>A message as the bytes of a C string, with its terminator.\<close>

definition text_bytes :: "string \<Rightarrow> u8 list" where
  "text_bytes s = map of_char s @ [0]"

definition put_bytes :: "u64 \<Rightarrow> u8 list \<Rightarrow> memory \<Rightarrow> memory" where
  "put_bytes d xs m = fold (\<lambda>i m. m(d + of_nat i := xs ! i)) [0 ..< length xs] m"

definition strerror_r :: "int \<Rightarrow> u64 \<Rightarrow> u64 \<Rightarrow> memory \<Rightarrow> errno option \<times> memory" where
  "strerror_r errnum buffer capacity m =
     (if buffer = 0 \<or> capacity = 0 then (Some EINVAL, m)
      else
        let message = strerror errnum; len = length message in
        if of_nat len \<ge> capacity then
          if capacity > 1
          then (Some ERANGE, (put_bytes buffer (take (unat (capacity - 1)) (text_bytes message)) m)(buffer + (capacity - 1) := 0))
          else (Some ERANGE, m(buffer := 0))
        else (None, put_bytes buffer (take (len + 1) (text_bytes message)) m))"

section \<open>Checksum\<close>

definition crc32_bit :: "u32 \<Rightarrow> u32" where
  "crc32_bit crc = drop_bit 1 crc XOR (0xEDB88320 AND (- (crc AND 1)))"

definition crc32_byte :: "u32 \<Rightarrow> u8 \<Rightarrow> u32" where
  "crc32_byte crc b = (crc32_bit ^^ 8) (crc XOR ucast b)"

definition akaos_crc32 :: "u32 \<Rightarrow> u64 \<Rightarrow> u64 \<Rightarrow> memory \<Rightarrow> u32" where
  "akaos_crc32 crc buf len m =
     NOT (fold (\<lambda>i crc. crc32_byte crc (m (buf + of_nat i))) [0 ..< unat len] (NOT crc))"

section \<open>Properties\<close>

definition all_errnos :: "errno list" where
  "all_errnos =
    [EPERM, ENOENT, ESRCH, EBADF, ECHILD, EAGAIN, ENOMEM, EACCES,
     EFAULT, EBUSY, EEXIST, EXDEV, ENODEV, ENOTDIR, EISDIR, EINVAL,
     ENOTTY, EINTR, E2BIG, ENOEXEC, EIO, ENXIO, EPROTOTYPE, EINPROGRESS,
     ENFILE, EMFILE, EROFS, EPIPE, ENOSPC, ESPIPE, EPROTO, ENOSYS,
     ENOTEMPTY, ELOOP, ENOTSOCK, ECONNRESET, ENOTCONN, ESHUTDOWN, ETIMEDOUT, ECONNREFUSED,
     EHOSTUNREACH, EMSGSIZE, EOPNOTSUPP, EAFNOSUPPORT, EPROTONOSUPPORT, ENOPROTOOPT, EADDRINUSE, EDOM,
     ERANGE, EOVERFLOW, ENAMETOOLONG, ECANCELED, EILSEQ, EDEADLK, ENOLCK, EBADMSG,
     EDESTADDRREQ, ESOCKTNOSUPPORT, EPFNOSUPPORT, EADDRNOTAVAIL, ENETDOWN, ENETUNREACH, ENETRESET, ECONNABORTED,
     ENOBUFS, EISCONN, ETOOMANYREFS, EHOSTDOWN, EALREADY]"

lemma errno_in_all: "e \<in> set all_errnos"
  by (cases e) (simp_all add: all_errnos_def)

lemma errno_code_distinct: "distinct (map errno_code all_errnos)"
  by (simp add: all_errnos_def)

text \<open>Different errors have different numbers, so a number that a call returns identifies the error.\<close>

lemma errno_code_inj: "errno_code e = errno_code e' \<longleftrightarrow> e = e'"
  using errno_code_distinct errno_in_all [of e] errno_in_all [of e'] by (auto simp: distinct_map dest: inj_onD)

lemma put_bytes_at:
  assumes "length xs < 2 ^ 64"
  shows "put_bytes d xs m a = (if unat (a - d) < length xs then xs ! unat (a - d) else m a)"
proof -
  have "fold (\<lambda>i m. m(d + of_nat i := xs ! i)) [0 ..< n] m a = (if unat (a - d) < n then xs ! unat (a - d) else m a)"
    if "n \<le> length xs" for n
    using that
  proof (induction n)
    case (Suc n)
    have "n < 2 ^ 64" using Suc.prems assms by simp
    from unat_diff_eq [OF this, of a d] show ?case
      using Suc by (auto simp: less_Suc_eq)
  qed simp
  then show ?thesis by (simp add: put_bytes_def)
qed

lemma strerror_length: "length (strerror e) \<le> 40"
  by (simp add: strerror_def)

text \<open>
  \<^verbatim>\<open>strerror_r\<close> writes only into the buffer and leaves a terminated text there; the text is the whole
  message exactly when no error is reported.
\<close>

lemma strerror_r_bounded:
  assumes "buffer \<noteq> 0" "capacity \<noteq> 0" "strerror_r errnum buffer capacity m = (e, m')"
  shows "\<not> a - buffer < capacity \<Longrightarrow> m' a = m a" "\<exists>k < capacity. m' (buffer + k) = 0"
    "e = None \<longleftrightarrow> length (strerror errnum) < unat capacity"
proof -
  let ?s = "strerror errnum"
  have len: "unat (of_nat (length ?s) :: u64) = length ?s" "length ?s + 1 < 2 ^ 64"
    using strerror_length [of errnum] by (simp_all add: unat_of_nat64)
  have cap: "unat (capacity - 1) = unat capacity - 1" "0 < unat capacity" "unat capacity < 2 ^ 64"
    using assms(2) unat_lt_max64 [of capacity] by (simp_all add: word_facts unat_gt_0)
  show "e = None \<longleftrightarrow> length ?s < unat capacity"
    using assms len by (auto simp: strerror_r_def Let_def word_le_nat_alt split: if_splits)
  show "m' a = m a" if "\<not> a - buffer < capacity"
    using assms that len cap
    by (auto simp: strerror_r_def Let_def put_bytes_at word_le_nat_alt word_less_nat_alt text_bytes_def split: if_splits)
  show "\<exists>k < capacity. m' (buffer + k) = 0"
  proof (cases "length ?s < unat capacity")
    case True
    then have "m' (buffer + of_nat (length ?s)) = 0"
      using assms len by (auto simp: strerror_r_def Let_def put_bytes_at word_le_nat_alt text_bytes_def nth_append split: if_splits)
    then show ?thesis using True len by (intro exI [of _ "of_nat (length ?s)"]) (simp add: word_less_nat_alt)
  next
    case False
    have one: "\<not> 1 < capacity \<Longrightarrow> capacity - 1 = 0"
      using cap by (simp add: word_less_nat_alt word_unat_eq_iff)
    have "m' (buffer + (capacity - 1)) = 0"
      using False assms len one by (auto simp: strerror_r_def Let_def word_le_nat_alt split: if_splits)
    then show ?thesis using cap by (intro exI [of _ "capacity - 1"]) (simp add: word_less_nat_alt)
  qed
qed

text \<open>A checksum can be continued: the result for a prefix is the start value for the rest.\<close>

lemma crc32_continue:
  assumes "unat n + unat k < 2 ^ 64"
  shows "akaos_crc32 (akaos_crc32 crc buf n m) (buf + n) k m = akaos_crc32 crc buf (n + k) m"
proof -
  define f where "f i crc = crc32_byte crc (m (buf + of_nat i))" for i crc
  have g: "(\<lambda>i crc. crc32_byte crc (m (buf + n + of_nat i))) = (\<lambda>i. f (i + unat n))"
    by (simp add: f_def fun_eq_iff add.commute add.left_commute)
  have "unat (n + k) = unat n + unat k"
    using assms by (simp add: unat_word_ariths)
  then have "[0 ..< unat (n + k)] = [0 ..< unat n] @ map (\<lambda>i. i + unat n) [0 ..< unat k]"
    by (simp add: upt_add_eq_append [of 0] map_add_upt) (simp add: add.commute)
  moreover have "NOT (NOT x) = x" for x :: u32 by simp
  ultimately show ?thesis
    unfolding akaos_crc32_def f_def [symmetric] g by (simp only: fold_append fold_map o_def)
qed

end
