(* ===== verification/C_Number.thy ===== *)
theory C_Number
  imports C_String Errno "HOL-Library.Signed_Division"
begin

text \<open>
  Numbers from text, \<^verbatim>\<open>userspace/libc/src/malloc.c\<close>: \<^verbatim>\<open>atoi\<close>, \<^verbatim>\<open>strtol\<close> and \<^verbatim>\<open>strtoul\<close>, and the parser
  \<^verbatim>\<open>parse_unsigned_integer\<close> behind \<^verbatim>\<open>strtoll\<close> and \<^verbatim>\<open>strtoull\<close>, with the absolute values and divisions
  of the same file. An \<^verbatim>\<open>int\<close> result is a 32-bit word and a \<^verbatim>\<open>long\<close> a 64-bit word, both read in
  two's complement; where C leaves an overflow undefined the model wraps. The pointer stored
  through \<^verbatim>\<open>endptr\<close> is part of the result.
\<close>

section \<open>Absolute values and division\<close>

definition c_abs :: "u32 \<Rightarrow> u32" where
  "c_abs v = (if v <s 0 then - v else v)"

definition labs :: "u64 \<Rightarrow> u64" where
  "labs v = (if v <s 0 then - v else v)"

definition llabs :: "u64 \<Rightarrow> u64" where
  "llabs v = (if v <s 0 then - v else v)"

definition imaxabs :: "u64 \<Rightarrow> u64" where
  "imaxabs v = (if v <s 0 then - v else v)"

definition c_div :: "u32 \<Rightarrow> u32 \<Rightarrow> u32 \<times> u32" where
  "c_div numerator denominator =
     (word_of_int (sint numerator sdiv sint denominator), word_of_int (sint numerator smod sint denominator))"

definition ldiv :: "u64 \<Rightarrow> u64 \<Rightarrow> u64 \<times> u64" where
  "ldiv numerator denominator =
     (word_of_int (sint numerator sdiv sint denominator), word_of_int (sint numerator smod sint denominator))"

definition lldiv :: "u64 \<Rightarrow> u64 \<Rightarrow> u64 \<times> u64" where
  "lldiv numerator denominator =
     (word_of_int (sint numerator sdiv sint denominator), word_of_int (sint numerator smod sint denominator))"

section \<open>The unchecked parsers\<close>

definition blank4 :: "u8 \<Rightarrow> bool" where
  "blank4 c \<longleftrightarrow> c = 32 \<or> c = 9 \<or> c = 10 \<or> c = 13"

definition is_digit :: "u8 \<Rightarrow> bool" where
  "is_digit c \<longleftrightarrow> c \<ge> 48 \<and> c \<le> 57"

text \<open>The sign: whether the number is negative, and the text behind the sign.\<close>

definition take_sign :: "u64 \<Rightarrow> memory \<Rightarrow> bool \<times> u64" where
  "take_sign p m = (if m p = 45 then (True, p + 1) else if m p = 43 then (False, p + 1) else (False, p))"

partial_function (option) atoi_loop :: "u64 \<Rightarrow> u32 \<Rightarrow> memory \<Rightarrow> u32 option" where
  "atoi_loop p result m =
     (if is_digit (m p) then atoi_loop (p + 1) (result * 10 + (ucast (m p) - 48)) m else Some result)"

definition atoi :: "u64 \<Rightarrow> memory \<Rightarrow> u32 option" where
  "atoi nptr m =
     (if nptr = 0 then Some 0
      else
        case scan (\<lambda>p. Some (blank4 (m p))) nptr of None \<Rightarrow> None | Some p \<Rightarrow>
        let (negative, p) = take_sign p m in
        map_option (\<lambda>result. if negative then -1 * result else 1 * result) (atoi_loop p 0 m))"

definition ascii_digit_value :: "u8 \<Rightarrow> int" where
  "ascii_digit_value c =
     (if c \<ge> 48 \<and> c \<le> 57 then uint c - 48
      else if c \<ge> 97 \<and> c \<le> 122 then uint c - 97 + 10
      else if c \<ge> 65 \<and> c \<le> 90 then uint c - 65 + 10
      else -1)"

definition base_digit :: "int \<Rightarrow> u8 \<Rightarrow> bool" where
  "base_digit base c \<longleftrightarrow> c \<noteq> 0 \<and> 0 \<le> ascii_digit_value c \<and> ascii_digit_value c < base"

partial_function (option) strtol_loop :: "int \<Rightarrow> u64 \<Rightarrow> u64 \<Rightarrow> memory \<Rightarrow> (u64 \<times> u64) option" where
  "strtol_loop base p result m =
     (if base_digit base (m p)
      then strtol_loop base (p + 1) (result * word_of_int base + word_of_int (ascii_digit_value (m p))) m
      else Some (result, p))"

definition strtol_prefix :: "int \<Rightarrow> u64 \<Rightarrow> memory \<Rightarrow> int \<times> u64" where
  "strtol_prefix base p m =
     (if base = 0 then
        if m p = 48 then if m (p + 1) = 120 \<or> m (p + 1) = 88 then (16, p + 2) else (8, p)
        else (10, p)
      else if base = 16 \<and> m p = 48 \<and> (m (p + 1) = 120 \<or> m (p + 1) = 88) then (base, p + 2)
      else (base, p))"

definition strtol :: "u64 \<Rightarrow> int \<Rightarrow> memory \<Rightarrow> (u64 \<times> u64) option" where
  "strtol nptr base m =
     (if nptr = 0 then Some (0, 0)
      else
        case scan (\<lambda>p. Some (blank4 (m p))) nptr of None \<Rightarrow> None | Some p \<Rightarrow>
        let (negative, p) = take_sign p m;
            (base, start) = strtol_prefix base p m
        in map_option (\<lambda>(result, p).
             (if negative then -1 * result else 1 * result,
              if p = start then if negative then start - 1 else start else p))
             (strtol_loop base start 0 m))"

definition strtoul :: "u64 \<Rightarrow> int \<Rightarrow> memory \<Rightarrow> (u64 \<times> u64) option" where
  "strtoul nptr base m = strtol nptr base m"

definition atol :: "u64 \<Rightarrow> memory \<Rightarrow> u64 option" where
  "atol nptr m = map_option fst (strtol nptr 10 m)"

section \<open>The checked parsers\<close>

definition blank6 :: "u8 \<Rightarrow> bool" where
  "blank6 c \<longleftrightarrow> c = 32 \<or> c = 9 \<or> c = 10 \<or> c = 13 \<or> c = 11 \<or> c = 12"

record parsed =
  magnitude :: u64
  end_pointer :: u64
  negative :: bool
  overflow :: bool
  parse_error :: "errno option"

partial_function (option) parse_digits :: "int \<Rightarrow> u64 \<Rightarrow> u64 \<Rightarrow> bool \<Rightarrow> memory \<Rightarrow> (u64 \<times> bool \<times> u64) option" where
  "parse_digits base p v over m =
     (if base_digit base (m p) then
        let digit = word_of_int (ascii_digit_value (m p)); b = word_of_int base;
            (v, over) = (if v > (-1 - digit) div b then (-1, True)
                         else if \<not> over then (v * b + digit, over) else (v, over))
        in parse_digits base (p + 1) v over m
      else Some (v, over, p))"

definition number_prefix :: "int \<Rightarrow> u64 \<Rightarrow> memory \<Rightarrow> int \<times> u64" where
  "number_prefix base p m =
     (if (base = 0 \<or> base = 16) \<and> m p = 48 \<and> (m (p + 1) = 120 \<or> m (p + 1) = 88) \<and>
         ascii_digit_value (m (p + 2)) \<ge> 0 \<and> ascii_digit_value (m (p + 2)) < 16 then (16, p + 2)
      else if base = 0 then (if m p = 48 then 8 else 10, p)
      else (base, p))"

definition parse_unsigned_integer :: "u64 \<Rightarrow> int \<Rightarrow> memory \<Rightarrow> parsed option" where
  "parse_unsigned_integer original base m =
     (case scan (\<lambda>p. Some (blank6 (m p))) original of None \<Rightarrow> None | Some p \<Rightarrow>
      let (neg, p) = take_sign p m in
      if base \<noteq> 0 \<and> (base < 2 \<or> base > 36) then
        Some \<lparr>magnitude = 0, end_pointer = original, negative = neg, overflow = False, parse_error = Some EINVAL\<rparr>
      else
        let (base, digits_start) = number_prefix base p m in
        map_option (\<lambda>(v, over, p).
          if p = digits_start
          then \<lparr>magnitude = 0, end_pointer = original, negative = neg, overflow = over, parse_error = None\<rparr>
          else \<lparr>magnitude = v, end_pointer = p, negative = neg, overflow = over, parse_error = None\<rparr>)
          (parse_digits base digits_start 0 False m))"

definition LLONG_MAX :: u64 where "LLONG_MAX = 0x7fffffffffffffff"
definition LLONG_MIN :: u64 where "LLONG_MIN = 0x8000000000000000"

definition strtoll :: "u64 \<Rightarrow> int \<Rightarrow> memory \<Rightarrow> (u64 \<times> u64 \<times> errno option) option" where
  "strtoll nptr base m =
     map_option (\<lambda>r.
       let limit = (if negative r then LLONG_MAX + 1 else LLONG_MAX) in
       if overflow r \<or> magnitude r > limit
       then (if negative r then LLONG_MIN else LLONG_MAX, end_pointer r, Some ERANGE)
       else if negative r then
         (if magnitude r = LLONG_MAX + 1 then LLONG_MIN else - magnitude r, end_pointer r, parse_error r)
       else (magnitude r, end_pointer r, parse_error r)) (parse_unsigned_integer nptr base m)"

definition strtoull :: "u64 \<Rightarrow> int \<Rightarrow> memory \<Rightarrow> (u64 \<times> u64 \<times> errno option) option" where
  "strtoull nptr base m =
     map_option (\<lambda>r.
       if overflow r then (-1, end_pointer r, Some ERANGE)
       else (if negative r then 0 - magnitude r else magnitude r, end_pointer r, parse_error r))
       (parse_unsigned_integer nptr base m)"

definition atoll :: "u64 \<Rightarrow> memory \<Rightarrow> u64 option" where
  "atoll nptr m = map_option fst (strtoll nptr 10 m)"

definition strtoll_l :: "u64 \<Rightarrow> int \<Rightarrow> 'l \<Rightarrow> memory \<Rightarrow> (u64 \<times> u64 \<times> errno option) option" where
  "strtoll_l nptr base locale_handle m = strtoll nptr base m"

definition strtoull_l :: "u64 \<Rightarrow> int \<Rightarrow> 'l \<Rightarrow> memory \<Rightarrow> (u64 \<times> u64 \<times> errno option) option" where
  "strtoull_l nptr base locale_handle m = strtoull nptr base m"

section \<open>What the checked parsers return\<close>

text \<open>The number that a sequence of digits denotes.\<close>

definition digits_value :: "int \<Rightarrow> u8 list \<Rightarrow> int" where
  "digits_value base ds = foldl (\<lambda>v c. v * base + ascii_digit_value c) 0 ds"

text \<open>The value a parser has after reading \<open>n\<close>: the number itself, or the greatest one with the overflow mark.\<close>

definition saturated :: "int \<Rightarrow> u64 \<times> bool" where
  "saturated n = (if n < 2 ^ 64 then (word_of_int n, False) else (-1, True))"

lemma uint_small: "0 \<le> n \<Longrightarrow> n < 2 ^ 64 \<Longrightarrow> uint (word_of_int n :: u64) = n"
  by (simp add: uint_word_of_int)

lemma uint_max_minus: "0 \<le> d \<Longrightarrow> d < 2 ^ 64 \<Longrightarrow> uint (-1 - word_of_int d :: u64) = 2 ^ 64 - 1 - d"
  by (simp add: uint_word_of_int uint_word_ariths)

lemma div_less_iff:
  fixes a b c :: int
  assumes "0 < b"
  shows "a div b < c \<longleftrightarrow> a < c * b"
proof -
  have a: "a = a div b * b + a mod b" "0 \<le> a mod b" "a mod b < b"
    using assms by simp_all
  show ?thesis
  proof
    assume "a div b < c"
    then have "(a div b + 1) * b \<le> c * b" using assms by (intro mult_right_mono) auto
    then show "a < c * b" using a unfolding distrib_right by linarith
  next
    assume l: "a < c * b"
    show "a div b < c"
    proof (rule ccontr)
      assume "\<not> a div b < c"
      then have "c * b \<le> a div b * b" using assms by (intro mult_right_mono) auto
      then show False using a l by linarith
    qed
  qed
qed

lemma digit_limit:
  assumes "0 \<le> d" "d < base" "2 \<le> base" "base \<le> 36"
  shows "v > (-1 - word_of_int d) div word_of_int base \<longleftrightarrow> uint (v :: u64) * base + d \<ge> 2 ^ 64"
proof -
  have "uint (-1 - word_of_int d :: u64) = 2 ^ 64 - 1 - d" "uint (word_of_int base :: u64) = base"
    using assms by (intro uint_max_minus uint_small; simp)+
  then have "uint ((-1 - word_of_int d :: u64) div word_of_int base) = (2 ^ 64 - 1 - d) div base"
    unfolding uint_div by simp
  then have "v > (-1 - word_of_int d) div word_of_int base \<longleftrightarrow> (2 ^ 64 - 1 - d) div base < uint v"
    by (simp add: word_less_def)
  also have "\<dots> \<longleftrightarrow> 2 ^ 64 - 1 - d < uint v * base"
    using assms by (intro div_less_iff) simp
  finally show ?thesis by linarith
qed

lemma saturated_step:
  assumes "0 \<le> n" "0 \<le> d" "d < base" "2 \<le> base" "base \<le> 36" "saturated n = (v, over)"
  shows "(if v > (-1 - word_of_int d) div word_of_int base then (-1, True)
      else if \<not> over then (v * word_of_int base + word_of_int d, over) else (v, over)) = saturated (n * base + d)"
proof (cases "n < 2 ^ 64")
  case True
  then have "v = word_of_int n" "\<not> over" "uint v = n"
    using assms(1,6) uint_small [of n] by (auto simp: saturated_def)
  then show ?thesis
    unfolding digit_limit [OF assms(2-5)] by (auto simp: saturated_def)
next
  case False
  then have "v = -1" using assms(6) by (simp add: saturated_def)
  then have "uint v = 2 ^ 64 - 1" by (simp add: unsigned_minus_1_eq_mask mask_eq_exp_minus_1)
  then have "uint v * base + d \<ge> 2 ^ 64" using assms by simp
  moreover have "n * base + d \<ge> 2 ^ 64"
    using mult_mono [of "2 ^ 64" n 1 base] False assms by simp
  ultimately show ?thesis
    unfolding digit_limit [OF assms(2-5)] by (simp add: saturated_def)
qed

lemma digits_value_nonneg: "\<forall>c \<in> set ds. base_digit base c \<Longrightarrow> 0 \<le> base \<Longrightarrow> 0 \<le> v \<Longrightarrow>
  0 \<le> foldl (\<lambda>v c. v * base + ascii_digit_value c) v ds"
  by (induction ds arbitrary: v) (auto simp: base_digit_def)

lemma parse_digits_spec:
  assumes "cstring m p (ds @ rest)" "\<forall>c \<in> set ds. base_digit base c" "rest = [] \<or> \<not> base_digit base (hd rest)"
    and "2 \<le> base" "base \<le> 36" "0 \<le> n"
  shows "parse_digits base p (fst (saturated n)) (snd (saturated n)) m =
    (case saturated (foldl (\<lambda>v c. v * base + ascii_digit_value c) n ds) of (v, over) \<Rightarrow> Some (v, over, p + of_nat (length ds)))"
  using assms(1,2,6)
proof (induction ds arbitrary: p n)
  case Nil
  then have "\<not> base_digit base (m p)"
    using assms(3) by (cases rest) (auto simp: base_digit_def)
  then show ?case
    by (simp add: parse_digits.simps [of base p] split: prod.split)
next
  case (Cons c ds)
  let ?d = "ascii_digit_value c"
  obtain v over where s: "saturated n = (v, over)" by fastforce
  have c: "m p = c" "base_digit base c" "0 \<le> ?d" "?d < base" "cstring m (p + 1) (ds @ rest)"
    using Cons.prems by (auto simp: base_digit_def)
  have "0 \<le> n * base + ?d" using c(3) Cons.prems(3) assms(4) by simp
  note IH = Cons.IH [OF c(5) _ this]
  have "parse_digits base p v over m =
      parse_digits base (p + 1) (fst (saturated (n * base + ?d))) (snd (saturated (n * base + ?d))) m"
    using saturated_step [OF Cons.prems(3) c(3,4) assms(4,5) s, symmetric] c(1,2)
    by (subst parse_digits.simps) (simp add: Let_def split: prod.split)
  then show ?case
    using IH Cons.prems(2) by (simp add: s algebra_simps split: prod.split)
qed

text \<open>A number as text: blanks, an optional sign, digits of the base, and what follows.\<close>

definition sign_text :: "bool \<Rightarrow> u8 list \<Rightarrow> bool" where
  "sign_text neg s \<longleftrightarrow> (if neg then s = [45] else s = [] \<or> s = [43])"

definition number_text :: "int \<Rightarrow> u8 list \<Rightarrow> bool \<Rightarrow> u8 list \<Rightarrow> u8 list \<Rightarrow> u8 list \<Rightarrow> bool" where
  "number_text base ws neg s ds rest \<longleftrightarrow> (\<forall>c \<in> set ws. blank6 c) \<and> sign_text neg s \<and>
     ds \<noteq> [] \<and> (\<forall>c \<in> set ds. base_digit base c) \<and> (rest = [] \<or> \<not> base_digit base (hd rest)) \<and>
     (base = 16 \<longrightarrow> ds \<noteq> [48])"

lemma digit_not_special: "base_digit base c \<Longrightarrow> base \<le> 36 \<Longrightarrow> \<not> blank6 c \<and> c \<noteq> 45 \<and> c \<noteq> 43"
  by (auto simp: base_digit_def ascii_digit_value_def blank6_def)

lemma parse_unsigned_spec:
  assumes c: "cstring m p (ws @ s @ ds @ rest)" and t: "number_text base ws neg s ds rest" and b: "2 \<le> base" "base \<le> 36"
  shows "parse_unsigned_integer p base m =
    Some \<lparr>magnitude = fst (saturated (digits_value base ds)), end_pointer = p + of_nat (length (ws @ s @ ds)),
      negative = neg, overflow = snd (saturated (digits_value base ds)), parse_error = None\<rparr>"
proof -
  let ?q = "p + of_nat (length ws)" and ?r = "p + of_nat (length ws) + of_nat (length s)"
  obtain d ds' where ds: "ds = d # ds'" "base_digit base d" using t by (cases ds) (auto simp: number_text_def)
  have q: "cstring m ?q (s @ ds @ rest)" using cstring_drop [OF c, of "length ws"] by simp
  have r: "cstring m ?r (ds @ rest)" using cstring_drop [OF q, of "length s"] by simp
  have "\<not> blank6 (hd (s @ ds))"
    using t ds digit_not_special [OF ds(2) b(2)] by (auto simp: number_text_def sign_text_def blank6_def split: if_splits)
  moreover have "m ?q = hd (s @ ds)" using q ds by (cases s) auto
  ultimately have stop: "\<not> blank6 (m ?q)" by simp
  have "scan (\<lambda>p. Some (blank6 (m p))) p = Some ?q"
  proof (rule scan_run)
    fix j assume "j < length ws"
    then show "Some (blank6 (m (p + of_nat j))) = Some True"
      using cstring_nth [OF c, of j] t by (auto simp: number_text_def nth_append)
  qed (use stop in simp)
  moreover have "take_sign ?q m = (neg, ?r)"
    using q t ds digit_not_special [OF ds(2) b(2)]
    by (auto simp: take_sign_def number_text_def sign_text_def split: if_splits)
  moreover have "number_prefix base ?r m = (base, ?r)"
  proof (cases "base = 16 \<and> m ?r = 48")
    case True
    then obtain e ds'' where "ds' = e # ds''" "base_digit 16 e"
      using r ds(1) t by (cases ds') (auto simp: number_text_def)
    moreover have "\<not> base_digit 16 120" "\<not> base_digit 16 88"
      by (simp_all add: base_digit_def ascii_digit_value_def)
    ultimately show ?thesis
      using True r ds(1) by (auto simp: number_prefix_def)
  qed (use b in \<open>auto simp: number_prefix_def\<close>)
  moreover have "parse_digits base ?r 0 False m = (case saturated (digits_value base ds) of (v, over) \<Rightarrow> Some (v, over, ?r + of_nat (length ds)))"
    using parse_digits_spec [OF r _ _ b, of 0] t by (simp add: number_text_def digits_value_def saturated_def)
  moreover have "?r + of_nat (length ds) \<noteq> ?r"
  proof -
    have "length ds < 2 ^ 64" using cstring_length [OF r] by simp
    then show ?thesis using ds(1) of_nat64_cancel [of "length ds" 0 ?r] by simp
  qed
  moreover obtain v over where "saturated (digits_value base ds) = (v, over)" by fastforce
  ultimately show ?thesis
    using b unfolding parse_unsigned_integer_def by (simp add: add.assoc)
qed

lemma sint_small: "- (2 ^ 63) \<le> n \<Longrightarrow> n < 2 ^ 63 \<Longrightarrow> sint (word_of_int n :: u64) = n"
  by (simp add: int_word_sint)

lemma saturated_magnitude:
  assumes "0 \<le> d" "0 \<le> l" "l < 2 ^ 64 - 1"
  shows "snd (saturated d) \<or> fst (saturated d) > word_of_int l \<longleftrightarrow> l < d"
  using assms uint_small [of d] uint_small [of l] by (auto simp: saturated_def word_less_def)

text \<open>The unsigned parser returns the value modulo \<open>2 ^ 64\<close>, negated behind a minus sign, or the greatest value on overflow.\<close>

lemma strtoull_saturates:
  assumes "cstring m p (ws @ s @ ds @ rest)" "number_text base ws neg s ds rest" "2 \<le> base" "base \<le> 36"
  shows "strtoull p base m =
    Some (if digits_value base ds < 2 ^ 64
          then (word_of_int (if neg then - digits_value base ds else digits_value base ds), p + of_nat (length (ws @ s @ ds)), None)
          else (-1, p + of_nat (length (ws @ s @ ds)), Some ERANGE))"
  unfolding strtoull_def parse_unsigned_spec [OF assms] by (simp add: saturated_def)

section \<open>The claims\<close>

text \<open>
  C31. \<^verbatim>\<open>strtoll\<close> on a number text (blanks, an optional sign, at least one digit of the base) returns,
  stores the end of the digits, and returns the signed value when it fits into 64 bits; otherwise it
  returns the nearest limit and reports \<^verbatim>\<open>ERANGE\<close>. No intermediate step wraps.
\<close>

theorem strtoll_saturates:
  assumes "cstring m p (ws @ s @ ds @ rest)" "number_text base ws neg s ds rest" "2 \<le> base" "base \<le> 36"
  defines "n \<equiv> (if neg then - digits_value base ds else digits_value base ds)"
  shows "\<exists>v. strtoll p base m =
      Some (v, p + of_nat (length (ws @ s @ ds)), if - (2 ^ 63) \<le> n \<and> n < 2 ^ 63 then None else Some ERANGE) \<and>
    sint v = max (- (2 ^ 63)) (min (2 ^ 63 - 1) n)"
proof -
  let ?d = "digits_value base ds"
  have d: "0 \<le> ?d"
    using digits_value_nonneg [of ds base 0] assms(2,3) by (simp add: number_text_def digits_value_def)
  have lim: "LLONG_MAX = word_of_int (2 ^ 63 - 1)" "LLONG_MAX + 1 = word_of_int (2 ^ 63)" "LLONG_MIN = word_of_int (- (2 ^ 63))"
    by (simp_all add: LLONG_MAX_def LLONG_MIN_def)
  let ?stop = "p + of_nat (length (ws @ s @ ds))"
  have r: "strtoll p base m =
    (if (if neg then 2 ^ 63 else 2 ^ 63 - 1) < ?d then Some (if neg then LLONG_MIN else LLONG_MAX, ?stop, Some ERANGE)
     else Some (word_of_int n, ?stop, None))"
  proof (cases "(if neg then 2 ^ 63 else 2 ^ 63 - 1) < ?d")
    case True
    then show ?thesis
      using saturated_magnitude [OF d, of "if neg then 2 ^ 63 else 2 ^ 63 - 1"]
      unfolding strtoll_def parse_unsigned_spec [OF assms(1-4)] lim(2) by (cases neg) (simp_all add: lim(1) Let_def)
  next
    case False
    then have sat: "saturated ?d = (word_of_int ?d, False)"
      by (auto simp: saturated_def split: if_splits)
    have "\<not> word_of_int ?d > (word_of_int (if neg then 2 ^ 63 else 2 ^ 63 - 1) :: u64)"
      using False saturated_magnitude [OF d, of "if neg then 2 ^ 63 else 2 ^ 63 - 1"] sat by auto
    then show ?thesis
      using False unfolding strtoll_def parse_unsigned_spec [OF assms(1-4)] lim(2) n_def
      by (cases neg) (auto simp: lim(1,3) Let_def sat)
  qed
  show ?thesis
    using d sint_small [of n] sint_small [of "2 ^ 63 - 1"] sint_small [of "- (2 ^ 63)"] unfolding r lim n_def
    by (auto simp: max_def min_def)
qed

theorem strtoll_saturates_witness:
  "\<exists>v. strtoll 0x1000 10 ((\<lambda>_. 0)(0x1000 := 32, 0x1001 := 45, 0x1002 := 52, 0x1003 := 50)) = Some (v, 0x1004, None) \<and> sint v = -42"
proof -
  let ?m = "(\<lambda>_. 0)(0x1000 := 32, 0x1001 := 45, 0x1002 := 52, 0x1003 := 50 :: u8)"
  have "cstring ?m 0x1000 ([32] @ [45] @ [52, 50] @ [])" by simp
  moreover have "number_text 10 [32] True [45] [52, 50] []"
    by (simp add: number_text_def sign_text_def blank6_def base_digit_def ascii_digit_value_def)
  moreover have "digits_value 10 [52, 50] = 42"
    by (simp add: digits_value_def ascii_digit_value_def)
  ultimately show ?thesis
    using strtoll_saturates [of ?m "0x1000" "[32]" "[45]" "[52, 50]" "[]" 10 True] by simp
qed

end
