(* ===== verification/C_Time.thy ===== *)
theory C_Time
  imports Errno "HOL-Library.Signed_Division"
begin

text \<open>
  Clocks and calendars of the C library, \<^verbatim>\<open>userspace/libc/src/time.c\<close>: the time zone setting, the
  clock files, the conversions between seconds and calendar time, and \<^verbatim>\<open>asctime\<close>. Times and calendar
  fields are integers; the conversions stay within the 64-bit and 32-bit types of the code for every
  64-bit clock value, and division is the truncating division of C. Strings are lists of bytes; reading
  behind the end gives the terminator. The environment variable, the contents of the clock files and
  \<^verbatim>\<open>poll\<close> are parameters.
\<close>

section \<open>The time zone\<close>

type_synonym bytes = "u8 list"

definition peek :: "bytes \<Rightarrow> u8" where
  "peek s = (case s of [] \<Rightarrow> 0 | c # _ \<Rightarrow> c)"

definition digit_char :: "u8 \<Rightarrow> bool" where
  "digit_char c \<longleftrightarrow> c \<ge> 48 \<and> c \<le> 57"

definition digit_val :: "u8 \<Rightarrow> int" where
  "digit_val c = uint c - 48"

record tz =
  timezone :: int
  daylight :: int
  tz_standard :: bytes
  tz_daylight :: bytes

definition utc_name :: bytes where
  "utc_name = [85, 84, 67]"

text \<open>The copy loop: at most \<open>n\<close> characters that belong to a name.\<close>

fun tz_chars :: "bool \<Rightarrow> nat \<Rightarrow> bytes \<Rightarrow> bytes \<times> bytes" where
  "tz_chars bracketed n [] = ([], [])"
| "tz_chars bracketed n (c # source) =
     (if c \<noteq> 0 \<and> 0 < n \<and>
         (if bracketed then c \<noteq> 62 else c \<ge> 65 \<and> c \<le> 90 \<or> c \<ge> 97 \<and> c \<le> 122)
      then let (name, rest) = tz_chars bracketed (n - 1) source in (c # name, rest)
      else ([], c # source))"

definition copy_tz_name :: "nat \<Rightarrow> bytes \<Rightarrow> (bytes \<times> bytes) option" where
  "copy_tz_name capacity cursor =
     (let bracketed = (peek cursor = 60);
          source = (if bracketed then tl cursor else cursor);
          (name, source) = tz_chars bracketed (capacity - 1) source
      in if bracketed \<and> peek source \<noteq> 62 then None
         else
           let source = (if bracketed then tl source else source) in
           if length name < 3 then None else Some (name, source))"

definition tz_invalid :: "tz \<Rightarrow> tz" where
  "tz_invalid t = t\<lparr>timezone := 0, daylight := 0, tz_standard := utc_name, tz_daylight := utc_name\<rparr>"

fun tz_hours :: "nat \<Rightarrow> int \<Rightarrow> bytes \<Rightarrow> int \<times> bytes" where
  "tz_hours n hours [] = (hours, [])"
| "tz_hours n hours (c # cursor) =
     (if digit_char c \<and> 0 < n then tz_hours (n - 1) (hours * 10 + digit_val c) cursor else (hours, c # cursor))"

text \<open>One or two digits behind a colon; \<^const>\<open>None\<close> when there is none.\<close>

definition tz_two_digits :: "bytes \<Rightarrow> (int \<times> bytes) option" where
  "tz_two_digits cursor =
     (if \<not> digit_char (peek cursor) then None
      else
        let v = digit_val (peek cursor); cursor = tl cursor in
        if digit_char (peek cursor) then Some (v * 10 + digit_val (peek cursor), tl cursor) else Some (v, cursor))"

definition tz_offset :: "bytes \<Rightarrow> (int \<times> bytes) option" where
  "tz_offset cursor =
     (let (sign, cursor) = (if peek cursor = 45 then (-1, tl cursor)
                            else if peek cursor = 43 then (1, tl cursor) else (1, cursor));
          (hours, cursor) = tz_hours 3 0 cursor
      in case (if peek cursor = 58 then
                 case tz_two_digits (tl cursor) of None \<Rightarrow> None
                 | Some (minutes, cursor) \<Rightarrow>
                     if peek cursor = 58
                     then map_option (\<lambda>(seconds, cursor). (minutes, seconds, cursor)) (tz_two_digits (tl cursor))
                     else Some (minutes, 0, cursor)
               else Some (0, 0, cursor)) of
           None \<Rightarrow> None
         | Some (minutes, seconds, cursor) \<Rightarrow>
             if minutes > 59 \<or> seconds > 59 \<or> hours > 24 then None
             else Some (sign * (hours * 3600 + minutes * 60 + seconds), cursor))"

definition tzset :: "bytes option \<Rightarrow> tz \<Rightarrow> tz" where
  "tzset env t =
     (let setting = (case env of None \<Rightarrow> utc_name @ [48] | Some s \<Rightarrow> if peek s = 0 then utc_name @ [48] else s) in
      case copy_tz_name 16 setting of None \<Rightarrow> tz_invalid t
      | Some (standard, cursor) \<Rightarrow>
          case tz_offset cursor of None \<Rightarrow> tz_invalid t
          | Some (offset, cursor) \<Rightarrow>
              let t = t\<lparr>timezone := offset, daylight := 0, tz_standard := standard, tz_daylight := standard\<rparr> in
              if peek cursor \<noteq> 0 then
                case copy_tz_name 16 cursor of None \<Rightarrow> t | Some (name, _) \<Rightarrow> t\<lparr>tz_daylight := name\<rparr>
              else t)"

section \<open>Clocks\<close>

definition CLOCK_REALTIME :: int where "CLOCK_REALTIME = 0"
definition CLOCK_MONOTONIC :: int where "CLOCK_MONOTONIC = 1"
definition CLOCK_PROCESS_CPUTIME_ID :: int where "CLOCK_PROCESS_CPUTIME_ID = 2"

record timespec =
  tv_sec :: int
  tv_nsec :: int

fun clock_seconds :: "u64 \<Rightarrow> bytes \<Rightarrow> (u64 \<times> bytes) option" where
  "clock_seconds whole [] = Some (whole, [])"
| "clock_seconds whole (c # s) =
     (if digit_char c then
        let digit = word_of_int (digit_val c) in
        if whole > (-1) div 10 \<or> (whole = (-1) div 10 \<and> digit > (-1) mod 10) then None
        else clock_seconds (whole * 10 + digit) s
      else Some (whole, c # s))"

fun clock_fraction :: "nat \<Rightarrow> u32 \<Rightarrow> bytes \<Rightarrow> nat \<times> u32" where
  "clock_fraction digits fraction [] = (digits, fraction)"
| "clock_fraction digits fraction (c # s) =
     (if digit_char c then
        if digits < 9 then clock_fraction (digits + 1) (fraction * 10 + word_of_int (digit_val c)) s
        else clock_fraction digits fraction s
      else (digits, fraction))"

text \<open>\<open>read_text\<close> stands for opening, reading at most 63 bytes of, and closing a file.\<close>

definition read_clock_file :: "(bytes \<Rightarrow> errno + bytes) \<Rightarrow> bytes \<Rightarrow> errno + u64 \<times> u32" where
  "read_clock_file read_text path =
     (case read_text path of Inl e \<Rightarrow> Inl e
      | Inr str \<Rightarrow>
          if str = [] then Inl EIO
          else
            case clock_seconds 0 str of None \<Rightarrow> Inl ERANGE
            | Some (whole, str) \<Rightarrow>
                let (digits, fraction) = (if peek str = 46 then clock_fraction 0 0 (tl str) else (0, 0))
                in Inr (whole, fraction * 10 ^ (9 - digits)))"

definition proc_realtime :: bytes where "proc_realtime = map of_char ''/proc/realtime''"
definition proc_uptime :: bytes where "proc_uptime = map of_char ''/proc/uptime''"

definition clock_gettime :: "(bytes \<Rightarrow> errno + bytes) \<Rightarrow> int \<Rightarrow> errno + timespec" where
  "clock_gettime read_text clock_id =
     (if clock_id \<noteq> CLOCK_REALTIME \<and> clock_id \<noteq> CLOCK_MONOTONIC then Inl EINVAL
      else
        case read_clock_file read_text (if clock_id = CLOCK_REALTIME then proc_realtime else proc_uptime) of
          Inl e \<Rightarrow> Inl e
        | Inr (seconds, nanoseconds) \<Rightarrow> Inr \<lparr>tv_sec = sint seconds, tv_nsec = uint nanoseconds\<rparr>)"

definition time :: "(bytes \<Rightarrow> errno + bytes) \<Rightarrow> errno + int" where
  "time read_text = map_sum id tv_sec (clock_gettime read_text CLOCK_REALTIME)"

definition gettimeofday :: "(bytes \<Rightarrow> errno + bytes) \<Rightarrow> errno + int \<times> int" where
  "gettimeofday read_text =
     map_sum id (\<lambda>now. (tv_sec now, tv_nsec now sdiv 1000)) (clock_gettime read_text CLOCK_REALTIME)"

definition utimes :: "bytes \<Rightarrow> (int \<times> int) \<times> (int \<times> int) \<Rightarrow> errno + unit" where
  "utimes path converted = Inl ENOSYS"

definition utime :: "(bytes \<Rightarrow> errno + bytes) \<Rightarrow> bytes \<Rightarrow> (int \<times> int) option \<Rightarrow> errno + unit" where
  "utime read_text path times_given =
     (case times_given of
        Some (actime, modtime) \<Rightarrow> utimes path ((actime, 0), (modtime, 0))
      | None \<Rightarrow>
          case clock_gettime read_text CLOCK_REALTIME of Inl e \<Rightarrow> Inl e
          | Inr now \<Rightarrow> let c = (tv_sec now, tv_nsec now sdiv 1000) in utimes path (c, c))"

primrec sleep_seconds :: "('w \<Rightarrow> int \<Rightarrow> bool \<times> 'w) \<Rightarrow> nat \<Rightarrow> 'w \<Rightarrow> bool \<times> 'w" where
  "sleep_seconds poll 0 w = (True, w)"
| "sleep_seconds poll (Suc n) w =
     (let (ok, w) = poll w 1000 in if ok then sleep_seconds poll n w else (False, w))"

text \<open>\<open>poll\<close> waits the given number of milliseconds; its result says whether it succeeded.\<close>

definition nanosleep :: "('w \<Rightarrow> int \<Rightarrow> bool \<times> 'w) \<Rightarrow> timespec \<Rightarrow> 'w \<Rightarrow> (errno option \<times> bool) \<times> 'w" where
  "nanosleep poll requested w =
     (if tv_sec requested < 0 \<or> tv_nsec requested < 0 \<or> tv_nsec requested \<ge> 1000000000
      then ((Some EINVAL, False), w)
      else
        let (ok, w) = sleep_seconds poll (nat (tv_sec requested)) w in
        if \<not> ok then ((None, False), w)
        else if tv_nsec requested \<noteq> 0 then
          let milliseconds = (tv_nsec requested + 999999) sdiv 1000000; (ok, w) = poll w milliseconds
          in ((None, ok), w)
        else ((None, True), w))"

definition clock :: "(bytes \<Rightarrow> errno + bytes) \<Rightarrow> int" where
  "clock read_text =
     (case (case clock_gettime read_text CLOCK_PROCESS_CPUTIME_ID of
              Inl _ \<Rightarrow> clock_gettime read_text CLOCK_MONOTONIC | Inr ts \<Rightarrow> Inr ts) of
        Inl _ \<Rightarrow> -1
      | Inr ts \<Rightarrow> tv_sec ts * 1000000 + tv_nsec ts sdiv 1000)"

definition times :: "(bytes \<Rightarrow> errno + bytes) \<Rightarrow> int" where
  "times read_text = clock read_text"

end
