(* ===== verification/C_Calendar.thy ===== *)
theory C_Calendar
  imports C_Time
begin

text \<open>
  Calendar time of the C library, the second half of \<^verbatim>\<open>userspace/libc/src/time.c\<close>: \<^verbatim>\<open>gmtime_r\<close>,
  \<^verbatim>\<open>localtime_r\<close>, \<^verbatim>\<open>asctime_r\<close>, \<^verbatim>\<open>ctime_r\<close> and \<^verbatim>\<open>mktime\<close>. A pointer argument that may be null is an
  option; the static result buffers are the returned values. The proofs rest on two evaluated tables,
  over the 400 years of an era and the 366 days of a year.
\<close>

section \<open>Calendar time\<close>

definition INT_MIN :: int where "INT_MIN = - (2 ^ 31)"
definition INT_MAX :: int where "INT_MAX = 2 ^ 31 - 1"
definition INT64_MIN :: int where "INT64_MIN = - (2 ^ 63)"
definition INT64_MAX :: int where "INT64_MAX = 2 ^ 63 - 1"

record tm =
  tm_sec :: int
  tm_min :: int
  tm_hour :: int
  tm_mday :: int
  tm_mon :: int
  tm_year :: int
  tm_wday :: int
  tm_yday :: int
  tm_isdst :: int
  tm_gmtoff :: int
  tm_zone :: bytes

definition floor_divide :: "int \<Rightarrow> int \<Rightarrow> int" where
  "floor_divide v divisor =
     (let quotient = v sdiv divisor; remainder = v smod divisor in if remainder < 0 then quotient - 1 else quotient)"

definition is_leap_year :: "int \<Rightarrow> bool" where
  "is_leap_year year \<longleftrightarrow> (year smod 4 = 0 \<and> year smod 100 \<noteq> 0) \<or> year smod 400 = 0"

definition civil_days_from_epoch :: "int \<Rightarrow> int \<Rightarrow> int \<Rightarrow> int" where
  "civil_days_from_epoch year month day =
     (let year = year - (if month \<le> 2 then 1 else 0);
          era = floor_divide year 400;
          year_of_era = year - era * 400;
          shifted_month = (if month > 2 then month - 3 else month + 9);
          day_of_year = (153 * shifted_month + 2) div 5 + day - 1;
          day_of_era = year_of_era * 365 + year_of_era div 4 - year_of_era div 100 + day_of_year
      in era * 146097 + day_of_era - 719468)"

definition days_before_month :: "int list list" where
  "days_before_month =
     [[0, 31, 59, 90, 120, 151, 181, 212, 243, 273, 304, 334],
      [0, 31, 60, 91, 121, 152, 182, 213, 244, 274, 305, 335]]"

text \<open>The date of a day number: year, month from 1, day of the month.\<close>

definition civil_from_days :: "int \<Rightarrow> int \<times> int \<times> int" where
  "civil_from_days days =
     (let shifted_days = days + 719468;
          era = floor_divide shifted_days 146097;
          day_of_era = shifted_days - era * 146097;
          year_of_era = (day_of_era - day_of_era div 1460 + day_of_era div 36524 - day_of_era div 146096) div 365;
          year = year_of_era + era * 400;
          day_of_year = day_of_era - (365 * year_of_era + year_of_era div 4 - year_of_era div 100);
          month_prime = (5 * day_of_year + 2) div 153;
          day = day_of_year - (153 * month_prime + 2) div 5 + 1;
          month = (if month_prime < 10 then month_prime + 3 else month_prime - 9)
      in (year + (if month \<le> 2 then 1 else 0), month, day))"

definition gmtime_r :: "int option \<Rightarrow> errno + tm" where
  "gmtime_r clk =
     (case clk of None \<Rightarrow> Inl EFAULT
      | Some seconds \<Rightarrow>
          let days = floor_divide seconds 86400;
              day_seconds = seconds - days * 86400;
              (year, month, day) = civil_from_days days
          in if year - 1900 < INT_MIN \<or> year - 1900 > INT_MAX then Inl ERANGE
             else
               let wday = (days + 4) smod 7 in
               Inr \<lparr>tm_sec = day_seconds smod 60, tm_min = (day_seconds sdiv 60) smod 60, tm_hour = day_seconds sdiv 3600,
                    tm_mday = day, tm_mon = month - 1, tm_year = year - 1900,
                    tm_wday = (if wday < 0 then wday + 7 else wday),
                    tm_yday = days_before_month ! (if is_leap_year year then 1 else 0) ! nat (month - 1) + day - 1,
                    tm_isdst = 0, tm_gmtoff = 0, tm_zone = utc_name\<rparr>)"

definition fits64 :: "int \<Rightarrow> bool" where
  "fits64 n \<longleftrightarrow> INT64_MIN \<le> n \<and> n \<le> INT64_MAX"

definition localtime_r :: "bytes option \<Rightarrow> int option \<Rightarrow> tz \<Rightarrow> (errno + tm) \<times> tz" where
  "localtime_r env clk t =
     (case clk of None \<Rightarrow> (Inl EFAULT, t)
      | Some seconds \<Rightarrow>
          let t = tzset env t; local_seconds = seconds - timezone t in
          if \<not> fits64 local_seconds then (Inl ERANGE, t)
          else
            case gmtime_r (Some local_seconds) of Inl e \<Rightarrow> (Inl e, t)
            | Inr r \<Rightarrow> (Inr (r\<lparr>tm_gmtoff := - timezone t, tm_zone := tz_standard t\<rparr>), t))"

definition gmtime :: "int option \<Rightarrow> errno + tm" where
  "gmtime clk = gmtime_r clk"

definition localtime :: "bytes option \<Rightarrow> int option \<Rightarrow> tz \<Rightarrow> (errno + tm) \<times> tz" where
  "localtime env clk t = localtime_r env clk t"

definition weekdays :: "string list" where
  "weekdays = [''Sun'', ''Mon'', ''Tue'', ''Wed'', ''Thu'', ''Fri'', ''Sat'']"

definition months :: "string list" where
  "months = [''Jan'', ''Feb'', ''Mar'', ''Apr'', ''May'', ''Jun'', ''Jul'', ''Aug'', ''Sep'', ''Oct'', ''Nov'', ''Dec'']"

definition ascii_digit :: "int \<Rightarrow> u8" where
  "ascii_digit d = word_of_int (48 + d)"

definition asctime_r :: "tm \<Rightarrow> errno + bytes" where
  "asctime_r v =
     (if tm_wday v < 0 \<or> tm_wday v \<ge> 7 \<or> tm_mon v < 0 \<or> tm_mon v \<ge> 12 \<or> tm_mday v < 1 \<or> tm_mday v > 31 \<or>
         tm_hour v < 0 \<or> tm_hour v > 23 \<or> tm_min v < 0 \<or> tm_min v > 59 \<or> tm_sec v < 0 \<or> tm_sec v > 60
      then Inl EINVAL
      else
        let year = tm_year v + 1900 in
        if year < 0 \<or> year > 9999 then Inl ERANGE
        else Inr (map of_char (weekdays ! nat (tm_wday v)) @ [32] @ map of_char (months ! nat (tm_mon v)) @ [32,
          if tm_mday v < 10 then 32 else ascii_digit (tm_mday v div 10), ascii_digit (tm_mday v mod 10), 32,
          ascii_digit (tm_hour v div 10), ascii_digit (tm_hour v mod 10), 58,
          ascii_digit (tm_min v div 10), ascii_digit (tm_min v mod 10), 58,
          ascii_digit (tm_sec v div 10), ascii_digit (tm_sec v mod 10), 32,
          ascii_digit ((year div 1000) mod 10), ascii_digit ((year div 100) mod 10),
          ascii_digit ((year div 10) mod 10), ascii_digit (year mod 10), 10, 0]))"

definition asctime :: "tm \<Rightarrow> errno + bytes" where
  "asctime v = asctime_r v"

definition ctime_r :: "bytes option \<Rightarrow> int option \<Rightarrow> tz \<Rightarrow> (errno + bytes) \<times> tz" where
  "ctime_r env clk t =
     (case clk of None \<Rightarrow> (Inl EFAULT, t)
      | Some _ \<Rightarrow> (case localtime_r env clk t of (Inl e, t) \<Rightarrow> (Inl e, t) | (Inr v, t) \<Rightarrow> (asctime_r v, t)))"

definition ctime :: "bytes option \<Rightarrow> int option \<Rightarrow> tz \<Rightarrow> (errno + bytes) \<times> tz" where
  "ctime env clk t =
     (case clk of None \<Rightarrow> (Inl EFAULT, t)
      | Some _ \<Rightarrow> (case localtime env clk t of (Inl e, t) \<Rightarrow> (Inl e, t) | (Inr v, t) \<Rightarrow> (asctime_r v, t)))"

definition normalize_component :: "int \<Rightarrow> int \<Rightarrow> int \<times> int" where
  "normalize_component v divisor = (let quotient = floor_divide v divisor in (quotient, v - quotient * divisor))"

text \<open>
  \<^verbatim>\<open>mktime\<close>; the result is the clock value and the calendar time that is written back, with the time
  zone state. Every carry of a component is added to the days, as in the code.
\<close>

definition mktime :: "bytes option \<Rightarrow> tm \<Rightarrow> tz \<Rightarrow> (errno + int \<times> tm) \<times> tz" where
  "mktime env v t =
     (let year = tm_year v + 1900;
          month = tm_mon v;
          year = year + floor_divide month 12;
          month = month - floor_divide month 12 * 12;
          days = tm_mday v - 1;
          (carry, seconds) = normalize_component (tm_sec v) 60;
          days = days + carry;
          minutes = tm_min v + seconds sdiv 60;
          seconds = seconds smod 60;
          (carry, minutes) = normalize_component minutes 60;
          days = days + carry;
          hours = tm_hour v + minutes sdiv 60;
          minutes = minutes smod 60;
          (carry, hours) = normalize_component hours 24;
          days = days + carry;
          hours = hours smod 24;
          epoch_days = civil_days_from_epoch year (month + 1) 1 + days
      in if epoch_days > INT64_MAX sdiv 86400 \<or> epoch_days < INT64_MIN sdiv 86400 then (Inl ERANGE, t)
         else
           let epoch_seconds = epoch_days * 86400 + hours * 3600 + minutes * 60 + seconds in
           if \<not> fits64 epoch_seconds then (Inl ERANGE, t)
           else
             case gmtime_r (Some epoch_seconds) of Inl e \<Rightarrow> (Inl e, t)
             | Inr r \<Rightarrow>
                 let t = tzset env t; utc_seconds = epoch_seconds + timezone t in
                 if \<not> fits64 utc_seconds then (Inl ERANGE, t)
                 else (Inr (utc_seconds, r\<lparr>tm_gmtoff := - timezone t, tm_zone := tz_standard t\<rparr>), t))"

section \<open>Day numbers and dates\<close>

lemma floor_divide_div:
  assumes "0 < d"
  shows "floor_divide v d = v div d"
proof (cases "0 \<le> v")
  case True
  then show ?thesis
    using assms by (cases "v = 0") (auto simp: floor_divide_def signed_divide_int_def signed_modulo_int_def Let_def not_less)
next
  case False
  have "0 < - v mod d" if "- v mod d \<noteq> 0"
    using that pos_mod_sign [OF assms, of "- v"] by linarith
  then show ?thesis
    using False assms zdiv_zminus1_eq_if [of d "- v"]
    by (cases "- v mod d = 0") (auto simp: floor_divide_def signed_divide_int_def signed_modulo_int_def Let_def)
qed

lemma smod_nonneg: "0 \<le> v \<Longrightarrow> 0 < d \<Longrightarrow> v smod d = v mod d" "0 \<le> v \<Longrightarrow> 0 < d \<Longrightarrow> v sdiv d = v div d" for v d :: int
  by (cases "v = 0"; simp add: signed_modulo_int_def signed_divide_int_def)+

lemma smod_zero_iff: "v smod d = 0 \<longleftrightarrow> v mod d = 0" for v d :: int
  unfolding signed_modulo_int_def mult_eq_0_iff sgn_eq_0_iff mod_eq_0_iff_dvd abs_dvd_iff dvd_abs_iff by auto

lemma leap_year_iff: "is_leap_year y \<longleftrightarrow> y mod 4 = 0 \<and> y mod 100 \<noteq> 0 \<or> y mod 400 = 0"
  by (simp add: is_leap_year_def smod_zero_iff)

text \<open>Days before year \<open>y\<close> of an era that starts in March.\<close>

definition era_days :: "int \<Rightarrow> int" where
  "era_days y = 365 * y + y div 4 - y div 100"

definition era_scaled :: "int \<Rightarrow> int" where
  "era_scaled d = d - d div 1460 + d div 36524 - d div 146096"

text \<open>The facts about the 400 years of an era and the days of a year that the conversions rest on.\<close>

definition era_year_ok :: "int \<Rightarrow> bool" where
  "era_year_ok y \<longleftrightarrow> 365 * y \<le> era_scaled (era_days y) \<and> era_scaled (era_days (y + 1) - 1) < 365 * (y + 1) \<and>
     era_days y + 365 \<le> era_days (y + 1) \<and> era_days (y + 1) \<le> era_days y + 366 \<and> era_days (y + 1) \<le> 146096 \<and>
     ((y + 1) mod 4 = 0 \<and> (y + 1) mod 100 \<noteq> 0 \<or> (y + 1) mod 400 = 0 \<longrightarrow> era_days (y + 1) = era_days y + 366 \<or> y = 399)"

definition year_day_ok :: "int \<Rightarrow> bool" where
  "year_day_ok n \<longleftrightarrow> (let mp = (5 * n + 2) div 153; day = n - (153 * mp + 2) div 5 + 1
     in 0 \<le> mp \<and> mp \<le> 11 \<and> 1 \<le> day \<and> day \<le> 31)"

lemma era_table: "list_all era_year_ok [0..399]"
  by code_simp

lemma year_day_table: "list_all year_day_ok [0..365]"
  by code_simp

lemma era_year_ok: "0 \<le> y \<Longrightarrow> y \<le> 399 \<Longrightarrow> era_year_ok y"
  using era_table unfolding list_all_iff set_upto by simp

lemma year_day_ok: "0 \<le> n \<Longrightarrow> n \<le> 365 \<Longrightarrow> year_day_ok n"
  using year_day_table unfolding list_all_iff set_upto by simp

lemma div_add_le:
  fixes a n k :: int
  assumes "0 \<le> n" "0 < k"
  shows "(a + n) div k \<le> a div k + n"
proof -
  have "(a + n) div k \<le> (a + n * k) div k"
    using assms mult_left_mono [of 1 k n] by (intro zdiv_mono1) auto
  then show ?thesis using assms by simp
qed

lemma scaled_mono_step:
  "b1 \<le> a1 + (b - a) \<Longrightarrow> a2 \<le> b2 \<Longrightarrow> a3 = 0 \<Longrightarrow> b3 = 0 \<Longrightarrow> a - a1 + a2 - a3 \<le> b - b1 + b2 - b3" for a b :: int
  by simp

lemma era_scaled_mono:
  assumes "0 \<le> a" "a \<le> b" "b < 146096"
  shows "era_scaled a \<le> era_scaled b"
  unfolding era_scaled_def
proof (rule scaled_mono_step)
  have "(a + (b - a)) div 1460 \<le> a div 1460 + (b - a)"
    by (rule div_add_le) (use assms in simp_all)
  moreover have "a + (b - a) = b" by simp
  ultimately show "b div 1460 \<le> a div 1460 + (b - a)"
    by (simp only:)
  show "a div 36524 \<le> b div 36524"
    by (rule zdiv_mono1) (use assms in simp_all)
  show "a div 146096 = 0" "b div 146096 = 0"
    by (rule div_pos_pos_trivial; use assms in linarith)+
qed

definition in_era_year :: "int \<Rightarrow> int \<Rightarrow> bool" where
  "in_era_year y d \<longleftrightarrow> 0 \<le> y \<and> y \<le> 399 \<and> era_days y \<le> d \<and> (d < era_days (y + 1) \<or> y = 399 \<and> d = 146096)"

lemma era_days_nonneg: "0 \<le> y \<Longrightarrow> 0 \<le> era_days y"
  using zdiv_mono2 [of y 4 100] by (simp add: era_days_def)

lemma era_year_exists:
  assumes "0 \<le> d" "d \<le> 146096"
  shows "\<exists>y. in_era_year y d"
proof (cases "d = 146096")
  case True
  then show ?thesis by (intro exI [of _ 399]) (simp add: in_era_year_def era_days_def)
next
  case False
  have "\<exists>y. 0 \<le> y \<and> y < int n \<and> era_days y \<le> d \<and> d < era_days (y + 1)" if "d < era_days (int n)" for n
    using that
  proof (induction n)
    case 0
    then show ?case using assms(1) by (simp add: era_days_def)
  next
    case (Suc n)
    show ?case
    proof (cases "d < era_days (int n)")
      case True
      then show ?thesis using Suc.IH by fastforce
    next
      case False
      then show ?thesis using Suc.prems by (intro exI [of _ "int n"]) (simp add: add.commute)
    qed
  qed
  note ex = this [of 400]
  have "era_days (int 400) = 146096" by (simp add: era_days_def)
  then obtain y where "0 \<le> y" "y < int 400" "era_days y \<le> d" "d < era_days (y + 1)"
    using ex False assms(2) by force
  then show ?thesis by (intro exI [of _ y]) (simp add: in_era_year_def)
qed

lemma era_year_scaled:
  assumes "in_era_year y d"
  shows "era_scaled d div 365 = y"
proof -
  have y: "0 \<le> y" "y \<le> 399" "era_days y \<le> d" using assms by (auto simp: in_era_year_def)
  note ok = era_year_ok [OF y(1,2)]
  show ?thesis
  proof (cases "d < era_days (y + 1)")
    case True
    have b: "era_days (y + 1) \<le> 146096" "365 * y \<le> era_scaled (era_days y)" "era_scaled (era_days (y + 1) - 1) < 365 * (y + 1)"
      using ok by (auto simp: era_year_ok_def)
    have "era_scaled (era_days y) \<le> era_scaled d"
      using era_days_nonneg [OF y(1)] y(3) True b(1) by (intro era_scaled_mono) auto
    moreover have "era_scaled d \<le> era_scaled (era_days (y + 1) - 1)"
      using era_days_nonneg [OF y(1)] y(3) True b(1) by (intro era_scaled_mono) auto
    ultimately have "365 * y \<le> era_scaled d" "era_scaled d < 365 * (y + 1)"
      using b(2,3) by (simp_all only: order.trans le_less_trans)
    then show ?thesis
      by (intro int_div_pos_eq [of _ _ _ "era_scaled d - 365 * y"]) auto
  next
    case False
    then have "y = 399" "d = 146096" using assms by (auto simp: in_era_year_def)
    then show ?thesis by (simp add: era_scaled_def)
  qed
qed

text \<open>The date of a day number in terms of the era, the year in it that starts in March, and the day of that year.\<close>

lemma civil_from_days_parts:
  obtains era y n mp where
    "civil_from_days days = (y + era * 400 + (if mp < 10 then 0 else 1), if mp < 10 then mp + 3 else mp - 9, n - (153 * mp + 2) div 5 + 1)"
    "0 \<le> y" "y \<le> 399" "mp = (5 * n + 2) div 153" "0 \<le> mp" "mp \<le> 11" "1 \<le> n - (153 * mp + 2) div 5 + 1"
    "n - (153 * mp + 2) div 5 + 1 \<le> 31" "0 \<le> n" "n \<le> 365" "days = era * 146097 + era_days y + n - 719468"
proof -
  define era d where "era = (days + 719468) div 146097" and "d = days + 719468 - era * 146097"
  have "d = (days + 719468) mod 146097"
    by (simp add: d_def era_def minus_div_mult_eq_mod)
  then have d: "0 \<le> d" "d \<le> 146096"
    using pos_mod_bound [of 146097 "days + 719468"] pos_mod_sign [of 146097 "days + 719468"] by linarith+
  obtain y where y: "in_era_year y d" using era_year_exists [OF d] by blast
  define n mp where "n = d - era_days y" and "mp = (5 * n + 2) div 153"
  have y2: "0 \<le> y" "y \<le> 399" "0 \<le> n" using y by (auto simp: in_era_year_def n_def)
  have n: "n \<le> 365"
  proof (cases "d < era_days (y + 1)")
    case True
    then show ?thesis using era_year_ok [OF y2(1,2)] unfolding era_year_ok_def n_def by linarith
  next
    case False
    then have "d = 146096" "y = 399" using y by (auto simp: in_era_year_def)
    then show ?thesis by (simp add: n_def era_days_def)
  qed
  have ok: "0 \<le> mp" "mp \<le> 11" "1 \<le> n - (153 * mp + 2) div 5 + 1" "n - (153 * mp + 2) div 5 + 1 \<le> 31"
    using year_day_ok [OF y2(3) n] unfolding year_day_ok_def Let_def mp_def by blast+
  have "floor_divide (days + 719468) 146097 = era" by (simp add: floor_divide_div era_def)
  moreover have "(d - d div 1460 + d div 36524 - d div 146096) div 365 = y"
    using era_year_scaled [OF y] by (simp only: era_scaled_def)
  ultimately have "civil_from_days days =
      (y + era * 400 + (if (if mp < 10 then mp + 3 else mp - 9) \<le> 2 then 1 else 0),
       if mp < 10 then mp + 3 else mp - 9, n - (153 * mp + 2) div 5 + 1)"
    unfolding civil_from_days_def Let_def
    by (simp only: d_def [symmetric] era_days_def [symmetric] n_def [symmetric] mp_def [symmetric])
  moreover have "(if (if mp < 10 then mp + 3 else mp - 9) \<le> 2 then 1 else 0 :: int) = (if mp < 10 then 0 else 1)"
    using ok(1,2) by simp
  ultimately have c: "civil_from_days days = (y + era * 400 + (if mp < 10 then 0 else 1),
      if mp < 10 then mp + 3 else mp - 9, n - (153 * mp + 2) div 5 + 1)"
    by (simp only:)
  have "days = era * 146097 + era_days y + n - 719468" by (simp add: n_def d_def)
  from that [OF c y2(1,2) mp_def ok y2(3) n this] show ?thesis .
qed

lemma div_era: "(a * 400 + y) div 4 = a * 100 + y div 4" "(a * 400 + y) div 100 = a * 4 + y div 100" for a y :: int
  using div_mult_self1 [of 4 y "a * 100"] div_mult_self1 [of 100 y "a * 4"] by (simp_all add: algebra_simps)

text \<open>The closed form: days of the years, leap days, and the days of the year from March on.\<close>

lemma civil_days_parts:
  assumes "0 \<le> y" "y \<le> 399"
  shows "civil_days_from_epoch (y + era * 400 + (if m \<le> 2 then 1 else 0)) m d =
    era * 146097 + era_days y + ((153 * (if m > 2 then m - 3 else m + 9) + 2) div 5 + d - 1) - 719468"
proof -
  have "(y + era * 400) div 400 = era" using assms by simp
  then show ?thesis
    unfolding civil_days_from_epoch_def Let_def
    by (simp add: floor_divide_div era_days_def)
qed

lemma civil_roundtrip:
  assumes "civil_from_days days = (year, month, day)"
  shows "civil_days_from_epoch year month day = days" "1 \<le> month" "month \<le> 12" "1 \<le> day" "day \<le> 31"
proof -
  from civil_from_days_parts [of days] obtain era y n mp where p:
    "civil_from_days days = (y + era * 400 + (if mp < 10 then 0 else 1), if mp < 10 then mp + 3 else mp - 9, n - (153 * mp + 2) div 5 + 1)"
    "0 \<le> y" "y \<le> 399" "0 \<le> mp" "mp \<le> 11" "1 \<le> n - (153 * mp + 2) div 5 + 1"
    "n - (153 * mp + 2) div 5 + 1 \<le> 31" "days = era * 146097 + era_days y + n - 719468"
    by metis
  have e: "month = (if mp < 10 then mp + 3 else mp - 9)" "day = n - (153 * mp + 2) div 5 + 1"
    "year = y + era * 400 + (if month \<le> 2 then 1 else 0)"
    using assms p(1,4,5) by (cases "mp < 10"; auto)+
  have mp: "(if month > 2 then month - 3 else month + 9) = mp"
    using p(4,5) by (simp add: e(1))
  show "civil_days_from_epoch year month day = days"
    unfolding e(3) civil_days_parts [OF p(2,3)] mp e(2) p(8) by simp
  show "1 \<le> month" "month \<le> 12" using p(4,5) by (auto simp: e(1))
  show "1 \<le> day" "day \<le> 31" using p(6,7) by (simp_all only: e(2))
qed

lemma tzset_unset: "timezone (tzset None t) = 0" "tz_standard (tzset None t) = utc_name"
  by (simp_all add: tzset_def utc_name_def copy_tz_name_def peek_def tz_offset_def digit_char_def digit_val_def Let_def numeral_3_eq_3)

text \<open>The days of a year that a 32-bit year field can name.\<close>

lemma civil_days_bounds:
  assumes "civil_from_days days = (year, month, day)" "INT_MIN \<le> year - 1900" "year - 1900 \<le> INT_MAX"
  shows "- 1000000000000 \<le> days" "days \<le> 1000000000000"
proof -
  from civil_from_days_parts [of days] obtain era y n mp where p:
    "civil_from_days days = (y + era * 400 + (if mp < 10 then 0 else 1), if mp < 10 then mp + 3 else mp - 9, n - (153 * mp + 2) div 5 + 1)"
    "0 \<le> y" "y \<le> 399" "0 \<le> n" "n \<le> 365" "days = era * 146097 + era_days y + n - 719468"
    by metis
  have "year = y + era * 400 + (if mp < 10 then 0 else 1)" using assms(1) p(1) by simp
  then have "y + era * 400 \<le> year" "year \<le> y + era * 400 + 1" by (simp_all split: if_splits)
  then have "- 5500000 \<le> era" "era \<le> 5500000"
    using assms(2,3) p(2,3) by (simp_all add: INT_MIN_def INT_MAX_def)
  moreover have "era_days y \<le> 146096"
    using era_year_ok [OF p(2,3)] unfolding era_year_ok_def by linarith
  ultimately show "- 1000000000000 \<le> days" "days \<le> 1000000000000"
    using p(4,5) era_days_nonneg [OF p(2)] unfolding p(6) by linarith+
qed

lemma civil_days_add_day: "civil_days_from_epoch y m 1 + (d - 1) = civil_days_from_epoch y m d"
  by (simp add: civil_days_from_epoch_def Let_def)

lemma normalized: "0 \<le> v \<Longrightarrow> v < d \<Longrightarrow> normalize_component v d = (0, v)"
  by (simp add: normalize_component_def floor_divide_div Let_def)

lemma day_seconds_parts:
  fixes s :: int
  assumes "0 \<le> s" "s < 86400"
  shows "s smod 60 = s mod 60" "(s sdiv 60) smod 60 = s div 60 mod 60" "s sdiv 3600 = s div 3600"
    "s div 3600 < 24" "s div 3600 * 3600 + s div 60 mod 60 * 60 + s mod 60 = s"
proof -
  show "s smod 60 = s mod 60" "(s sdiv 60) smod 60 = s div 60 mod 60" "s sdiv 3600 = s div 3600"
    using assms by (simp_all add: smod_nonneg pos_imp_zdiv_nonneg_iff)
  show "s div 3600 < 24" using assms(2) by (simp add: div_less_iff_less_mult)
  have "s div 3600 = s div 60 div 60" by (simp add: zdiv_zmult2_eq [symmetric])
  then show "s div 3600 * 3600 + s div 60 mod 60 * 60 + s mod 60 = s"
    using div_mult_mod_eq [of "s div 60" 60] div_mult_mod_eq [of s 60] by linarith
qed

lemma smod_bound:
  fixes v d :: int
  assumes "0 < d"
  shows "\<bar>v smod d\<bar> < d"
  using assms pos_mod_bound [OF assms, of "\<bar>v\<bar>"] pos_mod_sign [OF assms, of "\<bar>v\<bar>"]
  by (simp add: signed_modulo_int_def abs_mult abs_sgn_eq)

lemma gmtime_r_parts:
  assumes "gmtime_r (Some s) = Inr v"
  obtains days ds year month day where "s = days * 86400 + ds" "0 \<le> ds" "ds < 86400"
    "civil_from_days days = (year, month, day)" "INT_MIN \<le> year - 1900" "year - 1900 \<le> INT_MAX"
    "tm_year v = year - 1900" "tm_mon v = month - 1" "tm_mday v = day" "tm_sec v = ds mod 60"
    "tm_min v = ds div 60 mod 60" "tm_hour v = ds div 3600" "tm_gmtoff v = 0" "tm_zone v = utc_name"
    "0 \<le> tm_wday v" "tm_wday v \<le> 6"
proof -
  define days ds where "days = s div 86400" and "ds = s mod 86400"
  have s: "floor_divide s 86400 = days" "s - days * 86400 = ds" "s = days * 86400 + ds" "0 \<le> ds" "ds < 86400"
    by (simp_all add: days_def ds_def floor_divide_div minus_div_mult_eq_mod)
  obtain year month day where c: "civil_from_days days = (year, month, day)" by (metis prod_cases3)
  note d = day_seconds_parts [OF s(4,5)]
  define w where "w = (days + 4) smod 7"
  have "\<bar>w\<bar> < 7" unfolding w_def by (rule smod_bound) simp
  then have w: "0 \<le> (if w < 0 then w + 7 else w)" "(if w < 0 then w + 7 else w) \<le> 6" by auto
  have "INT_MIN \<le> year - 1900 \<and> year - 1900 \<le> INT_MAX \<and> v =
    \<lparr>tm_sec = ds mod 60, tm_min = ds div 60 mod 60, tm_hour = ds div 3600, tm_mday = day, tm_mon = month - 1,
     tm_year = year - 1900, tm_wday = (if w < 0 then w + 7 else w),
     tm_yday = days_before_month ! (if is_leap_year year then 1 else 0) ! nat (month - 1) + day - 1,
     tm_isdst = 0, tm_gmtoff = 0, tm_zone = utc_name\<rparr>"
    using assms unfolding gmtime_r_def option.case Let_def s(1,2) c prod.case d(1-3) w_def [symmetric]
    by (cases "year - 1900 < INT_MIN \<or> year - 1900 > INT_MAX") (auto simp: not_less)
  then show ?thesis
    using that [OF s(3-5) c] w by simp
qed

lemma mktime_normalized:
  assumes s: "tm_year v = year - 1900" "tm_mon v = month - 1" "tm_mday v = day" "tm_sec v = ds mod 60" "tm_min v = ds div 60 mod 60"
    "tm_hour v = ds div 3600" and ds: "0 \<le> ds" "ds < 86400" and mon: "1 \<le> month" "month \<le> 12"
    and days: "civil_days_from_epoch year month day = days" "- 1000000000000 \<le> days" "days \<le> 1000000000000"
    and g: "gmtime_r (Some (days * 86400 + ds)) = Inr r"
  shows "fst (mktime None v t) = Inr (days * 86400 + ds, r\<lparr>tm_gmtoff := 0, tm_zone := utc_name\<rparr>)"
proof -
  note d = day_seconds_parts [OF ds]
  have m: "floor_divide (month - 1) 12 = 0" using mon by (simp add: floor_divide_div)
  have n: "normalize_component (ds mod 60) 60 = (0, ds mod 60)" "normalize_component (ds div 60 mod 60) 60 = (0, ds div 60 mod 60)"
    "normalize_component (ds div 3600) 24 = (0, ds div 3600)"
    using ds d(4) by (auto intro!: normalized simp: pos_imp_zdiv_nonneg_iff)
  have z: "ds mod 60 sdiv 60 = 0" "ds mod 60 smod 60 = ds mod 60" "ds div 60 mod 60 sdiv 60 = 0" "ds div 60 mod 60 smod 60 = ds div 60 mod 60"
    "ds div 3600 smod 24 = ds div 3600"
    using ds d(4) by (auto simp: smod_nonneg pos_imp_zdiv_nonneg_iff)
  have e: "civil_days_from_epoch (year - 1900 + 1900) (month - 1 - 0 * 12 + 1) 1 + (day - 1) = days"
    using days(1) civil_days_add_day [of year month day] by simp
  have sec: "days * 86400 + ds div 3600 * 3600 + ds div 60 mod 60 * 60 + ds mod 60 = days * 86400 + ds"
    using d(5) by linarith
  have lim: "\<not> (days > INT64_MAX sdiv 86400 \<or> days < INT64_MIN sdiv 86400)"
    using days(2,3) by (simp add: INT64_MAX_def INT64_MIN_def signed_divide_int_def)
  have f: "fits64 (days * 86400 + ds)"
    using days(2,3) ds by (simp add: fits64_def INT64_MAX_def INT64_MIN_def)
  show ?thesis
    unfolding mktime_def s Let_def m n prod.case z add_0_right e if_not_P [OF lim] sec
    using f g by (simp add: tzset_unset)
qed

section \<open>The claims\<close>

text \<open>
  C32. For every 64-bit clock value that \<^verbatim>\<open>gmtime_r\<close> converts, the calendar fields are in range and
  \<^verbatim>\<open>mktime\<close> with the time zone unset turns them back into the same clock value and the same fields.
\<close>

theorem gmtime_mktime_roundtrip:
  assumes "gmtime_r (Some s) = Inr v"
  shows "fst (mktime None v t) = Inr (s, v) \<and> 0 \<le> tm_sec v \<and> tm_sec v \<le> 59 \<and> 0 \<le> tm_min v \<and> tm_min v \<le> 59 \<and>
    0 \<le> tm_hour v \<and> tm_hour v \<le> 23 \<and> 1 \<le> tm_mday v \<and> tm_mday v \<le> 31 \<and> 0 \<le> tm_mon v \<and> tm_mon v \<le> 11 \<and>
    0 \<le> tm_wday v \<and> tm_wday v \<le> 6"
proof -
  from gmtime_r_parts [OF assms] obtain days ds year month day where s: "s = days * 86400 + ds" "0 \<le> ds" "ds < 86400"
    and c: "civil_from_days days = (year, month, day)" and y: "INT_MIN \<le> year - 1900" "year - 1900 \<le> INT_MAX"
    and v: "tm_year v = year - 1900" "tm_mon v = month - 1" "tm_mday v = day" "tm_sec v = ds mod 60"
      "tm_min v = ds div 60 mod 60" "tm_hour v = ds div 3600"
    and z: "tm_gmtoff v = 0" "tm_zone v = utc_name" "0 \<le> tm_wday v" "tm_wday v \<le> 6"
    by metis
  note r = civil_roundtrip [OF c] and b = civil_days_bounds [OF c y]
  have "fst (mktime None v t) = Inr (s, v\<lparr>tm_gmtoff := 0, tm_zone := utc_name\<rparr>)"
    using mktime_normalized [OF v s(2,3) r(2,3,1) b, of v t] assms unfolding s(1) by simp
  moreover have "v\<lparr>tm_gmtoff := 0, tm_zone := utc_name\<rparr> = v" using z(1,2) by simp
  moreover have "0 \<le> ds div 3600" "ds div 3600 \<le> 23"
    using day_seconds_parts(4) [OF s(2,3)] s(2) by (simp_all add: pos_imp_zdiv_nonneg_iff)
  moreover have "x mod 60 \<le> 59" for x :: int using pos_mod_bound [of 60 x] by simp
  ultimately show ?thesis
    using r(2-5) z(3,4) by (simp add: v)
qed

definition tz_start :: tz where
  "tz_start = \<lparr>timezone = 0, daylight = 0, tz_standard = utc_name, tz_daylight = utc_name\<rparr>"

lemma gmtime_demo: "gmtime_r (Some 1000000000) = Inr \<lparr>tm_sec = 40, tm_min = 46, tm_hour = 1, tm_mday = 9, tm_mon = 8,
    tm_year = 101, tm_wday = 0, tm_yday = 251, tm_isdst = 0, tm_gmtoff = 0, tm_zone = utc_name\<rparr>"
proof -
  have c: "civil_from_days 11574 = (2001, 9, 9)"
    by code_simp
  show ?thesis
    by (simp add: gmtime_r_def floor_divide_div c smod_nonneg leap_year_iff days_before_month_def INT_MIN_def INT_MAX_def)
qed

theorem gmtime_mktime_roundtrip_witness:
  "fst (mktime None \<lparr>tm_sec = 40, tm_min = 46, tm_hour = 1, tm_mday = 9, tm_mon = 8, tm_year = 101, tm_wday = 0,
     tm_yday = 251, tm_isdst = 0, tm_gmtoff = 0, tm_zone = utc_name\<rparr> tz_start) =
   Inr (1000000000, \<lparr>tm_sec = 40, tm_min = 46, tm_hour = 1, tm_mday = 9, tm_mon = 8, tm_year = 101, tm_wday = 0,
     tm_yday = 251, tm_isdst = 0, tm_gmtoff = 0, tm_zone = utc_name\<rparr>)"
  using gmtime_mktime_roundtrip [OF gmtime_demo] by blast


section \<open>Dates to day numbers and back\<close>

definition march_length :: "int \<Rightarrow> int" where
  "march_length mp = [31, 30, 31, 30, 31, 31, 30, 31, 30, 31, 31, 29] ! nat mp"

definition march_day_ok :: "int \<Rightarrow> int \<Rightarrow> bool" where
  "march_day_ok mp d \<longleftrightarrow> (let n = (153 * mp + 2) div 5 + d - 1 in d \<le> march_length mp \<longrightarrow>
     (5 * n + 2) div 153 = mp \<and> 0 \<le> n \<and> (n \<le> 364 \<or> mp = 11 \<and> d = 29 \<and> n = 365))"

lemma march_table: "list_all (\<lambda>mp. list_all (march_day_ok mp) [1..31]) [0..11]"
  by code_simp

lemma march_day_ok: "0 \<le> mp \<Longrightarrow> mp \<le> 11 \<Longrightarrow> 1 \<le> d \<Longrightarrow> d \<le> 31 \<Longrightarrow> march_day_ok mp d"
  using march_table unfolding list_all_iff set_upto by simp

text \<open>The number of days of a month; months count from 1.\<close>

definition month_length :: "bool \<Rightarrow> int \<Rightarrow> int" where
  "month_length leap m = (if m = 2 then if leap then 29 else 28 else if m = 4 \<or> m = 6 \<or> m = 9 \<or> m = 11 then 30 else 31)"

definition valid_date :: "int \<Rightarrow> int \<Rightarrow> int \<Rightarrow> bool" where
  "valid_date y m d \<longleftrightarrow> 1 \<le> m \<and> m \<le> 12 \<and> 1 \<le> d \<and> d \<le> month_length (is_leap_year y) m"

lemma month_table:
  "list_all (\<lambda>m. month_length True m \<le> march_length (if m > 2 then m - 3 else m + 9) \<and>
     month_length False m \<le> march_length (if m > 2 then m - 3 else m + 9) \<and>
     march_length (if m > 2 then m - 3 else m + 9) \<le> 31) [1..12]"
  by code_simp

lemma march_length_month:
  assumes "1 \<le> m" "m \<le> 12"
  shows "month_length leap m \<le> march_length (if m > 2 then m - 3 else m + 9)"
    and "march_length (if m > 2 then m - 3 else m + 9) \<le> 31"
  using month_table assms unfolding list_all_iff set_upto by (cases leap; simp)+

lemma leap_mod_era: "is_leap_year (y + era * 400) \<longleftrightarrow> is_leap_year y"
proof -
  have "(y + era * 400) mod k = y mod k" if "k dvd 400" for k :: int
  proof -
    have "k dvd era * 400" using that by simp
    then obtain j where "era * 400 = k * j" by (rule dvdE)
    then show ?thesis by simp
  qed
  from this [of 4] this [of 100] this [of 400] show ?thesis by (simp add: leap_year_iff)
qed

lemma civil_inverse:
  assumes v: "valid_date year month day"
  shows "civil_from_days (civil_days_from_epoch year month day) = (year, month, day)"
proof -
  define mp where "mp = (if month > 2 then month - 3 else month + 9)"
  define Y where "Y = year - (if month \<le> 2 then 1 else 0)"
  define era y n where "era = Y div 400" and "y = Y mod 400" and "n = (153 * mp + 2) div 5 + day - 1"
  have y: "0 \<le> y" "y \<le> 399" using pos_mod_sign [of 400 Y] pos_mod_bound [of 400 Y] by (simp_all add: y_def)
  have Y: "Y = y + era * 400" by (simp add: y_def era_def mod_div_mult_eq)
  have m: "1 \<le> month" "month \<le> 12" "1 \<le> day" "day \<le> month_length (is_leap_year year) month"
    using v by (auto simp: valid_date_def)
  have mp: "0 \<le> mp" "mp \<le> 11" "mp < 10 \<longleftrightarrow> month > 2" using m(1,2) by (auto simp: mp_def)
  have len: "day \<le> march_length mp" "day \<le> 31"
    using march_length_month(1) [OF m(1,2), of "is_leap_year year"] march_length_month(2) [OF m(1,2)] m(4)
    unfolding mp_def by linarith+
  have n: "(5 * n + 2) div 153 = mp" "0 \<le> n" "n \<le> 364 \<or> mp = 11 \<and> day = 29 \<and> n = 365"
    using march_day_ok [OF mp(1,2) m(3) len(2)] len(1) unfolding march_day_ok_def Let_def n_def by blast+
  have in_year: "in_era_year y (era_days y + n)"
  proof (cases "n \<le> 364")
    case True
    then show ?thesis using y n(2) era_year_ok [OF y] by (simp add: in_era_year_def era_year_ok_def)
  next
    case False
    then have f: "mp = 11" "day = 29" "n = 365" using n(3) by auto
    then have "month = 2" using m(1,2) by (auto simp: mp_def split: if_splits)
    then have "is_leap_year year" "year = y + 1 + era * 400"
      using m(4) f(2) Y by (auto simp: month_length_def Y_def split: if_splits)
    then have "is_leap_year (y + 1)" by (simp add: leap_mod_era)
    then have "era_days (y + 1) = era_days y + 366 \<or> y = 399"
      using era_year_ok [OF y] by (simp add: era_year_ok_def leap_year_iff)
    moreover have "era_days 399 + 365 = 146096" by (simp add: era_days_def)
    ultimately show ?thesis using y f(3) by (auto simp: in_era_year_def)
  qed
  have d: "0 \<le> era_days y + n" "era_days y + n < 146097"
    using in_year era_days_nonneg [OF y(1)] n(2) era_year_ok [OF y] by (auto simp: in_era_year_def era_year_ok_def)
  have "year = y + era * 400 + (if month \<le> 2 then 1 else 0)" using Y by (simp add: Y_def)
  then have "civil_days_from_epoch year month day = era * 146097 + era_days y + n - 719468"
    using civil_days_parts [OF y, of era month day] by (simp add: n_def mp_def)
  then have s: "civil_days_from_epoch year month day + 719468 = era * 146097 + (era_days y + n)" by simp
  have f: "floor_divide (era * 146097 + (era_days y + n)) 146097 = era"
    using d by (simp add: floor_divide_div)
  have yoe: "(era_days y + n - (era_days y + n) div 1460 + (era_days y + n) div 36524 - (era_days y + n) div 146096) div 365 = y"
    using era_year_scaled [OF in_year] by (simp only: era_scaled_def)
  have sub: "era * 146097 + (era_days y + n) - era * 146097 = era_days y + n" "era_days y + n - era_days y = n" by simp_all
  have "civil_from_days (civil_days_from_epoch year month day) =
      (y + era * 400 + (if (if mp < 10 then mp + 3 else mp - 9) \<le> 2 then 1 else 0),
       if mp < 10 then mp + 3 else mp - 9, n - (153 * mp + 2) div 5 + 1)"
    unfolding civil_from_days_def Let_def s f by (simp only: sub yoe era_days_def [symmetric] n(1))
  also have "\<dots> = (year, month, day)"
    using mp(3) Y m(1,2) by (auto simp: mp_def Y_def n_def)
  finally show ?thesis .
qed

end
