(* ===== verification/Kernel_Time.thy ===== *)
theory Kernel_Time
  imports C_Calendar
begin

text \<open>
  The wall clock of the kernel, \<^verbatim>\<open>xscore/kernel/time.c\<close>: the battery-backed clock of the PC read through the
  ports 0x70 and 0x71, and the counter of the RISC-V board with its 64-bit division. Port and device accesses are
  parameters that act on a hardware state. The claims relate the seconds the kernel computes to the calendar of the C
  library, and the division to the division of words.
\<close>

section \<open>The clock of the PC\<close>

definition leap_year :: "u32 \<Rightarrow> bool" where
  "leap_year year \<longleftrightarrow> (year mod 4 = 0 \<and> year mod 100 \<noteq> 0) \<or> year mod 400 = 0"

definition month_offsets :: "u16 list" where
  "month_offsets = [0, 0, 31, 59, 90, 120, 151, 181, 212, 243, 273, 304, 334]"

definition years_days :: "nat \<Rightarrow> u64" where
  "years_days year = fold (\<lambda>current days. days + (if leap_year (of_nat current) then 366 else 365)) [1970..<year] 0"

definition calendar_to_epoch :: "u32 \<Rightarrow> u32 \<Rightarrow> u32 \<Rightarrow> u32 \<Rightarrow> u32 \<Rightarrow> u32 \<Rightarrow> u64" where
  "calendar_to_epoch year month day hour minute second =
     (if year < 1970 \<or> month < 1 \<or> month > 12 \<or> day < 1 \<or> day > 31 \<or> hour > 23 \<or> minute > 59 \<or> second > 60 then 0
      else
        let days = years_days (unat year) + ucast (ucast (month_offsets ! unat month) + day - 1 :: u32);
            days = (if month > 2 \<and> leap_year year then days + 1 else days)
        in days * 86400 + ucast hour * 3600 + ucast minute * 60 + ucast second)"

definition cmos_read :: "(u16 \<Rightarrow> u8 \<Rightarrow> 'h \<Rightarrow> 'h) \<Rightarrow> (u16 \<Rightarrow> 'h \<Rightarrow> u8 \<times> 'h) \<Rightarrow> u8 \<Rightarrow> 'h \<Rightarrow> u8 \<times> 'h" where
  "cmos_read out8 in8 index h = in8 0x71 (out8 0x70 (index OR 0x80) h)"

definition bcd_to_binary :: "u8 \<Rightarrow> u32" where
  "bcd_to_binary v = ucast (v AND 0x0f) + ucast (drop_bit 4 v) * 10"

primrec cmos_wait :: "(u8 \<Rightarrow> 'h \<Rightarrow> u8 \<times> 'h) \<Rightarrow> nat \<Rightarrow> 'h \<Rightarrow> 'h" where
  "cmos_wait rd 0 h = h"
| "cmos_wait rd (Suc n) h = (let (v, h) = rd 0x0a h in if v AND 0x80 = 0 then h else cmos_wait rd n h)"

definition xscore_time_epoch_seconds ::
    "(u16 \<Rightarrow> u8 \<Rightarrow> 'h \<Rightarrow> 'h) \<Rightarrow> (u16 \<Rightarrow> 'h \<Rightarrow> u8 \<times> 'h) \<Rightarrow> 'h \<Rightarrow> u64 \<times> 'h" where
  "xscore_time_epoch_seconds out8 in8 h =
     (let rd = cmos_read out8 in8;
          h = cmos_wait rd 100000 h;
          (second, h) = rd 0x00 h;
          (minute, h) = rd 0x02 h;
          (hour, h) = rd 0x04 h;
          (day, h) = rd 0x07 h;
          (month, h) = rd 0x08 h;
          (year, h) = rd 0x09 h;
          (status_b, h) = rd 0x0b h;
          (second_check, h) = rd 0x00 h;
          (second, minute, hour, day, month, year, h) =
            (if second_check \<noteq> second then
               let (minute, h) = rd 0x02 h;
                   (hour, h) = rd 0x04 h;
                   (day, h) = rd 0x07 h;
                   (month, h) = rd 0x08 h;
                   (year, h) = rd 0x09 h
               in (second_check, minute, hour, day, month, year, h)
             else (second, minute, hour, day, month, year, h));
          pm = (hour AND 0x80 \<noteq> 0);
          hour = hour AND 0x7f;
          bcd = (\<lambda>v :: u8. if status_b AND 0x04 = 0 then ucast (bcd_to_binary v) else v);
          (second, minute, hour, day, month, year) = (bcd second, bcd minute, bcd hour, bcd day, bcd month, bcd year);
          hour = (if status_b AND 0x02 = 0 then
                    let hour = (if pm \<and> hour < 12 then hour + 12 else hour)
                    in if \<not> pm \<and> hour = 12 then 0 else hour
                  else hour);
          epoch = calendar_to_epoch (2000 + ucast year) (ucast month) (ucast day) (ucast hour) (ucast minute) (ucast second)
      in (epoch, out8 0x70 0 h))"

section \<open>The counter of the RISC-V board\<close>

definition divide_step :: "u64 \<Rightarrow> u32 \<Rightarrow> nat \<Rightarrow> u64 \<times> u64 \<Rightarrow> u64 \<times> u64" where
  "divide_step dividend divisor b = (\<lambda>(quotient, remainder).
     let remainder = push_bit 1 remainder OR (drop_bit b dividend AND 1)
     in if remainder \<ge> ucast divisor then (quotient OR push_bit b 1, remainder - ucast divisor) else (quotient, remainder))"

definition divide_u64_u32 :: "u64 \<Rightarrow> u32 \<Rightarrow> u64" where
  "divide_u64_u32 dividend divisor = fst (fold (divide_step dividend divisor) (rev [0..<64]) (0, 0))"

partial_function (option) rtc_halves :: "(nat \<Rightarrow> 'h \<Rightarrow> u32 \<times> 'h) \<Rightarrow> 'h \<Rightarrow> (u32 \<times> u32 \<times> 'h) option" where
  "rtc_halves rtc h =
     (let (high_before, h) = rtc 1 h;
          (low, h) = rtc 0 h;
          (high_after, h) = rtc 1 h
      in if high_before \<noteq> high_after then rtc_halves rtc h else Some (high_after, low, h))"

definition epoch_seconds_riscv :: "(nat \<Rightarrow> 'h \<Rightarrow> u32 \<times> 'h) \<Rightarrow> 'h \<Rightarrow> (u64 \<times> 'h) option" where
  "epoch_seconds_riscv rtc h =
     (case rtc_halves rtc h of None \<Rightarrow> None
      | Some (high_after, low, h) \<Rightarrow>
          Some (divide_u64_u32 (push_bit 32 (ucast high_after) OR ucast low) 1000000000, h))"

section \<open>Seconds and the calendar\<close>

lemma div_step_int:
  fixes y k :: int
  assumes "0 < k"
  shows "y div k = (y - 1) div k + (if y mod k = 0 then 1 else 0)"
proof (cases "y mod k = 0")
  case True
  have "(y - 1) div k = y div k - 1"
    using assms True div_mult_mod_eq [of y k]
    by (intro int_div_pos_eq [of _ _ _ "k - 1"]) (auto simp: algebra_simps)
  then show ?thesis using True by simp
next
  case False
  then have "0 < y mod k" using pos_mod_sign [OF assms, of y] by linarith
  then have "(y - 1) div k = y div k"
    using assms pos_mod_bound [OF assms, of y] div_mult_mod_eq [of y k]
    by (intro int_div_pos_eq [of _ _ _ "y mod k - 1"]) (auto simp: algebra_simps)
  then show ?thesis using False by simp
qed

definition years_upto :: "int \<Rightarrow> int" where
  "years_upto y = 365 * y + y div 4 - y div 100 + y div 400"

lemma years_upto_step: "years_upto y = years_upto (y - 1) + (if is_leap_year y then 366 else 365)"
proof -
  define a b c where "a \<longleftrightarrow> y mod 4 = 0" and "b \<longleftrightarrow> y mod 100 = 0" and "c \<longleftrightarrow> y mod 400 = 0"
  have "b \<Longrightarrow> a" "c \<Longrightarrow> b"
    unfolding a_def b_def c_def dvd_eq_mod_eq_0 [symmetric] by (erule dvd_trans [rotated]; simp)+
  moreover have "is_leap_year y \<longleftrightarrow> a \<and> \<not> b \<or> c" by (simp add: leap_year_iff a_def b_def c_def)
  moreover have e: "y div 4 = (y - 1) div 4 + of_bool a" "y div 100 = (y - 1) div 100 + of_bool b"
    "y div 400 = (y - 1) div 400 + of_bool c"
    using div_step_int [of 4 y] div_step_int [of 100 y] div_step_int [of 400 y]
    unfolding a_def b_def c_def of_bool_def by (simp_all only: zero_less_numeral if_cancel)
  moreover have "365 * y + (p + of_bool a) - (q + of_bool b) + (r + of_bool c) =
      365 * (y - 1) + p - q + r + (365 + of_bool a - of_bool b + of_bool c)" for p q r
    by simp
  ultimately show ?thesis unfolding years_upto_def e by (simp only: of_bool_def) (cases a; cases b; cases c; simp only: if_True if_False; simp)
qed

lemma civil_days_closed:
  "civil_days_from_epoch year m d =
    years_upto (year - (if m \<le> 2 then 1 else 0)) + (153 * (if m > 2 then m - 3 else m + 9) + 2) div 5 + d - 719469"
proof -
  define Y where "Y = year - (if m \<le> 2 then 1 else 0)"
  define era y where "era = Y div 400" and "y = Y mod 400"
  have y: "0 \<le> y" "y \<le> 399" using pos_mod_sign [of 400 Y] pos_mod_bound [of 400 Y] by (simp_all add: y_def)
  have Y: "Y = era * 400 + y" by (simp add: y_def era_def)
  have "years_upto Y = era * 146097 + era_days y"
    using y unfolding years_upto_def era_days_def Y div_era by simp
  moreover have "year = y + era * 400 + (if m \<le> 2 then 1 else 0)" using Y by (simp add: Y_def)
  ultimately show ?thesis
    using civil_days_parts [OF y, of era m d] unfolding Y_def [symmetric] by simp
qed

lemma civil_days_next_year:
  "civil_days_from_epoch (y + 1) 1 1 = civil_days_from_epoch y 1 1 + (if is_leap_year y then 366 else 365)"
  using years_upto_step [of y] by (simp add: civil_days_closed)

definition month_start :: "int \<Rightarrow> int" where
  "month_start m = uint (month_offsets ! nat m)"

lemma month_start_table:
  "list_all (\<lambda>m. (153 * (if m > 2 then m - 3 else m + 9) + 2) div 5 =
     month_start m + (if m > 2 then 306 - 365 else 306) \<and> 0 \<le> month_start m \<and> month_start m \<le> 334) [1..12]"
  by (simp add: upto.simps month_start_def month_offsets_def)

lemma month_start:
  assumes "1 \<le> m" "m \<le> 12"
  shows "(153 * (if m > 2 then m - 3 else m + 9) + 2) div 5 = month_start m + (if m > 2 then 306 - 365 else 306)"
    "0 \<le> month_start m" "month_start m \<le> 334"
  using month_start_table assms unfolding list_all_iff set_upto by simp_all

lemma civil_days_month:
  assumes "1 \<le> m" "m \<le> 12"
  shows "civil_days_from_epoch y m d =
    civil_days_from_epoch y 1 1 + month_start m + d - 1 + (if m > 2 \<and> is_leap_year y then 1 else 0)"
  unfolding civil_days_closed month_start(1) [OF assms]
  using assms years_upto_step [of y] by (auto simp: month_start_def month_offsets_def)

lemma leap_year_word: "leap_year w \<longleftrightarrow> is_leap_year (uint w)"
proof -
  have "w mod 4 = 0 \<longleftrightarrow> uint w mod 4 = 0" "w mod 100 = 0 \<longleftrightarrow> uint w mod 100 = 0" "w mod 400 = 0 \<longleftrightarrow> uint w mod 400 = 0"
    by (simp_all add: word_uint_eq_iff uint_mod)
  then show ?thesis by (simp add: leap_year_def leap_year_iff)
qed

lemma uint_add64: "uint a + uint b < 2 ^ 64 \<Longrightarrow> uint (a + b) = uint a + uint b" for a b :: u64
  by (simp add: uint_word_ariths)

lemma years_days_civil:
  assumes "1970 \<le> y" "y \<le> 2 ^ 32"
  shows "uint (years_days y) = civil_days_from_epoch (int y) 1 1 \<and> uint (years_days y) \<le> (int y - 1970) * 366"
  using assms
proof (induction y rule: dec_induct)
  case base
  have "civil_days_from_epoch 1970 1 1 = 0" by code_simp
  then show ?case by (simp add: years_days_def)
next
  case (step y)
  let ?n = "if is_leap_year (int y) then 366 else 365 :: u64"
  have IH: "uint (years_days y) = civil_days_from_epoch (int y) 1 1" "uint (years_days y) \<le> (int y - 1970) * 366"
    using step by auto
  have y: "int y < 2 ^ 32" using step.prems by simp
  have "uint (of_nat y :: u32) = int y" using y by (simp add: unsigned_of_nat take_bit_nat_eq_self_iff take_bit_eq_mod)
  then have e: "years_days (Suc y) = years_days y + ?n"
    using step.hyps by (simp add: years_days_def leap_year_word)
  have n: "uint ?n = (if is_leap_year (int y) then 366 else 365)" by simp
  have "uint (years_days (Suc y)) = uint (years_days y) + uint ?n"
    unfolding e by (rule uint_add64) (use IH(2) y n in auto)
  then show ?case using IH civil_days_next_year [of "int y"] by (auto simp: n add.commute)
qed

lemma uint_ucast_up: "LENGTH('a) \<le> LENGTH('b) \<Longrightarrow> uint (ucast w :: 'b::len word) = uint w" for w :: "'a::len word"
  by (rule bit_eqI) (auto simp: bit_simps dest: bit_imp_le_length)

lemma calendar_to_epoch_civil:
  assumes y: "1970 \<le> year" and v: "valid_date (uint year) (uint month) (uint day)"
    and t: "hour < 24" "minute < 60" "second < 60"
  shows "uint (calendar_to_epoch year month day hour minute second) =
    civil_days_from_epoch (uint year) (uint month) (uint day) * 86400 + uint hour * 3600 + uint minute * 60 + uint second"
proof -
  have m: "1 \<le> uint month" "uint month \<le> 12" "1 \<le> uint day" "uint day \<le> 31"
    using v by (auto simp: valid_date_def month_length_def split: if_splits)
  have range: "\<not> (year < 1970 \<or> month < 1 \<or> month > 12 \<or> day < 1 \<or> day > 31 \<or> hour > 23 \<or> minute > 59 \<or> second > 60)"
    using y m t by (auto simp: word_less_def word_le_def)
  have uy: "1970 \<le> unat year" "unat year < 2 ^ 32" "uint year < 2 ^ 32"
    using y unsigned_less [where 'a = nat, of year] unsigned_less [where 'a = int, of year] by (simp_all add: word_le_nat_alt)
  have yd: "uint (years_days (unat year)) = civil_days_from_epoch (uint year) 1 1"
    "uint (years_days (unat year)) \<le> (uint year - 1970) * 366"
    using years_days_civil [OF uy(1) less_imp_le [OF uy(2)]] by simp_all
  define n where "n = (ucast (month_offsets ! unat month) + day - 1 :: u32)"
  have ms: "0 \<le> month_start (uint month)" "month_start (uint month) \<le> 334" using month_start(2,3) [OF m(1,2)] by simp_all
  have "uint (ucast (month_offsets ! unat month) :: u32) = month_start (uint month)"
    using ms(2) by (simp add: month_start_def uint_ucast_up)
  then have n: "uint n = month_start (uint month) + uint day - 1"
    using ms m(3,4) by (simp add: n_def uint_word_ariths)
  define days where "days = years_days (unat year) + ucast n"
  define days' where "days' = (if month > 2 \<and> leap_year year then days + 1 else days)"
  have d: "uint days = uint (years_days (unat year)) + uint n" "uint days \<le> 2000000000000"
  proof -
    have "uint (ucast n :: u64) = uint n" by (simp add: uint_ucast_up)
    moreover have b: "uint (years_days (unat year)) \<le> 1571958030336" "uint n \<le> 364"
      using yd(2) uy(3) n ms(2) m(4) by simp_all
    ultimately show "uint days = uint (years_days (unat year)) + uint n"
      unfolding days_def using uint_add64 [of "years_days (unat year)" "ucast n"] by simp
    then show "uint days \<le> 2000000000000" using b by simp
  qed
  have "month > 2 \<longleftrightarrow> uint month > 2" by (simp add: word_less_def)
  then have d': "uint days' = uint days + (if uint month > 2 \<and> is_leap_year (uint year) then 1 else 0)"
    using d(2) by (simp add: days'_def leap_year_word uint_word_ariths)
  then have c: "uint days' = civil_days_from_epoch (uint year) (uint month) (uint day)"
    using civil_days_month [OF m(1,2), of "uint year" "uint day"] yd(1) d(1) n by simp
  have u: "uint (ucast hour :: u64) = uint hour" "uint (ucast minute :: u64) = uint minute" "uint (ucast second :: u64) = uint second"
    "uint hour < 24" "uint minute < 60" "uint second < 60" "0 \<le> uint hour" "0 \<le> uint minute" "0 \<le> uint second" "0 \<le> uint days'"
    using t by (simp_all add: uint_ucast_up word_less_def)
  have "uint days' \<le> 2000000000001" using d(2) d' by simp
  then have "uint (days' * 86400 + ucast hour * 3600 + ucast minute * 60 + ucast second) =
      uint days' * 86400 + uint hour * 3600 + uint minute * 60 + uint second"
    using u by (simp add: uint_word_ariths)
  then show ?thesis
    unfolding calendar_to_epoch_def if_not_P [OF range] Let_def n_def [symmetric] days_def [symmetric] days'_def [symmetric] c .
qed

lemma gmtime_of_civil:
  assumes v: "valid_date year month day" and t: "0 \<le> h" "h < 24" "0 \<le> mi" "mi < 60" "0 \<le> se" "se < 60"
    and y: "INT_MIN \<le> year - 1900" "year - 1900 \<le> INT_MAX"
  shows "\<exists>v. gmtime_r (Some (civil_days_from_epoch year month day * 86400 + h * 3600 + mi * 60 + se)) = Inr v \<and>
    tm_year v = year - 1900 \<and> tm_mon v = month - 1 \<and> tm_mday v = day \<and> tm_hour v = h \<and> tm_min v = mi \<and> tm_sec v = se"
proof -
  define D ds where "D = civil_days_from_epoch year month day" and "ds = h * 3600 + mi * 60 + se"
  have ds: "0 \<le> ds" "ds < 86400" using t by (simp_all add: ds_def)
  have f: "floor_divide (D * 86400 + ds) 86400 = D" using ds by (simp add: floor_divide_div)
  have "ds div 60 = h * 60 + mi" unfolding ds_def using t by (intro int_div_pos_eq [of _ _ _ se]) auto
  moreover have "ds div 3600 = h" unfolding ds_def using t by (intro int_div_pos_eq [of _ _ _ "mi * 60 + se"]) auto
  moreover have "ds mod 60 = se" unfolding ds_def using t by (intro int_mod_pos_eq [of _ _ "h * 60 + mi"]) auto
  moreover have "(h * 60 + mi) mod 60 = mi" using t by (intro int_mod_pos_eq [of _ _ h]) auto
  ultimately have p: "ds smod 60 = se" "(ds sdiv 60) smod 60 = mi" "ds sdiv 3600 = h"
    using day_seconds_parts(1-3) [OF ds] by simp_all
  have s: "D * 86400 + h * 3600 + mi * 60 + se = D * 86400 + ds" by (simp add: ds_def)
  show ?thesis
    unfolding D_def [symmetric] s gmtime_r_def option.case Let_def f add_diff_cancel_left' civil_inverse [OF v, folded D_def] prod.case
    using p y by (simp add: not_less)
qed

section \<open>Reading the PC clock\<close>

text \<open>
  A clock that does not tick during the reading: every register has a fixed value. The value of a register in the
  format the status register announces, and the hour from 0 to 23 that the hour register means.
\<close>

definition clock_steady ::
    "(u16 \<Rightarrow> u8 \<Rightarrow> 'h \<Rightarrow> 'h) \<Rightarrow> (u16 \<Rightarrow> 'h \<Rightarrow> u8 \<times> 'h) \<Rightarrow> ('h \<Rightarrow> bool) \<Rightarrow> (u8 \<Rightarrow> u8) \<Rightarrow> bool" where
  "clock_steady out8 in8 ok reg \<longleftrightarrow>
     (\<forall>h index. ok h \<longrightarrow> fst (cmos_read out8 in8 index h) = reg index \<and> ok (snd (cmos_read out8 in8 index h)))"

definition clock_value :: "u8 \<Rightarrow> u8 \<Rightarrow> int" where
  "clock_value status v = (if status AND 4 = 0 then uint v mod 16 + uint v div 16 * 10 else uint v)"

definition clock_hour :: "u8 \<Rightarrow> u8 \<Rightarrow> int" where
  "clock_hour status v =
     (let h = clock_value status (v AND 0x7f)
      in if status AND 2 = 0 then h mod 12 + (if v AND 0x80 = 0 then 0 else 12) else h)"

definition clock_valid :: "(u8 \<Rightarrow> u8) \<Rightarrow> bool" where
  "clock_valid reg \<longleftrightarrow>
     (let b = reg 0x0b in
        valid_date (2000 + clock_value b (reg 9)) (clock_value b (reg 8)) (clock_value b (reg 7)) \<and>
        clock_hour b (reg 4) < 24 \<and> (b AND 2 = 0 \<longrightarrow> 1 \<le> clock_value b (reg 4 AND 0x7f) \<and> clock_value b (reg 4 AND 0x7f) \<le> 12) \<and>
        clock_value b (reg 2) < 60 \<and> clock_value b (reg 0) < 60 \<and> clock_value b (reg 9) < 100)"

lemma clock_steady_read:
  assumes "clock_steady out8 in8 ok reg" "ok h"
  obtains h' where "cmos_read out8 in8 index h = (reg index, h')" "ok h'"
  using assms unfolding clock_steady_def by (metis prod.collapse)

lemma cmos_wait_ok:
  assumes "clock_steady out8 in8 ok reg" "ok h"
  shows "ok (cmos_wait (cmos_read out8 in8) n h)"
  using assms(2)
proof (induction n arbitrary: h)
  case (Suc n)
  from clock_steady_read [OF assms(1) Suc.prems, of "0x0a"] obtain h' where
    "cmos_read out8 in8 0x0a h = (reg 0x0a, h')" "ok h'" .
  then show ?case using Suc.IH by simp
qed simp

lemma uint_bcd: "uint (ucast (bcd_to_binary v) :: u8) = uint v mod 16 + uint v div 16 * 10" for v :: u8
proof -
  define a b where "a = uint v mod 16" and "b = uint v div 16"
  have "uint v < 256" "0 \<le> uint v" using unsigned_less [where 'a = int, of v] by simp_all
  then have ab: "0 \<le> a" "a < 16" "0 \<le> b" "b < 16"
    by (simp_all add: a_def b_def div_less_iff_less_mult pos_imp_zdiv_nonneg_iff)
  have "v AND 0x0f = take_bit 4 v" by (simp add: take_bit_eq_mask mask_eq_exp_minus_1)
  then have "uint (v AND 0x0f) = a" "uint (drop_bit 4 v) = b"
    by (simp_all add: a_def b_def drop_bit_eq_div take_bit_eq_mod uint_mod uint_div)
  then have "uint (bcd_to_binary v) = a + b * 10"
    using ab by (simp add: bcd_to_binary_def unsigned_ucast_eq take_bit_eq_mod uint_word_ariths)
  then show ?thesis
    using ab unfolding a_def [symmetric] b_def [symmetric] by (simp add: unsigned_ucast_eq take_bit_eq_mod)
qed

definition clock_byte :: "u8 \<Rightarrow> u8 \<Rightarrow> u8" where
  "clock_byte status v = (if status AND 4 = 0 then ucast (bcd_to_binary v) else v)"

lemma uint_clock_byte: "uint (clock_byte status v) = clock_value status v"
  by (simp add: clock_byte_def clock_value_def uint_bcd)

definition clock_hour_byte :: "u8 \<Rightarrow> u8 \<Rightarrow> u8" where
  "clock_hour_byte status v =
     (let hour = clock_byte status (v AND 0x7f)
      in if status AND 2 = 0 then
           let hour = (if v AND 0x80 \<noteq> 0 \<and> hour < 12 then hour + 12 else hour)
           in if \<not> v AND 0x80 \<noteq> 0 \<and> hour = 12 then 0 else hour
         else hour)"

lemma uint_clock_hour_byte:
  assumes "status AND 2 = 0 \<longrightarrow> 1 \<le> clock_value status (v AND 0x7f) \<and> clock_value status (v AND 0x7f) \<le> 12"
  shows "uint (clock_hour_byte status v) = clock_hour status v"
proof -
  define b where "b = clock_byte status (v AND 0x7f)"
  have u: "clock_value status (v AND 0x7f) = uint b" by (simp add: b_def uint_clock_byte)
  have "uint b mod 12 = (if uint b = 12 then 0 else uint b)" if "1 \<le> uint b" "uint b \<le> 12" using that by auto
  then show ?thesis
    using assms unfolding clock_hour_byte_def clock_hour_def u b_def [symmetric] Let_def
    by (auto simp: word_less_def word_uint_eq_iff uint_word_ariths)
qed

lemma epoch_seconds_steady:
  assumes st: "clock_steady out8 in8 ok reg" and h: "ok h"
  shows "fst (xscore_time_epoch_seconds out8 in8 h) =
    calendar_to_epoch (2000 + ucast (clock_byte (reg 0x0b) (reg 9))) (ucast (clock_byte (reg 0x0b) (reg 8)))
      (ucast (clock_byte (reg 0x0b) (reg 7))) (ucast (clock_hour_byte (reg 0x0b) (reg 4)))
      (ucast (clock_byte (reg 0x0b) (reg 2))) (ucast (clock_byte (reg 0x0b) (reg 0)))"
proof -
  let ?rd = "cmos_read out8 in8"
  note r = clock_steady_read [OF st]
  obtain h1 where 1: "?rd 0 (cmos_wait ?rd 100000 h) = (reg 0, h1)" "ok h1" using r [OF cmos_wait_ok [OF st h]] .
  obtain h2 where 2: "?rd 2 h1 = (reg 2, h2)" "ok h2" using r [OF 1(2)] .
  obtain h3 where 3: "?rd 4 h2 = (reg 4, h3)" "ok h3" using r [OF 2(2)] .
  obtain h4 where 4: "?rd 7 h3 = (reg 7, h4)" "ok h4" using r [OF 3(2)] .
  obtain h5 where 5: "?rd 8 h4 = (reg 8, h5)" "ok h5" using r [OF 4(2)] .
  obtain h6 where 6: "?rd 9 h5 = (reg 9, h6)" "ok h6" using r [OF 5(2)] .
  obtain h7 where 7: "?rd 0x0b h6 = (reg 0x0b, h7)" "ok h7" using r [OF 6(2)] .
  obtain h8 where 8: "?rd 0 h7 = (reg 0, h8)" "ok h8" using r [OF 7(2)] .
  show ?thesis
    unfolding xscore_time_epoch_seconds_def Let_def 1(1) prod.case 2(1) 3(1) 4(1) 5(1) 6(1) 7(1) 8(1)
      not_not simp_thms if_False clock_hour_byte_def clock_byte_def fst_conv ..
qed

section \<open>The claims\<close>

text \<open>
  C27. The kernel reads a steady PC clock, in binary or BCD format and in 12 or 24 hour mode, and turns it into seconds since
  the epoch; \<^verbatim>\<open>gmtime_r\<close> of the C library turns these seconds back into the date and the time of day that the
  clock shows.
\<close>

theorem kernel_clock_calendar:
  assumes "clock_steady out8 in8 ok reg" "ok h" "clock_valid reg"
  shows "\<exists>v. gmtime_r (Some (uint (fst (xscore_time_epoch_seconds out8 in8 h)))) = Inr v \<and>
    tm_year v = 100 + clock_value (reg 0x0b) (reg 9) \<and> tm_mon v = clock_value (reg 0x0b) (reg 8) - 1 \<and>
    tm_mday v = clock_value (reg 0x0b) (reg 7) \<and> tm_hour v = clock_hour (reg 0x0b) (reg 4) \<and>
    tm_min v = clock_value (reg 0x0b) (reg 2) \<and> tm_sec v = clock_value (reg 0x0b) (reg 0)"
proof -
  let ?b = "reg 0x0b"
  have c: "valid_date (2000 + clock_value ?b (reg 9)) (clock_value ?b (reg 8)) (clock_value ?b (reg 7))"
    "clock_hour ?b (reg 4) < 24" "clock_value ?b (reg 2) < 60" "clock_value ?b (reg 0) < 60" "clock_value ?b (reg 9) < 100"
    using assms(3) by (simp_all add: clock_valid_def Let_def)
  have hr: "uint (clock_hour_byte ?b (reg 4)) = clock_hour ?b (reg 4)"
    using assms(3) by (intro uint_clock_hour_byte) (simp add: clock_valid_def Let_def)
  have nn: "0 \<le> clock_value ?b v" for v by (metis uint_clock_byte unsigned_greater_eq)
  have hn: "0 \<le> clock_hour ?b (reg 4)" by (metis hr unsigned_greater_eq)
  define Y :: u32 where "Y = 2000 + ucast (clock_byte ?b (reg 9))"
  have Y: "uint Y = 2000 + clock_value ?b (reg 9)"
    using nn [of "reg 9"] c(5) by (simp add: Y_def uint_word_ariths uint_ucast_up uint_clock_byte)
  note u = uint_ucast_up [where 'b = 32] uint_clock_byte hr
  have "uint (fst (xscore_time_epoch_seconds out8 in8 h)) =
      civil_days_from_epoch (2000 + clock_value ?b (reg 9)) (clock_value ?b (reg 8)) (clock_value ?b (reg 7)) * 86400 +
      clock_hour ?b (reg 4) * 3600 + clock_value ?b (reg 2) * 60 + clock_value ?b (reg 0)"
    unfolding epoch_seconds_steady [OF assms(1,2)] Y_def [symmetric]
    by (subst calendar_to_epoch_civil) (use c nn [of "reg 9"] Y in \<open>simp_all add: word_less_def word_le_def u\<close>)
  then show ?thesis
    using gmtime_of_civil [OF c(1) hn c(2) nn c(3) nn c(4)] nn [of "reg 9"] c(5) by (simp add: INT_MIN_def INT_MAX_def add.commute)
qed

text \<open>A clock that shows 2024-02-29 11:05:42 pm in BCD format; its state is the selected register.\<close>

definition demo_clock :: "u8 \<Rightarrow> u8" where
  "demo_clock s = (if s = 0x80 then 0x42 else if s = 0x82 then 0x05 else if s = 0x84 then 0x91 else if s = 0x87 then 0x29
     else if s = 0x88 then 0x02 else if s = 0x89 then 0x24 else 0)"

definition demo_out :: "u16 \<Rightarrow> u8 \<Rightarrow> u8 \<Rightarrow> u8" where
  "demo_out port v s = (if port = 0x70 then v else s)"

definition demo_in :: "u16 \<Rightarrow> u8 \<Rightarrow> u8 \<times> u8" where
  "demo_in port s = (demo_clock s, s)"

lemma demo_clock_steady: "clock_steady demo_out demo_in (\<lambda>_. True) (\<lambda>index. demo_clock (index OR 0x80))"
  by (simp add: clock_steady_def cmos_read_def demo_in_def demo_out_def)

lemma demo_clock_valid: "clock_valid (\<lambda>index. demo_clock (index OR 0x80))"
  by (simp add: clock_valid_def clock_value_def clock_hour_def demo_clock_def valid_date_def month_length_def leap_year_iff)

theorem kernel_clock_calendar_witness:
  "\<exists>v. gmtime_r (Some (uint (fst (xscore_time_epoch_seconds demo_out demo_in 0)))) = Inr v \<and>
    tm_year v = 124 \<and> tm_mon v = 1 \<and> tm_mday v = 29 \<and> tm_hour v = 23 \<and> tm_min v = 5 \<and> tm_sec v = 42"
  using kernel_clock_calendar [OF demo_clock_steady TrueI demo_clock_valid, of 0]
  by (simp add: clock_value_def clock_hour_def demo_clock_def)

section \<open>The division\<close>

lemma or_new_bit: "\<not> bit q b \<Longrightarrow> q OR push_bit b 1 = q + push_bit b 1" for q :: u64
proof -
  assume "\<not> bit q b"
  then have "q AND push_bit b 1 = 0" by (intro bit_eqI) (auto simp: bit_simps)
  then show ?thesis by (simp add: disjunctive_add_eq_or)
qed

text \<open>The state before bit \<open>b\<close> is treated: quotient and remainder of the bits above.\<close>

definition divided :: "nat \<Rightarrow> nat \<Rightarrow> nat \<Rightarrow> u64 \<times> u64 \<Rightarrow> bool" where
  "divided a d b = (\<lambda>(q, r). unat q = a div 2 ^ b div d * 2 ^ b \<and> unat r = a div 2 ^ b mod d)"

lemma divide_digit:
  fixes x d c :: nat
  assumes "0 < d" "c < 2"
  shows "(2 * x + c) div d = 2 * (x div d) + (if d \<le> 2 * (x mod d) + c then 1 else 0)"
    "(2 * x + c) mod d = (if d \<le> 2 * (x mod d) + c then 2 * (x mod d) + c - d else 2 * (x mod d) + c)"
proof -
  define q r where "q = x div d" and "r = x mod d"
  have x: "x = q * d + r" "r < d" using assms(1) by (simp_all add: q_def r_def)
  have e: "2 * x + c = (2 * q) * d + (2 * r + c)" by (simp add: x(1) algebra_simps)
  have "(2 * r + c) div d = (if d \<le> 2 * r + c then 1 else 0)" "(2 * r + c) mod d = (if d \<le> 2 * r + c then 2 * r + c - d else 2 * r + c)"
    using x(2) assms by (auto simp: le_div_geq le_mod_geq)
  then show "(2 * x + c) div d = 2 * (x div d) + (if d \<le> 2 * (x mod d) + c then 1 else 0)"
    "(2 * x + c) mod d = (if d \<le> 2 * (x mod d) + c then 2 * (x mod d) + c - d else 2 * (x mod d) + c)"
    using assms(1) unfolding e q_def [symmetric] r_def [symmetric] by simp_all
qed

lemma unat_ucast64: "unat (ucast d :: u64) = unat d" for d :: u32
  by (simp add: uint_ucast_up flip: nat_uint_eq)

lemma unat_drop64: "unat (drop_bit k a) = unat a div 2 ^ k" for a :: u64
  by (metis drop_bit_eq_div take_bit_nat_eq_self unsigned_drop_bit_eq unsigned_less)

lemma unat_bit64: "b < 64 \<Longrightarrow> unat (2 ^ b :: u64) = 2 ^ b"
  using unat_of_nat64 [of "2 ^ b"] power_strict_increasing [of b 64 "2 :: nat"] by simp

lemma shift_in_bit:
  fixes a r :: u64
  assumes "unat r < 2 ^ 32"
  shows "unat (push_bit 1 r OR (drop_bit b a AND 1)) = 2 * unat r + unat a div 2 ^ b mod 2"
proof -
  have "unat (drop_bit b a AND 1) = unat a div 2 ^ b mod 2"
    unfolding and_one_eq unat_mod unat_drop64 by simp
  then have "drop_bit b a AND 1 = of_bool (unat a div 2 ^ b mod 2 = 1)"
    by (simp add: word_unat_eq_iff)
  moreover have "push_bit 1 r OR push_bit 0 1 = push_bit 1 r + push_bit 0 1" by (rule or_new_bit) (simp only: bit_push_bit_iff; simp)
  ultimately have "push_bit 1 r OR (drop_bit b a AND 1) = of_nat (2 * unat r + unat a div 2 ^ b mod 2)"
    by (cases "unat a div 2 ^ b mod 2 = 1") (simp_all add: mult.commute)
  then show ?thesis using assms by (simp add: unat_of_nat64 del: of_nat_add of_nat_mult)
qed

lemma divide_step_divided:
  assumes "divided (unat a) (unat d) (Suc b) s" "b < 64" "0 < d"
  shows "divided (unat a) (unat d) b (divide_step a d b s)"
proof -
  obtain q r where s: "s = (q, r)" by fastforce
  define x c where "x = unat a div 2 ^ Suc b" and "c = unat a div 2 ^ b mod 2"
  have c: "c < 2" by (simp add: c_def)
  have d: "0 < unat d" "unat d < 2 ^ 32" using assms(3) unsigned_less [where 'a = nat, of d] by (simp_all add: word_less_nat_alt)
  have x: "unat a div 2 ^ b = 2 * x + c" by (simp add: x_def c_def div_mult2_eq power_Suc2 del: power_Suc)
  have q: "unat q = x div unat d * 2 ^ Suc b" and r: "unat r = x mod unat d"
    using assms(1) by (simp_all add: divided_def s x_def)
  define r' where "r' = push_bit 1 r OR (drop_bit b a AND 1)"
  have r': "unat r' = 2 * (x mod unat d) + c"
    using shift_in_bit [of r b a] d mod_less_divisor [OF d(1), of x] by (simp add: r'_def c_def r)
  have ge: "ucast d \<le> r' \<longleftrightarrow> unat d \<le> 2 * (x mod unat d) + c"
    by (simp add: word_le_nat_alt r' unat_ucast64)
  note dd = divide_digit [OF d(1) c, of x]
  have st: "divide_step a d b s = (if ucast d \<le> r' then (q OR push_bit b 1, r' - ucast d) else (q, r'))"
    by (simp only: divide_step_def s prod.case Let_def r'_def)
  show ?thesis
  proof (cases "ucast d \<le> r'")
    case True
    have "\<not> bit q b"
    proof -
      have "unat (drop_bit b q) = 2 * (x div unat d)" unfolding unat_drop64 q by simp
      then have "drop_bit b q = 2 * of_nat (x div unat d)" by (metis of_nat_mult of_nat_numeral of_nat_unat ucast_id)
      then show ?thesis by (simp only: bit_iff_odd_drop_bit dvd_triv_left not_not)
    qed
    then have o: "q OR push_bit b 1 = q + push_bit b 1" by (rule or_new_bit)
    have eq: "(2 * x + c) div unat d * 2 ^ b = unat q + 2 ^ b"
      using True ge dd(1) by (simp add: q algebra_simps)
    have "(2 * x + c) div unat d * 2 ^ b \<le> unat a"
      by (metis div_le_dividend div_times_less_eq_dividend le_trans mult_le_mono1 x)
    then have "unat (q + push_bit b 1) = unat q + 2 ^ b"
      using eq unat_bit64 [OF assms(2)] unsigned_less [where 'a = nat, of a] by (simp add: unat_word_ariths)
    moreover have "unat (r' - ucast d) = unat r' - unat d"
      using True by (simp add: unat_sub unat_ucast64)
    ultimately show ?thesis
      using True ge dd(2) by (simp add: st divided_def x eq o r' del: push_bit_of_1)
  next
    case False
    then show ?thesis using ge dd r' q by (simp add: st divided_def x)
  qed
qed

lemma divide_steps:
  assumes "n \<le> 64" "0 < d"
  shows "divided (unat a) (unat d) (64 - n) (fold (divide_step a d) (rev [64 - n..<64]) (0, 0))"
  using assms(1)
proof (induction n)
  case 0
  then show ?case using unsigned_less [where 'a = nat, of a] by (simp add: divided_def)
next
  case (Suc n)
  then have b: "64 - n = Suc (64 - Suc n)" "64 - Suc n < 64" by auto
  then have "rev [64 - Suc n..<64] = rev [64 - n..<64] @ [64 - Suc n]" using upt_conv_Cons [OF b(2)] by (simp only: rev.simps)
  then show ?case using divide_step_divided [OF _ b(2) assms(2)] Suc b(1) by simp
qed

lemma divide_u64_u32_div: "0 < d \<Longrightarrow> unat (divide_u64_u32 a d) = unat a div unat d"
  using divide_steps [of 64 d a] by (simp add: divide_u64_u32_def divided_def split: prod.splits)

text \<open>
  On the RISC-V board the kernel returns the nanosecond counter divided by \<open>10 ^ 9\<close>, without the division the
  processor may lack: whenever two readings of the high half agree, the loop ends there and the shift-and-subtract
  division gives the quotient of the 64-bit counter.
\<close>

lemma riscv_epoch_seconds:
  assumes "rtc 1 h = (high, h1)" "rtc 0 h1 = (low, h2)" "rtc 1 h2 = (high, h3)"
  shows "\<exists>v. epoch_seconds_riscv rtc h = Some (v, h3) \<and> unat v = (unat high * 2 ^ 32 + unat low) div 10 ^ 9"
proof -
  have "rtc_halves rtc h = Some (high, low, h3)" using assms by (subst rtc_halves.simps) simp
  moreover have "unat (push_bit 32 (ucast high) OR ucast low :: u64) = unat high * 2 ^ 32 + unat low"
  proof -
    have "push_bit 32 (ucast high) OR ucast low = (push_bit 32 (ucast high) + ucast low :: u64)"
      by (rule disjunctive_add_eq_or [symmetric]) (auto simp: bit_eq_iff bit_simps dest: bit_imp_le_length)
    then show ?thesis
      using unsigned_less [where 'a = nat, of high] unsigned_less [where 'a = nat, of low]
      by (simp add: push_bit_eq_mult unat_word_ariths unat_ucast64)
  qed
  ultimately show ?thesis using divide_u64_u32_div [of 1000000000] by (simp add: epoch_seconds_riscv_def)
qed

lemma riscv_epoch_seconds_witness:
  "\<exists>v. epoch_seconds_riscv (\<lambda>i (h :: nat). (if i = 0 then 0x90ab else 0x1234, Suc h)) 5 = Some (v, 8) \<and>
    unat v = (0x1234 * 2 ^ 32 + 0x90ab) div 10 ^ 9"
  using riscv_epoch_seconds [of "\<lambda>i (h :: nat). (if i = 0 then 0x90ab else 0x1234, Suc h)" 5 "0x1234" 6 "0x90ab" 7 8] by simp

end
