(* ===== verification/Threads.thy ===== *)
theory Threads
  imports Virtual_Map Errno
begin

unbundle bit_operations_syntax

text \<open>
  Kernel threads and the scheduler, \<^verbatim>\<open>xscore/kernel/thread.c\<close>, with the counters of
  \<^verbatim>\<open>xscore/kernel/sched.c\<close> it updates. The table of 64 thread control blocks, the thread each processor runs, and the
  masks of ready threads are the state, together with the page tables that hold the kernel stacks. Every operation takes
  the index of the processor that executes it; each critical section under the thread lock is one definition. Saved
  registers and floating-point state are not modelled: a context switch is the change of the current thread of a processor.
  \<^const>\<open>None\<close> stands for a processor that halts.
\<close>

section \<open>State\<close>

definition XSCORE_MAX_THREADS :: nat where "XSCORE_MAX_THREADS = 64"
definition SMP_MAX_CPUS :: nat where "SMP_MAX_CPUS = 16"
definition XSCORE_THREAD_STACK_PAGES :: nat where "XSCORE_THREAD_STACK_PAGES = 4"
definition XSCORE_THREAD_PRIVILEGE_STACK_PAGES :: nat where "XSCORE_THREAD_PRIVILEGE_STACK_PAGES = 4"
definition THREAD_STACK_REGION_BASE :: u64 where "THREAD_STACK_REGION_BASE = 0xffff820000000000"
definition TIME_SLICE_TICKS :: u32 where "TIME_SLICE_TICKS = 5"

datatype thread_state = UNUSED | READY | RUNNING | BLOCKED | EXITED | ALLOCATING | REAPING

record thread =
  tid :: u64
  owner_cpu :: nat
  state :: thread_state
  stack_top :: u64
  stack_base :: u64
  privilege_stack_top :: u64
  privilege_stack_base :: u64
  address_space_root :: u64
  file_descriptors :: u64
  entry :: u64
  argument :: u64
  process :: u64
  user_entry :: u64
  user_stack :: u64
  user_arg0 :: u64
  user_return_value :: u64
  join_waiter_id :: u64
  user_mode_thread :: bool
  detached :: bool
  wake_pending :: bool
  exit_requested :: bool

record sched_stats =
  timer_ticks :: u64
  context_switches :: u64
  preemptions :: u64

record kernel =
  threads :: "nat \<Rightarrow> thread"
  next_thread_id :: u64
  per_core_current_thread :: "nat \<Rightarrow> nat"
  threads_initialized :: bool
  current_slice_ticks :: "nat \<Rightarrow> u32"
  preemption_pending :: "nat \<Rightarrow> bool"
  per_cpu_ready_mask :: "nat \<Rightarrow> u64"
  stats :: sched_stats
  vm :: vmm
  core_cr3 :: "nat \<Rightarrow> u64"
  reschedule_requests :: "nat list"

definition set_thread :: "nat \<Rightarrow> (thread \<Rightarrow> thread) \<Rightarrow> kernel \<Rightarrow> kernel" where
  "set_thread i f s = s\<lparr>threads := (threads s)(i := f (threads s i))\<rparr>"

definition xscore_sched_record_switch :: "kernel \<Rightarrow> kernel" where
  "xscore_sched_record_switch s = s\<lparr>stats := (stats s)\<lparr>context_switches := context_switches (stats s) + 1\<rparr>\<rparr>"

definition xscore_sched_record_preemption :: "kernel \<Rightarrow> kernel" where
  "xscore_sched_record_preemption s = s\<lparr>stats := (stats s)\<lparr>preemptions := preemptions (stats s) + 1\<rparr>\<rparr>"

definition current_thread_idx :: "nat \<Rightarrow> kernel \<Rightarrow> nat" where
  "current_thread_idx core s = (if core \<ge> SMP_MAX_CPUS then 0 else per_core_current_thread s core)"

definition set_current_thread_idx :: "nat \<Rightarrow> nat \<Rightarrow> kernel \<Rightarrow> kernel" where
  "set_current_thread_idx core i s =
     (if core < SMP_MAX_CPUS then s\<lparr>per_core_current_thread := (per_core_current_thread s)(core := i)\<rparr> else s)"

section \<open>Kernel stacks\<close>

text \<open>Pages of one stack mapped one by one, \<^const>\<open>False\<close> at the first page that fails.\<close>

fun map_stack_pages :: "u64 \<Rightarrow> nat list \<Rightarrow> vmm \<Rightarrow> bool \<times> vmm" where
  "map_stack_pages base [] v = (True, v)"
| "map_stack_pages base (i # is) v =
     (let (physical, p) = xscore_pmm_allocate_page (vm_pmm v); v = v\<lparr>vm_pmm := p\<rparr> in
      if physical = 0 then (False, v)
      else
        let (ok, v) = xscore_vmm_map_page_in (root_table_address v) (base + of_nat i * PAGE_SIZE) physical
              (XSCORE_PAGE_WRITABLE OR XSCORE_PAGE_NO_EXECUTE) v
        in if \<not> ok then (False, v\<lparr>vm_pmm := snd (xscore_pmm_free_page physical (vm_pmm v))\<rparr>)
           else map_stack_pages base is v)"

definition unmap_stack_page :: "u64 \<Rightarrow> nat \<Rightarrow> vmm \<Rightarrow> vmm" where
  "unmap_stack_page base i v =
     (case xscore_vmm_unmap_page_in (root_table_address v) (base + of_nat i * PAGE_SIZE) v of
        (Some physical, v) \<Rightarrow> if physical \<noteq> 0 then v\<lparr>vm_pmm := snd (xscore_pmm_free_page physical (vm_pmm v))\<rparr> else v
      | (None, v) \<Rightarrow> v)"

text \<open>The two loops that \<^verbatim>\<open>release_thread_stack\<close> and the failure path of the allocation share.\<close>

definition unmap_stacks :: "u64 \<Rightarrow> u64 \<Rightarrow> vmm \<Rightarrow> vmm" where
  "unmap_stacks base privilege_base v =
     (let v = fold (unmap_stack_page base) [0 ..< XSCORE_THREAD_STACK_PAGES] v in
      if privilege_base \<noteq> 0 then fold (unmap_stack_page privilege_base) [0 ..< XSCORE_THREAD_PRIVILEGE_STACK_PAGES] v
      else v)"

definition no_stack :: "thread \<Rightarrow> thread" where
  "no_stack t = t\<lparr>stack_base := 0, stack_top := 0, privilege_stack_base := 0, privilege_stack_top := 0\<rparr>"

definition allocate_thread_stack :: "nat \<Rightarrow> kernel \<Rightarrow> kernel" where
  "allocate_thread_stack index s =
     (let slot_span = of_nat (XSCORE_THREAD_STACK_PAGES + 1 + XSCORE_THREAD_PRIVILEGE_STACK_PAGES + 1) * PAGE_SIZE;
          slot_base = THREAD_STACK_REGION_BASE + of_nat index * slot_span;
          base = slot_base + PAGE_SIZE;
          (ok, v) = map_stack_pages base [0 ..< XSCORE_THREAD_STACK_PAGES] (vm s)
      in if \<not> ok then set_thread index no_stack (s\<lparr>vm := unmap_stacks base 0 v\<rparr>)
         else
           let privilege_base = slot_base + of_nat (XSCORE_THREAD_STACK_PAGES + 1) * PAGE_SIZE + PAGE_SIZE;
               (ok, v) = map_stack_pages privilege_base [0 ..< XSCORE_THREAD_PRIVILEGE_STACK_PAGES] v
           in if \<not> ok then set_thread index no_stack (s\<lparr>vm := unmap_stacks base privilege_base v\<rparr>)
              else
                set_thread index (\<lambda>t. t\<lparr>stack_base := base,
                    stack_top := base + of_nat XSCORE_THREAD_STACK_PAGES * PAGE_SIZE,
                    privilege_stack_base := privilege_base,
                    privilege_stack_top := privilege_base + of_nat XSCORE_THREAD_PRIVILEGE_STACK_PAGES * PAGE_SIZE\<rparr>)
                  (s\<lparr>vm := v\<rparr>))"

definition release_thread_stack :: "nat \<Rightarrow> kernel \<Rightarrow> kernel" where
  "release_thread_stack i s =
     (let t = threads s i in
      if stack_base t = 0 then s
      else set_thread i no_stack (s\<lparr>vm := unmap_stacks (stack_base t) (privilege_stack_base t) (vm s)\<rparr>))"

section \<open>Ready masks and the choice of the next thread\<close>

definition current_cpu :: "nat \<Rightarrow> nat" where
  "current_cpu core = (if core < SMP_MAX_CPUS then core else 0)"

definition ready_mask_add_locked :: "nat \<Rightarrow> kernel \<Rightarrow> kernel" where
  "ready_mask_add_locked i s =
     (if i \<ge> XSCORE_MAX_THREADS then s
      else
        let cpu = owner_cpu (threads s i) in
        if cpu < SMP_MAX_CPUS
        then s\<lparr>per_cpu_ready_mask := (per_cpu_ready_mask s)(cpu := per_cpu_ready_mask s cpu OR push_bit i 1)\<rparr> else s)"

definition ready_mask_remove_locked :: "nat \<Rightarrow> kernel \<Rightarrow> kernel" where
  "ready_mask_remove_locked i s =
     (if i \<ge> XSCORE_MAX_THREADS then s
      else
        let cpu = owner_cpu (threads s i) in
        if cpu < SMP_MAX_CPUS
        then s\<lparr>per_cpu_ready_mask := (per_cpu_ready_mask s)(cpu := per_cpu_ready_mask s cpu AND NOT (push_bit i 1))\<rparr> else s)"

definition xscore_thread_request_reschedule :: "nat \<Rightarrow> kernel \<Rightarrow> kernel" where
  "xscore_thread_request_reschedule core s =
     s\<lparr>preemption_pending := (preemption_pending s)(current_cpu core := True)\<rparr>"

definition find_next_runnable :: "nat \<Rightarrow> kernel \<Rightarrow> nat" where
  "find_next_runnable core s =
     (let cpu = current_cpu core; current = current_thread_idx core s in
      case find_from (\<lambda>offset. let i = (current + offset) mod XSCORE_MAX_THREADS in
             per_cpu_ready_mask s cpu AND push_bit i 1 \<noteq> 0 \<and> state (threads s i) = READY \<and> owner_cpu (threads s i) = cpu)
           1 XSCORE_MAX_THREADS of
        Some offset \<Rightarrow> (current + offset) mod XSCORE_MAX_THREADS
      | None \<Rightarrow> current)"

definition activate_root :: "nat \<Rightarrow> u64 \<Rightarrow> kernel \<Rightarrow> bool \<times> kernel" where
  "activate_root core root s =
     (let (ok, v) = xscore_vmm_activate root ((vm s)\<lparr>cr3 := core_cr3 s core\<rparr>)
      in (ok, s\<lparr>vm := v, core_cr3 := (core_cr3 s)(core := cr3 v)\<rparr>))"

text \<open>The part of \<^verbatim>\<open>switch_to\<close> under the thread lock, and the rest of it.\<close>

definition switch_locked :: "nat \<Rightarrow> nat \<Rightarrow> kernel \<Rightarrow> kernel" where
  "switch_locked core next_index s =
     (let old_index = current_thread_idx core s;
          s = (if state (threads s old_index) = RUNNING
               then ready_mask_add_locked old_index (set_thread old_index (\<lambda>t. t\<lparr>state := READY\<rparr>) s) else s);
          s = ready_mask_remove_locked next_index s;
          s = set_thread next_index (\<lambda>t. t\<lparr>state := RUNNING\<rparr>) s;
          s = set_current_thread_idx core next_index s
      in s\<lparr>current_slice_ticks := (current_slice_ticks s)(current_cpu core := 0),
           preemption_pending := (preemption_pending s)(current_cpu core := False)\<rparr>)"

definition switch_to :: "nat \<Rightarrow> nat \<Rightarrow> kernel \<Rightarrow> kernel option" where
  "switch_to core next_index s =
     (if next_index = current_thread_idx core s then Some s
      else
        let s = switch_locked core next_index s;
            (ok, s) = activate_root core (address_space_root (threads s next_index)) s
        in if \<not> ok then None else Some (xscore_sched_record_switch s))"

section \<open>Waking, exiting, reaping\<close>

definition wakeable :: "u64 \<Rightarrow> thread \<Rightarrow> bool" where
  "wakeable thread_id t \<longleftrightarrow> tid t = thread_id \<and> (state t = BLOCKED \<or> state t = READY \<or> state t = RUNNING)"

definition xscore_thread_wake :: "nat \<Rightarrow> u64 \<Rightarrow> kernel \<Rightarrow> bool \<times> kernel" where
  "xscore_thread_wake core thread_id s =
     (if \<not> threads_initialized s \<or> thread_id = 0 then (False, s)
      else
        case find_from (\<lambda>i. wakeable thread_id (threads s i)) 0 XSCORE_MAX_THREADS of
          None \<Rightarrow> (False, s)
        | Some i \<Rightarrow>
            let s = (if state (threads s i) = BLOCKED
                     then ready_mask_add_locked i (set_thread i (\<lambda>t. t\<lparr>state := READY\<rparr>) s)
                     else set_thread i (\<lambda>t. t\<lparr>wake_pending := True\<rparr>) s);
                target_cpu = owner_cpu (threads s i)
            in (True, if target_cpu \<noteq> current_cpu core
                      then s\<lparr>reschedule_requests := reschedule_requests s @ [target_cpu]\<rparr> else s))"

definition xscore_thread_state :: "u64 \<Rightarrow> kernel \<Rightarrow> thread_state" where
  "xscore_thread_state thread_id s =
     (if \<not> threads_initialized s \<or> thread_id = 0 then UNUSED
      else case find_from (\<lambda>i. tid (threads s i) = thread_id) 0 XSCORE_MAX_THREADS of
             Some i \<Rightarrow> state (threads s i) | None \<Rightarrow> UNUSED)"

text \<open>Reaping reserves the block under the lock, frees the stacks, and clears the block under the lock.\<close>

definition reap_reserve :: "nat \<Rightarrow> u64 \<Rightarrow> kernel \<Rightarrow> nat option" where
  "reap_reserve core thread_id s =
     find_from (\<lambda>i. tid (threads s i) = thread_id \<and> state (threads s i) = EXITED \<and> i \<noteq> current_thread_idx core s)
       1 XSCORE_MAX_THREADS"

definition reap_clear :: "nat \<Rightarrow> kernel \<Rightarrow> kernel" where
  "reap_clear i s =
     set_thread i (\<lambda>t. t\<lparr>tid := 0, owner_cpu := 0, address_space_root := 0, file_descriptors := 0, entry := 0, argument := 0,
         process := 0, user_entry := 0, user_stack := 0, user_arg0 := 0, user_return_value := 0, join_waiter_id := 0,
         wake_pending := False, exit_requested := False, user_mode_thread := False, detached := False, state := UNUSED\<rparr>)
       (ready_mask_remove_locked i s)"

definition xscore_thread_reap :: "nat \<Rightarrow> u64 \<Rightarrow> kernel \<Rightarrow> bool \<times> kernel" where
  "xscore_thread_reap core thread_id s =
     (if \<not> threads_initialized s \<or> thread_id = 0 then (False, s)
      else
        case reap_reserve core thread_id s of
          None \<Rightarrow> (False, s)
        | Some i \<Rightarrow>
            let s = set_thread i (\<lambda>t. t\<lparr>state := REAPING\<rparr>) s;
                s = release_thread_stack i s
            in if tid (threads s i) \<noteq> thread_id \<or> state (threads s i) \<noteq> REAPING then (False, s)
               else (True, reap_clear i s))"

definition exited_threads :: "kernel \<Rightarrow> nat set" where
  "exited_threads s = {i. i < XSCORE_MAX_THREADS \<and> state (threads s i) = EXITED}"

lemma set_thread_at [simp]: "threads (set_thread i f s) k = (if k = i then f (threads s i) else threads s k)"
  by (simp add: set_thread_def)

lemma ready_mask_threads [simp]:
  "threads (ready_mask_add_locked i s) = threads s" "threads (ready_mask_remove_locked i s) = threads s"
  by (simp_all add: ready_mask_add_locked_def ready_mask_remove_locked_def Let_def)

lemma release_thread_stack_at:
  "threads (release_thread_stack i s) k = (if k = i then (if stack_base (threads s i) = 0 then threads s i else no_stack (threads s i)) else threads s k)"
  by (simp add: release_thread_stack_def Let_def set_thread_def)

lemma reap_shrinks:
  assumes "xscore_thread_reap core thread_id s = (True, s')"
  shows "card (exited_threads s') < card (exited_threads s)"
proof -
  obtain i where i: "i < XSCORE_MAX_THREADS" "state (threads s i) = EXITED"
    and t: "\<And>k. k \<noteq> i \<Longrightarrow> threads s' k = threads s k" "state (threads s' i) = UNUSED"
    using assms by (auto simp: xscore_thread_reap_def reap_reserve_def find_from_Some Let_def reap_clear_def release_thread_stack_at
        no_stack_def split: if_splits option.splits)
  have "k \<in> exited_threads s' \<longleftrightarrow> k \<in> exited_threads s - {i}" for k using i t by (cases "k = i") (auto simp: exited_threads_def)
  then have "exited_threads s' = exited_threads s - {i}" by blast
  moreover have "finite (exited_threads s)" "i \<in> exited_threads s" using i by (auto simp: exited_threads_def)
  ultimately show ?thesis by (metis card_Diff1_less)
qed

function reap_detached_threads :: "nat \<Rightarrow> kernel \<Rightarrow> kernel" where
  "reap_detached_threads core s =
     (if \<not> threads_initialized s then s
      else
        case find_from (\<lambda>i. state (threads s i) = EXITED \<and> detached (threads s i) \<and> i \<noteq> current_thread_idx core s) 1 XSCORE_MAX_THREADS of
          None \<Rightarrow> s
        | Some i \<Rightarrow>
            if tid (threads s i) = 0 then s
            else if fst (xscore_thread_reap core (tid (threads s i)) s)
                 then reap_detached_threads core (snd (xscore_thread_reap core (tid (threads s i)) s))
                 else snd (xscore_thread_reap core (tid (threads s i)) s))"
  by pat_completeness auto
termination
  by (relation "measure (\<lambda>(core, s). card (exited_threads s))") (auto intro: reap_shrinks simp: prod_eq_iff)

declare reap_detached_threads.simps [simp del]

text \<open>One round of the loop at the end of an exit: switch away, or halt until an interrupt.\<close>

definition exit_poll :: "nat \<Rightarrow> kernel \<Rightarrow> kernel option" where
  "exit_poll core s =
     (let next = find_next_runnable core s in if next \<noteq> current_thread_idx core s then switch_to core next s else Some s)"

definition exit_locked :: "nat \<Rightarrow> kernel \<Rightarrow> kernel" where
  "exit_locked core s =
     set_thread (current_thread_idx core s) (\<lambda>t. t\<lparr>state := EXITED\<rparr>) (ready_mask_remove_locked (current_thread_idx core s) s)"

definition xscore_thread_exit :: "nat \<Rightarrow> kernel \<Rightarrow> kernel option" where
  "xscore_thread_exit core s =
     (if \<not> threads_initialized s then None
      else
        let waiter_thread_id = join_waiter_id (threads s (current_thread_idx core s));
            s = exit_locked core s;
            s = (if waiter_thread_id \<noteq> 0 then snd (xscore_thread_wake core waiter_thread_id s) else s)
        in exit_poll core s)"

definition exit_requested_now :: "nat \<Rightarrow> kernel \<Rightarrow> bool" where
  "exit_requested_now core s \<longleftrightarrow> threads_initialized s \<and>
     (let t = threads s (current_thread_idx core s) in state t = RUNNING \<and> user_mode_thread t \<and> exit_requested t)"

definition xscore_thread_yield :: "nat \<Rightarrow> kernel \<Rightarrow> kernel option" where
  "xscore_thread_yield core s =
     (if \<not> threads_initialized s then Some s
      else if exit_requested_now core s then xscore_thread_exit core s
      else let s = reap_detached_threads core s in switch_to core (find_next_runnable core s) s)"

text \<open>
  Blocking: the transition under the lock, which a pending wake cancels (the result is that the caller sleeps), and one round of
  the loop that follows. A round switches away, returns because the thread was woken, or waits for the next interrupt.
\<close>

definition block_locked :: "nat \<Rightarrow> kernel \<Rightarrow> bool \<times> kernel" where
  "block_locked core s =
     (let i = current_thread_idx core s in
      if state (threads s i) \<noteq> RUNNING then (False, s)
      else if wake_pending (threads s i) then (False, set_thread i (\<lambda>t. t\<lparr>wake_pending := False\<rparr>) s)
      else (True, set_thread i (\<lambda>t. t\<lparr>state := BLOCKED\<rparr>) (ready_mask_remove_locked i s)))"

datatype block_result = Returned bool | Switched | Waiting

definition block_poll :: "nat \<Rightarrow> kernel \<Rightarrow> (block_result \<times> kernel) option" where
  "block_poll core s =
     (let i = current_thread_idx core s; next = find_next_runnable core s in
      if next \<noteq> i then map_option (Pair Switched) (switch_to core next s)
      else if state (threads s i) = READY
      then Some (Returned True, set_thread i (\<lambda>t. t\<lparr>state := RUNNING\<rparr>) (ready_mask_remove_locked i s))
      else if state (threads s i) = RUNNING then Some (Returned True, s)
      else if state (threads s i) \<noteq> BLOCKED then Some (Returned False, s)
      else Some (Waiting, s))"

definition xscore_thread_block :: "nat \<Rightarrow> kernel \<Rightarrow> (block_result \<times> kernel) option" where
  "xscore_thread_block core s =
     (if \<not> threads_initialized s then Some (Returned False, s)
      else
        let s = reap_detached_threads core s;
            (sleep, s) = block_locked core s
        in if sleep then block_poll core s else Some (Returned False, s))"

definition xscore_thread_schedule :: "nat \<Rightarrow> kernel \<Rightarrow> kernel" where
  "xscore_thread_schedule core s =
     (if \<not> threads_initialized s \<or> xscore_thread_state (tid (threads s (current_thread_idx core s))) s \<noteq> RUNNING then s
      else
        let cpu = current_cpu core;
            s = s\<lparr>current_slice_ticks := (current_slice_ticks s)(cpu := current_slice_ticks s cpu + 1)\<rparr>
        in if current_slice_ticks s cpu \<ge> TIME_SLICE_TICKS \<and> find_next_runnable core s \<noteq> current_thread_idx core s
           then s\<lparr>preemption_pending := (preemption_pending s)(cpu := True)\<rparr> else s)"

definition xscore_thread_preemption_checkpoint :: "nat \<Rightarrow> kernel \<Rightarrow> (bool \<times> kernel) option" where
  "xscore_thread_preemption_checkpoint core s =
     (let cpu = current_cpu core in
      if \<not> threads_initialized s \<or> \<not> preemption_pending s cpu \<or>
         xscore_thread_state (tid (threads s (current_thread_idx core s))) s \<noteq> RUNNING then Some (False, s)
      else
        let s = xscore_sched_record_preemption (s\<lparr>preemption_pending := (preemption_pending s)(cpu := False)\<rparr>);
            next = find_next_runnable core s
        in if next = current_thread_idx core s then Some (False, s) else map_option (Pair True) (switch_to core next s))"

section \<open>Starting threads\<close>

definition blank_thread :: thread where
  "blank_thread = \<lparr>tid = 0, owner_cpu = 0, state = UNUSED, stack_top = 0, stack_base = 0, privilege_stack_top = 0,
     privilege_stack_base = 0, address_space_root = 0, file_descriptors = 0, entry = 0, argument = 0, process = 0,
     user_entry = 0, user_stack = 0, user_arg0 = 0, user_return_value = 0, join_waiter_id = 0, user_mode_thread = False,
     detached = False, wake_pending = False, exit_requested = False\<rparr>"

definition xscore_thread_initialize :: "nat \<Rightarrow> u64 \<Rightarrow> kernel \<Rightarrow> kernel" where
  "xscore_thread_initialize core syscall_top s =
     (let s = fold (\<lambda>i. set_thread i (\<lambda>t. t\<lparr>tid := 0, owner_cpu := 0, state := UNUSED\<rparr>)) [0 ..< XSCORE_MAX_THREADS] s;
          s = set_thread 0 (\<lambda>_. blank_thread\<lparr>tid := next_thread_id s, state := RUNNING, privilege_stack_top := syscall_top,
                address_space_root := root_table_address (vm s)\<rparr>) s;
          s = s\<lparr>next_thread_id := next_thread_id s + 1\<rparr>;
          s = fold (\<lambda>c s. s\<lparr>per_core_current_thread := (per_core_current_thread s)(c := 0),
                current_slice_ticks := (current_slice_ticks s)(c := 0), preemption_pending := (preemption_pending s)(c := False),
                per_cpu_ready_mask := (per_cpu_ready_mask s)(c := 0)\<rparr>) [0 ..< SMP_MAX_CPUS] s
      in (set_current_thread_idx core 0 s)\<lparr>threads_initialized := True\<rparr>)"

definition create_reserve :: "nat \<Rightarrow> kernel \<Rightarrow> (nat \<times> kernel) option" where
  "create_reserve cpu_index s =
     map_option (\<lambda>i. (i, set_thread i (\<lambda>t. t\<lparr>state := ALLOCATING, owner_cpu := cpu_index\<rparr>) s))
       (find_from (\<lambda>i. state (threads s i) = UNUSED) 0 XSCORE_MAX_THREADS)"

definition create_abandon :: "nat \<Rightarrow> kernel \<Rightarrow> kernel" where
  "create_abandon i s = set_thread i (\<lambda>t. t\<lparr>owner_cpu := 0, state := UNUSED\<rparr>) s"

definition create_publish :: "nat \<Rightarrow> u64 \<Rightarrow> u64 \<Rightarrow> u64 \<Rightarrow> kernel \<Rightarrow> kernel" where
  "create_publish i ent arg root s =
     ready_mask_add_locked i
       (set_thread i (\<lambda>t. t\<lparr>tid := next_thread_id s, address_space_root := root, file_descriptors := 0, entry := ent,
            argument := arg, process := 0, user_entry := 0, user_stack := 0, user_arg0 := 0, user_return_value := 0,
            join_waiter_id := 0, wake_pending := False, exit_requested := False, user_mode_thread := False, detached := False,
            state := READY\<rparr>)
         (s\<lparr>next_thread_id := next_thread_id s + 1\<rparr>))"

definition xscore_thread_create_on_cpu :: "nat \<Rightarrow> u64 \<Rightarrow> u64 \<Rightarrow> u64 \<Rightarrow> nat \<Rightarrow> kernel \<Rightarrow> u64 \<times> kernel" where
  "xscore_thread_create_on_cpu cpu_count ent arg root cpu_index s =
     (if \<not> threads_initialized s \<or> root = 0 \<or> cpu_index \<ge> SMP_MAX_CPUS \<or> cpu_index \<ge> cpu_count then (0, s)
      else
        case create_reserve cpu_index s of
          None \<Rightarrow> (0, s)
        | Some (i, s) \<Rightarrow>
            let s = allocate_thread_stack i s in
            if stack_top (threads s i) = 0 then (0, create_abandon i s)
            else
              let s = s\<lparr>vm := xscore_vmm_address_space_sync_kernel root (vm s)\<rparr>;
                  s = create_publish i ent arg root s
              in (tid (threads s i), s))"

definition xscore_thread_create_in_address_space :: "nat \<Rightarrow> nat \<Rightarrow> u64 \<Rightarrow> u64 \<Rightarrow> u64 \<Rightarrow> kernel \<Rightarrow> u64 \<times> kernel" where
  "xscore_thread_create_in_address_space cpu_count core ent arg root s =
     xscore_thread_create_on_cpu cpu_count ent arg root (current_cpu core) s"

definition xscore_thread_create :: "nat \<Rightarrow> nat \<Rightarrow> u64 \<Rightarrow> u64 \<Rightarrow> kernel \<Rightarrow> u64 \<times> kernel" where
  "xscore_thread_create cpu_count core ent arg s =
     xscore_thread_create_in_address_space cpu_count core ent arg (root_table_address (vm s)) s"

definition xscore_thread_register_cpu :: "nat \<Rightarrow> u64 \<Rightarrow> kernel \<Rightarrow> bool \<times> kernel" where
  "xscore_thread_register_cpu cpu_index stack s =
     (if \<not> threads_initialized s \<or> cpu_index = 0 \<or> cpu_index \<ge> SMP_MAX_CPUS \<or> stack = 0 then (False, s)
      else
        case find_from (\<lambda>i. state (threads s i) = UNUSED) 0 XSCORE_MAX_THREADS of
          None \<Rightarrow> (False, s)
        | Some i \<Rightarrow>
            let s = set_thread i (\<lambda>_. blank_thread\<lparr>tid := next_thread_id s, owner_cpu := cpu_index, state := RUNNING,
                      privilege_stack_top := stack, address_space_root := root_table_address (vm s)\<rparr>)
                      (s\<lparr>next_thread_id := next_thread_id s + 1\<rparr>);
                s = ready_mask_remove_locked i s
            in (True, s\<lparr>per_core_current_thread := (per_core_current_thread s)(cpu_index := i)\<rparr>))"

definition xscore_thread_create_user :: "nat \<Rightarrow> nat \<Rightarrow> (u64 \<Rightarrow> u64) \<Rightarrow> u64 \<Rightarrow> u64 \<Rightarrow> u64 \<Rightarrow> u64 \<Rightarrow> kernel \<Rightarrow> u64 \<times> kernel" where
  "xscore_thread_create_user cpu_count core fd_table proc uentry ustack uarg s =
     (if proc = 0 \<or> uentry = 0 \<or> ustack = 0 then (0, s)
      else
        let (thread_id, s) = xscore_thread_create_in_address_space cpu_count core 0 0
              (core_cr3 s core AND PAGE_ADDRESS_MASK) s
        in if thread_id = 0 then (0, s)
           else
             case find_from (\<lambda>i. tid (threads s i) = thread_id) 0 XSCORE_MAX_THREADS of
               None \<Rightarrow> (0, s)
             | Some i \<Rightarrow>
                 (thread_id, set_thread i (\<lambda>t. t\<lparr>process := proc, user_entry := uentry, user_stack := ustack, user_arg0 := uarg,
                    user_mode_thread := True, file_descriptors := fd_table proc\<rparr>) s))"

section \<open>Process teardown, joining\<close>

definition request_exit_of :: "nat \<Rightarrow> kernel \<Rightarrow> kernel" where
  "request_exit_of i s =
     (let s = set_thread i (\<lambda>t. t\<lparr>exit_requested := True\<rparr>) s in
      if state (threads s i) = BLOCKED
      then ready_mask_add_locked i (set_thread i (\<lambda>t. t\<lparr>state := READY, wake_pending := False\<rparr>) s) else s)"

definition xscore_thread_request_process_exit :: "u64 \<Rightarrow> kernel \<Rightarrow> kernel" where
  "xscore_thread_request_process_exit proc s =
     (if \<not> threads_initialized s \<or> proc = 0 then s
      else fold (\<lambda>i s. if tid (threads s i) \<noteq> 0 \<and> process (threads s i) = proc \<and> user_mode_thread (threads s i)
                       then request_exit_of i s else s) [1 ..< XSCORE_MAX_THREADS] s)"

text \<open>The reaper of a process: the first sibling decides what a round does.\<close>

definition sibling :: "u64 \<Rightarrow> u64 \<Rightarrow> thread \<Rightarrow> bool" where
  "sibling proc leader t \<longleftrightarrow>
     \<not> (tid t = 0 \<or> tid t = leader \<or> process t \<noteq> proc \<or> \<not> user_mode_thread t \<or> state t = UNUSED)"

definition reschedule_for :: "nat \<Rightarrow> nat \<Rightarrow> kernel \<Rightarrow> kernel" where
  "reschedule_for core target_cpu s =
     (if target_cpu \<noteq> current_cpu core then s\<lparr>reschedule_requests := reschedule_requests s @ [target_cpu]\<rparr>
      else xscore_thread_request_reschedule core s)"

function xscore_thread_reap_process_siblings :: "nat \<Rightarrow> u64 \<Rightarrow> u64 \<Rightarrow> kernel \<Rightarrow> bool \<times> kernel" where
  "xscore_thread_reap_process_siblings core proc leader s =
     (if \<not> threads_initialized s \<or> proc = 0 then (True, s)
      else
        case find_from (\<lambda>i. sibling proc leader (threads s i)) 1 XSCORE_MAX_THREADS of
          None \<Rightarrow> (True, s)
        | Some i \<Rightarrow>
            if state (threads s i) = EXITED then
              if fst (xscore_thread_reap core (tid (threads s i)) s)
              then xscore_thread_reap_process_siblings core proc leader (snd (xscore_thread_reap core (tid (threads s i)) s))
              else (False, snd (xscore_thread_reap core (tid (threads s i)) s))
            else
              let s' = (if state (threads s i) = REAPING then s else request_exit_of i s)
              in (False, reschedule_for core (owner_cpu (threads s i)) s'))"
  by pat_completeness auto
termination
  by (relation "measure (\<lambda>(core, proc, leader, s). card (exited_threads s))") (auto intro: reap_shrinks simp: prod_eq_iff)

declare xscore_thread_reap_process_siblings.simps [simp del]

definition live_index :: "u64 \<Rightarrow> kernel \<Rightarrow> nat option" where
  "live_index thread_id s =
     find_from (\<lambda>i. tid (threads s i) = thread_id \<and> state (threads s i) \<noteq> UNUSED) 0 XSCORE_MAX_THREADS"

definition xscore_thread_bind_process :: "u64 \<Rightarrow> u64 \<Rightarrow> kernel \<Rightarrow> bool \<times> kernel" where
  "xscore_thread_bind_process thread_id proc s =
     (if \<not> threads_initialized s \<or> thread_id = 0 \<or> proc = 0 then (False, s)
      else case live_index thread_id s of None \<Rightarrow> (False, s)
           | Some i \<Rightarrow> (True, set_thread i (\<lambda>t. t\<lparr>process := proc\<rparr>) s))"

definition xscore_thread_bind_fd_table :: "u64 \<Rightarrow> u64 \<Rightarrow> kernel \<Rightarrow> bool \<times> kernel" where
  "xscore_thread_bind_fd_table thread_id table s =
     (if \<not> threads_initialized s \<or> thread_id = 0 \<or> table = 0 then (False, s)
      else case live_index thread_id s of None \<Rightarrow> (False, s)
           | Some i \<Rightarrow> (True, set_thread i (\<lambda>t. t\<lparr>file_descriptors := table\<rparr>) s))"

definition xscore_thread_owner_cpu :: "u64 \<Rightarrow> kernel \<Rightarrow> nat option" where
  "xscore_thread_owner_cpu thread_id s =
     (if \<not> threads_initialized s \<or> thread_id = 0 then None
      else map_option (\<lambda>i. owner_cpu (threads s i)) (live_index thread_id s))"

definition xscore_thread_privilege_stack_top :: "u64 \<Rightarrow> kernel \<Rightarrow> u64" where
  "xscore_thread_privilege_stack_top thread_id s =
     (if \<not> threads_initialized s \<or> thread_id = 0 then 0
      else case live_index thread_id s of None \<Rightarrow> 0 | Some i \<Rightarrow> privilege_stack_top (threads s i))"

definition xscore_thread_current_id :: "nat \<Rightarrow> kernel \<Rightarrow> u64" where
  "xscore_thread_current_id core s = (if \<not> threads_initialized s then 0 else tid (threads s (current_thread_idx core s)))"

definition xscore_thread_current_process :: "nat \<Rightarrow> kernel \<Rightarrow> u64" where
  "xscore_thread_current_process core s = (if \<not> threads_initialized s then 0 else process (threads s (current_thread_idx core s)))"

definition xscore_thread_record_user_return :: "nat \<Rightarrow> u64 \<Rightarrow> kernel \<Rightarrow> kernel" where
  "xscore_thread_record_user_return core v s =
     (if \<not> threads_initialized s then s
      else set_thread (current_thread_idx core s) (\<lambda>t. t\<lparr>user_return_value := v\<rparr>) s)"

definition xscore_thread_replace_current_address_space :: "nat \<Rightarrow> u64 \<Rightarrow> kernel \<Rightarrow> bool \<times> kernel" where
  "xscore_thread_replace_current_address_space core root s =
     (if \<not> threads_initialized s \<or> root = 0 \<or> state (threads s (current_thread_idx core s)) \<noteq> RUNNING then (False, s)
      else
        let s = s\<lparr>vm := xscore_vmm_address_space_sync_kernel root (vm s)\<rparr>;
            (ok, s) = activate_root core root s
        in if \<not> ok then (False, s)
           else (True, set_thread (current_thread_idx core s) (\<lambda>t. t\<lparr>address_space_root := root\<rparr>) s))"

text \<open>One round of a join: the error, the value of the thread that has exited, or the caller registered to sleep.\<close>

datatype join_result = Join_Error errno | Join_Value u64 | Join_Sleep

definition join_locked :: "nat \<Rightarrow> u64 \<Rightarrow> kernel \<Rightarrow> join_result \<times> kernel" where
  "join_locked core thread_id s =
     (case find_from (\<lambda>i. tid (threads s i) = thread_id) 0 XSCORE_MAX_THREADS of
        None \<Rightarrow> (Join_Error ESRCH, s)
      | Some i \<Rightarrow>
          let t = threads s i; self = xscore_thread_current_id core s in
          if state t = UNUSED \<or> \<not> user_mode_thread t then (Join_Error ESRCH, s)
          else if detached t \<or> (join_waiter_id t \<noteq> 0 \<and> join_waiter_id t \<noteq> self) then (Join_Error EINVAL, s)
          else if state t = EXITED
          then (Join_Value (user_return_value t), set_thread i (\<lambda>t. t\<lparr>join_waiter_id := 0\<rparr>) s)
          else (Join_Sleep, set_thread i (\<lambda>t. t\<lparr>join_waiter_id := self\<rparr>) s))"

text \<open>
  A join up to the point where it returns or sleeps: the result of a round that returns, \<^const>\<open>None\<close> in the first
  component when the processor now runs another thread or waits.
\<close>

definition xscore_thread_join :: "nat \<Rightarrow> u64 \<Rightarrow> kernel \<Rightarrow> ((errno + u64) option \<times> kernel) option" where
  "xscore_thread_join core thread_id s =
     (if \<not> threads_initialized s \<or> thread_id = 0 \<or> thread_id = xscore_thread_current_id core s then Some (Some (Inl EINVAL), s)
      else
        case join_locked core thread_id s of
          (Join_Error e, s) \<Rightarrow> Some (Some (Inl e), s)
        | (Join_Value v, s) \<Rightarrow>
            let (ok, s) = xscore_thread_reap core thread_id s in Some (Some (if ok then Inr v else Inl EAGAIN), s)
        | (Join_Sleep, s) \<Rightarrow>
            map_option (\<lambda>(r, s). (if r = Returned False then Some (Inl EAGAIN) else None, s)) (xscore_thread_block core s))"

definition xscore_thread_detach :: "nat \<Rightarrow> u64 \<Rightarrow> kernel \<Rightarrow> (errno + unit) \<times> kernel" where
  "xscore_thread_detach core thread_id s =
     (if \<not> threads_initialized s \<or> thread_id = 0 \<or> thread_id = xscore_thread_current_id core s then (Inl EINVAL, s)
      else
        case find_from (\<lambda>i. tid (threads s i) = thread_id \<and> user_mode_thread (threads s i)) 0 XSCORE_MAX_THREADS of
          None \<Rightarrow> (Inl ESRCH, s)
        | Some i \<Rightarrow>
            if join_waiter_id (threads s i) \<noteq> 0 then (Inl EBUSY, s)
            else
              let s = set_thread i (\<lambda>t. t\<lparr>detached := True\<rparr>) s
              in (Inr (), if state (threads s i) = EXITED then snd (xscore_thread_reap core thread_id s) else s))"

end
