(* ===== verification/Scheduler.thy ===== *)
theory Scheduler
  imports Threads
begin

text \<open>
  The scheduler invariant over every interleaving of the processors, the bound of the round robin, and a race between the exit of a
  thread and its reaping. The steps are the critical sections of \<^verbatim>\<open>xscore/kernel/thread.c\<close> as \<^verbatim>\<open>Threads\<close> defines them.
\<close>

section \<open>The invariant of the thread table\<close>

text \<open>A processor takes part in scheduling when it is the first one or has registered its idle thread.\<close>

definition on_line :: "kernel \<Rightarrow> nat \<Rightarrow> bool" where
  "on_line s c \<longleftrightarrow> c < SMP_MAX_CPUS \<and> (c = 0 \<or> per_core_current_thread s c \<noteq> 0)"

definition live :: "thread_state \<Rightarrow> bool" where
  "live st \<longleftrightarrow> st = READY \<or> st = RUNNING \<or> st = BLOCKED \<or> st = EXITED"

definition vacant :: "thread_state \<Rightarrow> bool" where
  "vacant st \<longleftrightarrow> st = UNUSED \<or> st = ALLOCATING"

definition masks_ok :: "kernel \<Rightarrow> bool" where
  "masks_ok s \<longleftrightarrow> (\<forall>c < SMP_MAX_CPUS. \<forall>i < XSCORE_MAX_THREADS.
     bit (per_cpu_ready_mask s c) i \<longleftrightarrow> state (threads s i) = READY \<and> owner_cpu (threads s i) = c)"

definition running_ok :: "kernel \<Rightarrow> bool" where
  "running_ok s \<longleftrightarrow> (\<forall>i < XSCORE_MAX_THREADS. owner_cpu (threads s i) < SMP_MAX_CPUS \<and>
     (state (threads s i) = RUNNING \<longrightarrow>
        on_line s (owner_cpu (threads s i)) \<and> per_core_current_thread s (owner_cpu (threads s i)) = i))"

definition current_ok :: "kernel \<Rightarrow> bool" where
  "current_ok s \<longleftrightarrow> live (state (threads s 0)) \<and> owner_cpu (threads s 0) = 0 \<and>
     (\<forall>c. on_line s c \<longrightarrow> (let i = per_core_current_thread s c in
        i < XSCORE_MAX_THREADS \<and> owner_cpu (threads s i) = c \<and> live (state (threads s i))))"

definition ids_ok :: "kernel \<Rightarrow> bool" where
  "ids_ok s \<longleftrightarrow> (\<forall>i < XSCORE_MAX_THREADS.
     (tid (threads s i) = 0 \<longleftrightarrow> vacant (state (threads s i))) \<and>
     tid (threads s i) < next_thread_id s \<and>
     (\<forall>j < XSCORE_MAX_THREADS. tid (threads s i) = tid (threads s j) \<and> tid (threads s i) \<noteq> 0 \<longrightarrow> i = j))"

definition thread_inv :: "kernel \<Rightarrow> bool" where
  "thread_inv s \<longleftrightarrow> masks_ok s \<and> running_ok s \<and> current_ok s \<and> ids_ok s"

lemmas thread_inv_defs = thread_inv_def masks_ok_def running_ok_def current_ok_def ids_ok_def

lemma live_cases [simp]: "live READY" "live RUNNING" "live BLOCKED" "live EXITED" "\<not> live UNUSED" "\<not> live ALLOCATING" "\<not> live REAPING"
  by (simp_all add: live_def)

lemma vacant_cases [simp]: "vacant UNUSED" "vacant ALLOCATING" "\<not> vacant REAPING" "live st \<Longrightarrow> \<not> vacant st"
  by (auto simp: vacant_def live_def)

lemma ids_ok_cong:
  assumes "\<And>i. i < XSCORE_MAX_THREADS \<Longrightarrow> vacant (state (threads t i)) = vacant (state (threads s i))"
    "\<And>i. i < XSCORE_MAX_THREADS \<Longrightarrow> tid (threads t i) = tid (threads s i)" "next_thread_id t = next_thread_id s"
  shows "ids_ok t = ids_ok s"
  by (simp add: ids_ok_def assms)

lemma mask_bits:
  assumes "i < XSCORE_MAX_THREADS" "k < XSCORE_MAX_THREADS"
  shows "bit (m OR push_bit i 1 :: u64) k \<longleftrightarrow> bit m k \<or> k = i" "bit (m AND NOT (push_bit i 1) :: u64) k \<longleftrightarrow> bit m k \<and> k \<noteq> i"
  using assms by (auto simp: bit_simps XSCORE_MAX_THREADS_def)


text \<open>The fields other than the threads and the masks.\<close>

lemma set_thread_fields [simp]:
  "per_core_current_thread (set_thread i f s) = per_core_current_thread s" "next_thread_id (set_thread i f s) = next_thread_id s"
  "threads_initialized (set_thread i f s) = threads_initialized s" "per_cpu_ready_mask (set_thread i f s) = per_cpu_ready_mask s"
  "vm (set_thread i f s) = vm s"
  by (simp_all add: set_thread_def)

lemma ready_mask_fields [simp]:
  "per_core_current_thread (ready_mask_add_locked i s) = per_core_current_thread s"
  "per_core_current_thread (ready_mask_remove_locked i s) = per_core_current_thread s"
  "next_thread_id (ready_mask_add_locked i s) = next_thread_id s" "next_thread_id (ready_mask_remove_locked i s) = next_thread_id s"
  "threads_initialized (ready_mask_add_locked i s) = threads_initialized s"
  "threads_initialized (ready_mask_remove_locked i s) = threads_initialized s"
  by (simp_all add: ready_mask_add_locked_def ready_mask_remove_locked_def Let_def)

lemma on_line_threads [simp]:
  "on_line (set_thread i f s) c = on_line s c" "on_line (ready_mask_add_locked i s) c = on_line s c"
  "on_line (ready_mask_remove_locked i s) c = on_line s c"
  by (simp_all add: on_line_def)

lemma ready_mask_bits:
  assumes "i < XSCORE_MAX_THREADS" "k < XSCORE_MAX_THREADS" "owner_cpu (threads s i) < SMP_MAX_CPUS"
  shows "bit (per_cpu_ready_mask (ready_mask_add_locked i s) c) k \<longleftrightarrow>
      bit (per_cpu_ready_mask s c) k \<or> (k = i \<and> c = owner_cpu (threads s i))"
    and "bit (per_cpu_ready_mask (ready_mask_remove_locked i s) c) k \<longleftrightarrow>
      bit (per_cpu_ready_mask s c) k \<and> \<not> (k = i \<and> c = owner_cpu (threads s i))"
  using assms by (auto simp: ready_mask_add_locked_def ready_mask_remove_locked_def Let_def mask_bits simp del: push_bit_of_1)

text \<open>An update that keeps owner, state and identity.\<close>

lemma thread_inv_cong:
  assumes "thread_inv s"
    and "\<And>i. i < XSCORE_MAX_THREADS \<Longrightarrow> owner_cpu (threads t i) = owner_cpu (threads s i)"
    and "\<And>i. i < XSCORE_MAX_THREADS \<Longrightarrow> state (threads t i) = state (threads s i)"
    and "\<And>i. i < XSCORE_MAX_THREADS \<Longrightarrow> tid (threads t i) = tid (threads s i)"
    and "per_cpu_ready_mask t = per_cpu_ready_mask s" "per_core_current_thread t = per_core_current_thread s"
    and "next_thread_id t = next_thread_id s"
  shows "thread_inv t"
proof -
  have "0 < XSCORE_MAX_THREADS" by (simp add: XSCORE_MAX_THREADS_def)
  then have z: "live (state (threads t 0)) = live (state (threads s 0))" "owner_cpu (threads t 0) = owner_cpu (threads s 0)"
    using assms(2,3) by simp_all
  have l: "on_line t c = on_line s c" for c by (simp add: on_line_def assms(6))
  have "masks_ok t = masks_ok s" by (simp add: masks_ok_def assms(2,3,5))
  moreover have "running_ok t = running_ok s" by (simp add: running_ok_def assms(2,3,6) l)
  moreover have "current_ok t = current_ok s" by (simp add: current_ok_def assms(2,3,6) z l Let_def cong: conj_cong)
  moreover have "ids_ok t = ids_ok s" by (simp add: ids_ok_def assms(3,4,7))
  ultimately show ?thesis using assms(1) by (simp add: thread_inv_def)
qed

lemma thread_inv_set_thread:
  assumes "thread_inv s" "owner_cpu (f (threads s i)) = owner_cpu (threads s i)" "state (f (threads s i)) = state (threads s i)"
    "tid (f (threads s i)) = tid (threads s i)"
  shows "thread_inv (set_thread i f s)"
  by (rule thread_inv_cong [OF assms(1)]) (simp_all add: assms)

text \<open>Changes of the state of one thread, with its ready bit.\<close>

lemma thread_inv_ready:
  assumes inv: "thread_inv s" and i: "i < XSCORE_MAX_THREADS" "live (state (threads s i))"
    and f: "owner_cpu (f (threads s i)) = owner_cpu (threads s i)" "tid (f (threads s i)) = tid (threads s i)" "state (f (threads s i)) = READY"
  shows "thread_inv (ready_mask_add_locked i (set_thread i f s))"
proof -
  have o: "owner_cpu (threads s i) < SMP_MAX_CPUS" using inv i(1) by (auto simp: thread_inv_defs)
  let ?t = "ready_mask_add_locked i (set_thread i f s)"
  have b: "bit (per_cpu_ready_mask ?t c) k \<longleftrightarrow> bit (per_cpu_ready_mask s c) k \<or> (k = i \<and> c = owner_cpu (threads s i))"
    if "k < XSCORE_MAX_THREADS" for c k
    using ready_mask_bits(1) [OF i(1) that, of "set_thread i f s" c] o f(1) by simp
  have "masks_ok ?t" using inv i b f by (auto simp: thread_inv_defs)
  moreover have "running_ok ?t" using inv i f by (auto simp: thread_inv_defs)
  moreover have "current_ok ?t" using inv i f by (auto simp: thread_inv_defs Let_def)
  moreover have "ids_ok ?t = ids_ok s" using i f by (intro ids_ok_cong) auto
  ultimately show ?thesis using inv by (simp add: thread_inv_def)
qed

lemma thread_inv_stop:
  assumes inv: "thread_inv s" and i: "i < XSCORE_MAX_THREADS" "live (state (threads s i))"
    and n: "n = BLOCKED \<or> n = EXITED \<or> n = RUNNING \<and> on_line s (owner_cpu (threads s i)) \<and> per_core_current_thread s (owner_cpu (threads s i)) = i"
  shows "thread_inv (set_thread i (\<lambda>t. t\<lparr>state := n\<rparr>) (ready_mask_remove_locked i s))"
proof -
  have o: "owner_cpu (threads s i) < SMP_MAX_CPUS" using inv i(1) by (auto simp: thread_inv_defs)
  let ?t = "set_thread i (\<lambda>t. t\<lparr>state := n\<rparr>) (ready_mask_remove_locked i s)"
  have b: "bit (per_cpu_ready_mask ?t c) k \<longleftrightarrow> bit (per_cpu_ready_mask s c) k \<and> \<not> (k = i \<and> c = owner_cpu (threads s i))"
    if "k < XSCORE_MAX_THREADS" for c k
    using ready_mask_bits(2) [OF i(1) that o] by simp
  have l: "live n" "n \<noteq> READY" using n by auto
  have "masks_ok ?t" using inv i b l by (auto simp: thread_inv_defs)
  moreover have "running_ok ?t" using inv i n by (auto simp: thread_inv_defs)
  moreover have "current_ok ?t" using inv i l by (auto simp: thread_inv_defs Let_def)
  moreover have "ids_ok ?t = ids_ok s" using i l by (intro ids_ok_cong) auto
  ultimately show ?thesis using inv by (simp add: thread_inv_def)
qed

lemma current_thread_idx_on_line: "on_line s c \<Longrightarrow> current_thread_idx c s = per_core_current_thread s c" "on_line s c \<Longrightarrow> current_cpu c = c"
  by (simp_all add: on_line_def current_thread_idx_def current_cpu_def)

lemma thread_inv_current:
  assumes "thread_inv s" "on_line s c"
  shows "current_thread_idx c s < XSCORE_MAX_THREADS" "owner_cpu (threads s (current_thread_idx c s)) = c"
    "live (state (threads s (current_thread_idx c s)))"
  using assms by (auto simp: thread_inv_def current_ok_def Let_def current_thread_idx_on_line)

lemma find_next_runnable_cases:
  assumes "thread_inv s" "on_line s c"
  shows "find_next_runnable c s = current_thread_idx c s \<or>
    (find_next_runnable c s < XSCORE_MAX_THREADS \<and> find_next_runnable c s \<noteq> current_thread_idx c s \<and>
     state (threads s (find_next_runnable c s)) = READY \<and> owner_cpu (threads s (find_next_runnable c s)) = c)"
proof -
  have n: "(i + k) mod XSCORE_MAX_THREADS \<noteq> i" if "1 \<le> k" "k < XSCORE_MAX_THREADS" "i < XSCORE_MAX_THREADS" for i k :: nat
  proof (cases "i + k < XSCORE_MAX_THREADS")
    case False
    then have "(i + k) mod XSCORE_MAX_THREADS = i + k - XSCORE_MAX_THREADS" using that by (simp add: mod_if)
    then show ?thesis using that False by linarith
  qed (use that in simp)
  show ?thesis
    using n thread_inv_current(1) [OF assms]
    by (auto simp: find_next_runnable_def Let_def find_from_Some current_thread_idx_on_line(2) [OF assms(2)] XSCORE_MAX_THREADS_def
        split: option.split)
qed

lemma switch_locked_inv:
  assumes inv: "thread_inv s" and c: "on_line s c"
    and n: "n < XSCORE_MAX_THREADS" "state (threads s n) = READY" "owner_cpu (threads s n) = c" "n \<noteq> current_thread_idx c s"
  shows "thread_inv (switch_locked c n s)"
proof -
  define old where "old = current_thread_idx c s"
  define s1 where "s1 = (if state (threads s old) = RUNNING
      then ready_mask_add_locked old (set_thread old (\<lambda>t. t\<lparr>state := READY\<rparr>) s) else s)"
  note cur = thread_inv_current [OF inv c, folded old_def]
  have inv1: "thread_inv s1" using thread_inv_ready [OF inv cur(1,3), of "\<lambda>t. t\<lparr>state := READY\<rparr>"] inv by (simp add: s1_def)
  have s1: "per_core_current_thread s1 = per_core_current_thread s" "state (threads s1 old) \<noteq> RUNNING"
    "state (threads s1 n) = READY" "owner_cpu (threads s1 k) = owner_cpu (threads s k)" for k
    using n(2,4) by (auto simp: s1_def old_def)
  have c16: "c < SMP_MAX_CPUS" using c by (simp add: on_line_def)
  have n0: "c = 0 \<or> n \<noteq> 0" using inv n(3) by (auto simp: thread_inv_def current_ok_def)
  define t where "t = set_current_thread_idx c n (set_thread n (\<lambda>t. t\<lparr>state := RUNNING\<rparr>) (ready_mask_remove_locked n s1))"
  have tt: "threads t k = (if k = n then (threads s1 n)\<lparr>state := RUNNING\<rparr> else threads s1 k)"
    "per_core_current_thread t = (per_core_current_thread s)(c := n)" "next_thread_id t = next_thread_id s1" for k
    using c16 by (simp_all add: t_def set_current_thread_idx_def s1(1))
  have b: "bit (per_cpu_ready_mask t d) k \<longleftrightarrow> bit (per_cpu_ready_mask s1 d) k \<and> \<not> (k = n \<and> d = c)" if "k < XSCORE_MAX_THREADS" for d k
    using ready_mask_bits(2) [OF n(1) that, of s1] s1(4) n(3) c16 by (simp add: t_def set_current_thread_idx_def)
  have ol: "on_line t d \<longleftrightarrow> (if d = c then True else on_line s d)" for d
    using n0 c16 by (simp add: on_line_def tt(2))
  have ol1: "on_line s1 d = on_line s d" for d by (simp add: on_line_def s1(1))
  have "masks_ok t" using inv1 b n(3) s1(3,4) by (auto simp: thread_inv_def masks_ok_def tt(1))
  moreover have "running_ok t"
  proof -
    have "owner_cpu (threads s1 i) \<noteq> c" if "i < XSCORE_MAX_THREADS" "state (threads s1 i) = RUNNING" for i
    proof
      assume "owner_cpu (threads s1 i) = c"
      then have "per_core_current_thread s c = i" using inv1 that by (auto simp: thread_inv_def running_ok_def s1(1))
      then show False using s1(2) that(2) by (simp add: old_def current_thread_idx_on_line(1) [OF c])
    qed
    then show ?thesis using inv1 n(3) s1(1,4) c16 by (auto simp: thread_inv_def running_ok_def tt(1,2) ol ol1)
  qed
  moreover have "current_ok t" using inv1 n s1 by (auto simp: thread_inv_def current_ok_def tt(1,2) ol ol1 Let_def)
  moreover have "ids_ok t = ids_ok s1" using s1(3) by (intro ids_ok_cong) (auto simp: tt)
  ultimately have "thread_inv t" using inv1 by (simp add: thread_inv_def)
  then show ?thesis
    unfolding switch_locked_def Let_def old_def [symmetric] s1_def [symmetric] t_def [symmetric]
    by (rule thread_inv_cong) simp_all
qed

lemma activate_root_fields:
  "threads (snd (activate_root c r s)) = threads s" "per_cpu_ready_mask (snd (activate_root c r s)) = per_cpu_ready_mask s"
  "per_core_current_thread (snd (activate_root c r s)) = per_core_current_thread s"
  "next_thread_id (snd (activate_root c r s)) = next_thread_id s"
  by (simp_all add: activate_root_def Let_def split: prod.split)

lemma switch_to_inv:
  assumes "thread_inv s" "on_line s c" "n = current_thread_idx c s \<or> n < XSCORE_MAX_THREADS \<and> state (threads s n) = READY \<and> owner_cpu (threads s n) = c"
    "switch_to c n s = Some t"
  shows "thread_inv t"
proof (cases "n = current_thread_idx c s")
  case True
  then show ?thesis using assms(1,4) by (simp add: switch_to_def)
next
  case False
  then have sw: "thread_inv (switch_locked c n s)" using switch_locked_inv [OF assms(1,2)] assms(3) by blast
  define s2 where "s2 = switch_locked c n s"
  define r where "r = activate_root c (address_space_root (threads s2 n)) s2"
  have "t = xscore_sched_record_switch (snd r)"
    using assms(4) False by (auto simp: switch_to_def Let_def s2_def r_def split: prod.splits if_splits)
  then show ?thesis
    using sw [folded s2_def] unfolding r_def
    by (elim thread_inv_cong) (simp_all add: xscore_sched_record_switch_def activate_root_fields)
qed

lemma wake_inv:
  assumes "thread_inv s"
  shows "thread_inv (snd (xscore_thread_wake c thread_id s))"
proof (cases "xscore_thread_wake c thread_id s = (False, s)")
  case False
  then obtain i where i: "find_from (\<lambda>i. wakeable thread_id (threads s i)) 0 XSCORE_MAX_THREADS = Some i" "threads_initialized s" "thread_id \<noteq> 0"
    by (auto simp: xscore_thread_wake_def split: if_splits option.splits)
  have l: "i < XSCORE_MAX_THREADS" "live (state (threads s i))" using i(1) by (auto simp: find_from_Some wakeable_def live_def)
  define t where "t = (if state (threads s i) = BLOCKED
      then ready_mask_add_locked i (set_thread i (\<lambda>t. t\<lparr>state := READY\<rparr>) s)
      else set_thread i (\<lambda>t. t\<lparr>wake_pending := True\<rparr>) s)"
  have "thread_inv t"
    using thread_inv_ready [OF assms l, of "\<lambda>t. t\<lparr>state := READY\<rparr>"] thread_inv_set_thread [OF assms, of "\<lambda>t. t\<lparr>wake_pending := True\<rparr>" i]
    by (simp add: t_def)
  moreover have "snd (xscore_thread_wake c thread_id s) = t \<or>
      snd (xscore_thread_wake c thread_id s) = t\<lparr>reschedule_requests := reschedule_requests t @ [owner_cpu (threads t i)]\<rparr>"
    using i by (auto simp: xscore_thread_wake_def Let_def t_def)
  ultimately show ?thesis by (elim disjE) (auto elim!: thread_inv_cong)
qed (use assms in simp)

lemma block_locked_inv:
  assumes "thread_inv s" "on_line s c"
  shows "thread_inv (snd (block_locked c s))"
proof -
  let ?i = "current_thread_idx c s"
  have "thread_inv (set_thread ?i (\<lambda>t. t\<lparr>state := BLOCKED\<rparr>) (ready_mask_remove_locked ?i s))"
    using thread_inv_current [OF assms] assms(1) by (intro thread_inv_stop) auto
  moreover have "thread_inv (set_thread ?i (\<lambda>t. t\<lparr>wake_pending := False\<rparr>) s)"
    using assms(1) by (rule thread_inv_set_thread) simp_all
  ultimately show ?thesis using assms(1) by (simp add: block_locked_def Let_def)
qed

lemma block_poll_inv:
  assumes "thread_inv s" "on_line s c" "block_poll c s = Some (r, t)"
  shows "thread_inv t"
proof (cases "find_next_runnable c s = current_thread_idx c s")
  case True
  have "thread_inv (set_thread (current_thread_idx c s) (\<lambda>t. t\<lparr>state := RUNNING\<rparr>) (ready_mask_remove_locked (current_thread_idx c s) s))"
    using thread_inv_current [OF assms(1,2)] assms(1,2)
    by (intro thread_inv_stop) (auto simp: current_thread_idx_on_line)
  then show ?thesis using assms(1,3) True by (auto simp: block_poll_def Let_def split: if_splits)
next
  case False
  then show ?thesis
    using assms(3) find_next_runnable_cases [OF assms(1,2)] switch_to_inv [OF assms(1,2)] by (auto simp: block_poll_def Let_def)
qed

lemma exit_locked_inv: "thread_inv s \<Longrightarrow> on_line s c \<Longrightarrow> thread_inv (exit_locked c s)"
  using thread_inv_current [of s c] by (auto simp: exit_locked_def intro!: thread_inv_stop)

lemma request_exit_of_inv:
  assumes "thread_inv s" "i < XSCORE_MAX_THREADS"
  shows "thread_inv (request_exit_of i s)"
proof -
  define t where "t = set_thread i (\<lambda>t. t\<lparr>exit_requested := True\<rparr>) s"
  have "thread_inv t" unfolding t_def by (rule thread_inv_set_thread [OF assms(1)]) simp_all
  then show ?thesis
    using thread_inv_ready [of t i "\<lambda>t. t\<lparr>state := READY, wake_pending := False\<rparr>"] assms(2)
    by (auto simp: request_exit_of_def Let_def t_def [symmetric])
qed

lemma thread_inv_vacant:
  assumes inv: "thread_inv s" and i: "i < XSCORE_MAX_THREADS" "vacant (state (threads s i))"
  shows "on_line s c \<Longrightarrow> per_core_current_thread s c \<noteq> i" "i \<noteq> 0" "c < SMP_MAX_CPUS \<Longrightarrow> \<not> bit (per_cpu_ready_mask s c) i" "tid (threads s i) = 0"
proof -
  show "on_line s c \<Longrightarrow> per_core_current_thread s c \<noteq> i"
    using inv i(2) by (auto simp: thread_inv_def current_ok_def Let_def) 
  show "i \<noteq> 0" using inv i(2) by (metis current_ok_def thread_inv_def vacant_cases(4))
  show "c < SMP_MAX_CPUS \<Longrightarrow> \<not> bit (per_cpu_ready_mask s c) i"
    using inv i by (auto simp: thread_inv_def masks_ok_def)
  show "tid (threads s i) = 0" using inv i by (auto simp: thread_inv_def ids_ok_def)
qed

text \<open>A change of a vacant block that stays vacant: reservation by a creator, and its cancellation.\<close>

lemma thread_inv_reserve:
  assumes inv: "thread_inv s" and i: "i < XSCORE_MAX_THREADS" "vacant (state (threads s i))"
    and f: "vacant (state (f (threads s i)))" "owner_cpu (f (threads s i)) < SMP_MAX_CPUS" "tid (f (threads s i)) = tid (threads s i)"
  shows "thread_inv (set_thread i f s)"
proof -
  note v = thread_inv_vacant [OF inv i]
  have nr: "state (f (threads s i)) \<noteq> READY" "state (f (threads s i)) \<noteq> RUNNING" "state (threads s i) \<noteq> READY"
    using f(1) i(2) by auto
  have "masks_ok (set_thread i f s)" using inv v(3) nr by (simp add: thread_inv_def masks_ok_def)
  moreover have "running_ok (set_thread i f s)" using inv f(2) nr by (auto simp: thread_inv_def running_ok_def)
  moreover have "current_ok (set_thread i f s)" using inv v(1,2) by (auto simp: thread_inv_def current_ok_def Let_def)
  moreover have "ids_ok (set_thread i f s) = ids_ok s" using i(2) f by (intro ids_ok_cong) auto
  ultimately show ?thesis using inv by (simp add: thread_inv_def)
qed

lemma next_id_less:
  assumes "n + 1 \<noteq> (0 :: u64)" "a < n \<or> a = n"
  shows "a < n + 1"
  using assms by unat_arith

text \<open>A vacant block becomes a thread with a new identity: \<open>t\<close> is the state after it.\<close>

lemma ids_ok_new:
  assumes inv: "thread_inv s" and i: "i < XSCORE_MAX_THREADS" "vacant (state (threads s i))" and n: "next_thread_id s \<noteq> 0" "next_thread_id s + 1 \<noteq> 0"
    and t: "\<And>k. k \<noteq> i \<Longrightarrow> threads t k = threads s k" "tid (threads t i) = next_thread_id s" "\<not> vacant (state (threads t i))"
      "next_thread_id t = next_thread_id s + 1"
  shows "ids_ok t"
proof -
  have s: "tid (threads s k) < next_thread_id s" "tid (threads s k) = 0 \<longleftrightarrow> vacant (state (threads s k))"
    "\<And>j. j < XSCORE_MAX_THREADS \<Longrightarrow> tid (threads s k) = tid (threads s j) \<Longrightarrow> tid (threads s k) \<noteq> 0 \<Longrightarrow> k = j"
    if "k < XSCORE_MAX_THREADS" for k
    using inv that by (auto simp: thread_inv_def ids_ok_def)
  have "tid (threads t k) < next_thread_id t" if "k < XSCORE_MAX_THREADS" for k
    using t s(1) [OF that] next_id_less [OF n(2)] by (cases "k = i") auto
  moreover have "tid (threads t k) = 0 \<longleftrightarrow> vacant (state (threads t k))" if "k < XSCORE_MAX_THREADS" for k
    using t n(1) s(2) [OF that] by (cases "k = i") auto
  moreover have "k = j" if "k < XSCORE_MAX_THREADS" "j < XSCORE_MAX_THREADS" "tid (threads t k) = tid (threads t j)" "tid (threads t k) \<noteq> 0" for k j
    using t(1,2) that s(1) [OF that(1)] s(1) [OF that(2)] s(3) [OF that(1,2)] by (cases "k = i"; cases "j = i") auto
  ultimately show ?thesis unfolding ids_ok_def by blast
qed

lemma create_publish_inv:
  assumes inv: "thread_inv s" and i: "i < XSCORE_MAX_THREADS" "vacant (state (threads s i))"
    and n: "next_thread_id s \<noteq> 0" "next_thread_id s + 1 \<noteq> 0"
  shows "thread_inv (create_publish i ent arg root s)"
proof -
  note v = thread_inv_vacant [OF inv i]
  let ?t = "create_publish i ent arg root s"
  have o: "owner_cpu (threads s i) < SMP_MAX_CPUS" using inv i(1) by (auto simp: thread_inv_def running_ok_def)
  have t: "threads ?t k = threads s k" if "k \<noteq> i" for k using that by (simp add: create_publish_def)
  have ti: "owner_cpu (threads ?t i) = owner_cpu (threads s i)" "state (threads ?t i) = READY" "tid (threads ?t i) = next_thread_id s"
    "per_core_current_thread ?t = per_core_current_thread s" "next_thread_id ?t = next_thread_id s + 1"
    by (simp_all add: create_publish_def)
  have b: "bit (per_cpu_ready_mask ?t c) k \<longleftrightarrow> bit (per_cpu_ready_mask s c) k \<or> (k = i \<and> c = owner_cpu (threads s i))"
    if "k < XSCORE_MAX_THREADS" for c k
    unfolding create_publish_def using o by (subst ready_mask_bits(1) [OF i(1) that]) simp_all
  have ol: "on_line ?t c = on_line s c" for c by (simp add: on_line_def ti(4))
  have "bit (per_cpu_ready_mask ?t c) k \<longleftrightarrow> state (threads ?t k) = READY \<and> owner_cpu (threads ?t k) = c"
    if "c < SMP_MAX_CPUS" "k < XSCORE_MAX_THREADS" for c k
    using inv that v(3) [OF that(1)] ti(1,2) t b [OF that(2)] by (cases "k = i") (auto simp: thread_inv_def masks_ok_def)
  then have "masks_ok ?t" by (simp add: masks_ok_def)
  moreover have "owner_cpu (threads ?t k) < SMP_MAX_CPUS \<and> (state (threads ?t k) = RUNNING \<longrightarrow>
      on_line s (owner_cpu (threads ?t k)) \<and> per_core_current_thread s (owner_cpu (threads ?t k)) = k)" if "k < XSCORE_MAX_THREADS" for k
    using inv that o ti(1,2) t by (cases "k = i") (auto simp: thread_inv_def running_ok_def)
  then have "running_ok ?t" by (simp add: running_ok_def ol ti(4))
  moreover have "current_ok ?t" using inv v(1,2) t by (simp add: thread_inv_def current_ok_def Let_def ol ti(4))
  moreover have "ids_ok ?t" using ids_ok_new [OF inv i n t ti(3)] ti by simp
  ultimately show ?thesis by (simp add: thread_inv_def)
qed

lemma register_cpu_inv:
  assumes inv: "thread_inv s" and n: "next_thread_id s \<noteq> 0" "next_thread_id s + 1 \<noteq> 0" and c: "\<not> on_line s c"
  shows "thread_inv (snd (xscore_thread_register_cpu c stack s))"
proof (cases "fst (xscore_thread_register_cpu c stack s)")
  case False
  then show ?thesis using inv by (auto simp: xscore_thread_register_cpu_def Let_def split: if_splits option.splits)
next
  case True
  let ?t = "snd (xscore_thread_register_cpu c stack s)"
  obtain i where i: "find_from (\<lambda>i. state (threads s i) = UNUSED) 0 XSCORE_MAX_THREADS = Some i"
    and g: "threads_initialized s" "c \<noteq> 0" "c < SMP_MAX_CPUS" "stack \<noteq> 0"
    using True by (auto simp: xscore_thread_register_cpu_def Let_def split: if_splits option.splits)
  then have iv: "i < XSCORE_MAX_THREADS" "vacant (state (threads s i))" by (auto simp: find_from_Some)
  note v = thread_inv_vacant [OF inv iv]
  have e: "?t = (ready_mask_remove_locked i (set_thread i (\<lambda>_. blank_thread\<lparr>tid := next_thread_id s, owner_cpu := c, state := RUNNING,
        privilege_stack_top := stack, address_space_root := root_table_address (vm s)\<rparr>) (s\<lparr>next_thread_id := next_thread_id s + 1\<rparr>)))
      \<lparr>per_core_current_thread := (per_core_current_thread s)(c := i)\<rparr>"
    using i g by (simp add: xscore_thread_register_cpu_def Let_def)
  have t: "threads ?t k = threads s k" if "k \<noteq> i" for k using that by (simp add: e)
  have ti: "owner_cpu (threads ?t i) = c" "state (threads ?t i) = RUNNING" "tid (threads ?t i) = next_thread_id s"
    "per_core_current_thread ?t = (per_core_current_thread s)(c := i)" "next_thread_id ?t = next_thread_id s + 1"
    by (simp_all add: e)
  have b: "bit (per_cpu_ready_mask ?t d) k \<longleftrightarrow> bit (per_cpu_ready_mask s d) k \<and> \<not> (k = i \<and> d = c)" if "k < XSCORE_MAX_THREADS" for d k
    using ready_mask_bits(2) [OF iv(1) that, of "set_thread i (\<lambda>_. blank_thread\<lparr>tid := next_thread_id s, owner_cpu := c, state := RUNNING,
        privilege_stack_top := stack, address_space_root := root_table_address (vm s)\<rparr>) (s\<lparr>next_thread_id := next_thread_id s + 1\<rparr>)" d] g(3)
    by (simp add: e)
  have ol: "on_line ?t d \<longleftrightarrow> d = c \<or> on_line s d" for d using g(3) v(2) by (auto simp: on_line_def ti(4))
  have "bit (per_cpu_ready_mask ?t d) k \<longleftrightarrow> state (threads ?t k) = READY \<and> owner_cpu (threads ?t k) = d"
    if "d < SMP_MAX_CPUS" "k < XSCORE_MAX_THREADS" for d k
    using inv that v(3) [OF that(1)] ti(1,2) t b [OF that(2)] by (cases "k = i") (auto simp: thread_inv_def masks_ok_def)
  then have "masks_ok ?t" by (simp add: masks_ok_def)
  moreover have "owner_cpu (threads ?t k) < SMP_MAX_CPUS \<and> (state (threads ?t k) = RUNNING \<longrightarrow>
      on_line ?t (owner_cpu (threads ?t k)) \<and> per_core_current_thread ?t (owner_cpu (threads ?t k)) = k)" if k: "k < XSCORE_MAX_THREADS" for k
  proof (cases "k = i")
    case False
    have "owner_cpu (threads s k) < SMP_MAX_CPUS \<and> (state (threads s k) = RUNNING \<longrightarrow>
        on_line s (owner_cpu (threads s k)) \<and> per_core_current_thread s (owner_cpu (threads s k)) = k)"
      using inv k by (auto simp: thread_inv_def running_ok_def)
    then show ?thesis using c by (auto simp: t [OF False] ol ti(4))
  qed (use g(3) in \<open>simp add: ti ol\<close>)
  then have "running_ok ?t" by (simp add: running_ok_def)
  moreover have "current_ok ?t"
    using inv v(1,2) t iv(1) ti(1,2) by (auto simp: thread_inv_def current_ok_def Let_def ol ti(4))
  moreover have "ids_ok ?t" using ids_ok_new [OF inv iv n t ti(3)] ti by simp
  ultimately show ?thesis by (simp add: thread_inv_def)
qed

text \<open>A thread that no processor runs on any more.\<close>

definition off_cpu :: "kernel \<Rightarrow> nat \<Rightarrow> bool" where
  "off_cpu s i \<longleftrightarrow> i \<noteq> 0 \<and> (\<forall>c. on_line s c \<longrightarrow> per_core_current_thread s c \<noteq> i)"

lemma reap_begin_inv:
  assumes inv: "thread_inv s" and i: "i < XSCORE_MAX_THREADS" "state (threads s i) = EXITED" "off_cpu s i"
  shows "thread_inv (set_thread i (\<lambda>t. t\<lparr>state := REAPING\<rparr>) s)"
proof -
  let ?t = "set_thread i (\<lambda>t. t\<lparr>state := REAPING\<rparr>) s"
  have "masks_ok ?t" using inv i(2) by (auto simp: thread_inv_def masks_ok_def)
  moreover have "running_ok ?t" using inv by (auto simp: thread_inv_def running_ok_def)
  moreover have "current_ok ?t" using inv i(3) by (auto simp: thread_inv_def current_ok_def Let_def off_cpu_def)
  moreover have "ids_ok ?t = ids_ok s" using i(2) by (intro ids_ok_cong) auto
  ultimately show ?thesis using inv by (simp add: thread_inv_def)
qed

lemma reap_clear_inv:
  assumes inv: "thread_inv s" and i: "i < XSCORE_MAX_THREADS" "state (threads s i) = REAPING" "off_cpu s i"
  shows "thread_inv (reap_clear i s)"
proof -
  let ?t = "reap_clear i s"
  have o: "owner_cpu (threads s i) < SMP_MAX_CPUS" using inv i(1) by (auto simp: thread_inv_def running_ok_def)
  have t: "threads ?t k = threads s k" if "k \<noteq> i" for k using that by (simp add: reap_clear_def)
  have ti: "owner_cpu (threads ?t i) = 0" "state (threads ?t i) = UNUSED" "tid (threads ?t i) = 0"
    "per_core_current_thread ?t = per_core_current_thread s" "next_thread_id ?t = next_thread_id s"
    by (simp_all add: reap_clear_def)
  have ol: "on_line ?t c = on_line s c" for c by (simp add: on_line_def ti(4))
  have b: "bit (per_cpu_ready_mask ?t c) k \<longleftrightarrow> bit (per_cpu_ready_mask s c) k \<and> \<not> (k = i \<and> c = owner_cpu (threads s i))"
    if "k < XSCORE_MAX_THREADS" for c k
    using ready_mask_bits(2) [OF i(1) that o] by (simp add: reap_clear_def)
  have "bit (per_cpu_ready_mask ?t c) k \<longleftrightarrow> state (threads ?t k) = READY \<and> owner_cpu (threads ?t k) = c"
    if "c < SMP_MAX_CPUS" "k < XSCORE_MAX_THREADS" for c k
    using inv that i(2) ti(1,2) t b [OF that(2)] by (cases "k = i") (auto simp: thread_inv_def masks_ok_def)
  then have "masks_ok ?t" by (simp add: masks_ok_def)
  moreover have "owner_cpu (threads ?t k) < SMP_MAX_CPUS \<and> (state (threads ?t k) = RUNNING \<longrightarrow>
      on_line s (owner_cpu (threads ?t k)) \<and> per_core_current_thread s (owner_cpu (threads ?t k)) = k)" if "k < XSCORE_MAX_THREADS" for k
    using inv that ti(1,2) t by (cases "k = i") (auto simp: thread_inv_def running_ok_def SMP_MAX_CPUS_def)
  then have "running_ok ?t" by (simp add: running_ok_def ol ti(4))
  moreover have "current_ok ?t" using inv i(3) t by (simp add: thread_inv_def current_ok_def Let_def ol ti(4) off_cpu_def)
  moreover have "ids_ok ?t"
  proof -
    have s: "(tid (threads s k) = 0 \<longleftrightarrow> vacant (state (threads s k))) \<and> tid (threads s k) < next_thread_id s \<and>
        (\<forall>j < XSCORE_MAX_THREADS. tid (threads s k) = tid (threads s j) \<and> tid (threads s k) \<noteq> 0 \<longrightarrow> k = j)" if "k < XSCORE_MAX_THREADS" for k
      using inv that by (auto simp: thread_inv_def ids_ok_def)
    have "0 < next_thread_id s" using s [OF i(1)] by (metis word_gt_0 word_not_simps(1))
    then have "(tid (threads ?t k) = 0 \<longleftrightarrow> vacant (state (threads ?t k))) \<and> tid (threads ?t k) < next_thread_id ?t \<and>
        (\<forall>j < XSCORE_MAX_THREADS. tid (threads ?t k) = tid (threads ?t j) \<and> tid (threads ?t k) \<noteq> 0 \<longrightarrow> k = j)" if "k < XSCORE_MAX_THREADS" for k
      using s [OF that] ti(2,3,5) t by (cases "k = i") (auto, metis)
    then show ?thesis unfolding ids_ok_def by blast
  qed
  ultimately show ?thesis by (simp add: thread_inv_def)
qed

section \<open>Every interleaving of the processors\<close>

text \<open>
  The critical sections as steps. The processor that executes a step is on line; between the choice of the next thread and the
  switch to it other processors may act, so the switch only requires what the choice established. Numbers of threads do not
  wrap around. A block is reaped only when no processor runs on it any more, which the code does not test.
\<close>

inductive thread_step :: "kernel \<Rightarrow> kernel \<Rightarrow> bool" where
  Switch: "on_line s c \<Longrightarrow> n < XSCORE_MAX_THREADS \<Longrightarrow> state (threads s n) = READY \<Longrightarrow> owner_cpu (threads s n) = c \<Longrightarrow>
    switch_to c n s = Some t \<Longrightarrow> thread_step s t"
| Block: "on_line s c \<Longrightarrow> thread_step s (snd (block_locked c s))"
| Poll: "on_line s c \<Longrightarrow> block_poll c s = Some (r, t) \<Longrightarrow> thread_step s t"
| Wake: "thread_step s (snd (xscore_thread_wake c thread_id s))"
| Exit: "on_line s c \<Longrightarrow> thread_step s (exit_locked c s)"
| Tick: "thread_step s (xscore_thread_schedule c s)"
| Request_exit: "i < XSCORE_MAX_THREADS \<Longrightarrow> thread_step s (request_exit_of i s)"
| Reserve: "create_reserve c s = Some (i, t) \<Longrightarrow> c < SMP_MAX_CPUS \<Longrightarrow> thread_step s t"
| Stack: "thread_step s (allocate_thread_stack i s)"
| Abandon: "i < XSCORE_MAX_THREADS \<Longrightarrow> state (threads s i) = ALLOCATING \<Longrightarrow> thread_step s (create_abandon i s)"
| Publish: "i < XSCORE_MAX_THREADS \<Longrightarrow> state (threads s i) = ALLOCATING \<Longrightarrow> next_thread_id s \<noteq> 0 \<Longrightarrow> next_thread_id s + 1 \<noteq> 0 \<Longrightarrow>
    thread_step s (create_publish i ent arg root s)"
| Register: "\<not> on_line s c \<Longrightarrow> next_thread_id s \<noteq> 0 \<Longrightarrow> next_thread_id s + 1 \<noteq> 0 \<Longrightarrow>
    thread_step s (snd (xscore_thread_register_cpu c stack s))"
| Reap_begin: "reap_reserve c thread_id s = Some i \<Longrightarrow> off_cpu s i \<Longrightarrow> thread_step s (set_thread i (\<lambda>t. t\<lparr>state := REAPING\<rparr>) s)"
| Reap_stack: "thread_step s (release_thread_stack i s)"
| Reap_end: "i < XSCORE_MAX_THREADS \<Longrightarrow> state (threads s i) = REAPING \<Longrightarrow> off_cpu s i \<Longrightarrow> thread_step s (reap_clear i s)"
| Join: "thread_step s (snd (join_locked c thread_id s))"

inductive thread_reachable :: "kernel \<Rightarrow> bool" where
  Boot: "next_thread_id s = 1 \<Longrightarrow> thread_reachable (xscore_thread_initialize 0 syscall_top s)"
| Step: "thread_reachable s \<Longrightarrow> thread_step s t \<Longrightarrow> thread_reachable t"

lemma allocate_thread_stack_inv: "thread_inv s \<Longrightarrow> thread_inv (allocate_thread_stack i s)"
  by (erule thread_inv_cong) (auto simp: allocate_thread_stack_def Let_def no_stack_def split: prod.split)

lemma release_thread_stack_inv: "thread_inv s \<Longrightarrow> thread_inv (release_thread_stack i s)"
  by (erule thread_inv_cong) (auto simp: release_thread_stack_def Let_def no_stack_def)

lemma schedule_inv: "thread_inv s \<Longrightarrow> thread_inv (xscore_thread_schedule c s)"
  by (erule thread_inv_cong) (auto simp: xscore_thread_schedule_def Let_def)

lemma join_locked_inv: "thread_inv s \<Longrightarrow> thread_inv (snd (join_locked c thread_id s))"
  by (erule thread_inv_cong) (auto simp: join_locked_def Let_def split: option.split)

lemma thread_step_inv: "thread_step s t \<Longrightarrow> thread_inv s \<Longrightarrow> thread_inv t"
proof (induction rule: thread_step.induct)
  case (Switch s c n t)
  then show ?case using switch_to_inv by blast
next
  case (Reserve c s i t)
  then show ?case
    by (auto simp: create_reserve_def find_from_Some intro!: thread_inv_reserve)
next
  case (Abandon i s)
  then show ?case unfolding create_abandon_def by (intro thread_inv_reserve) (auto simp: SMP_MAX_CPUS_def thread_inv_def ids_ok_def)
next
  case (Reap_begin c thread_id s i)
  then show ?case by (intro reap_begin_inv) (auto simp: reap_reserve_def find_from_Some)
qed (auto intro: block_locked_inv block_poll_inv wake_inv exit_locked_inv schedule_inv request_exit_of_inv allocate_thread_stack_inv
    create_publish_inv register_cpu_inv release_thread_stack_inv reap_clear_inv join_locked_inv)

lemma fold_set_thread:
  "threads (fold (\<lambda>i. set_thread i f) [0 ..< n] s) k = (if k < n then f (threads s k) else threads s k) \<and>
   next_thread_id (fold (\<lambda>i. set_thread i f) [0 ..< n] s) = next_thread_id s \<and> vm (fold (\<lambda>i. set_thread i f) [0 ..< n] s) = vm s"
  by (induction n) (auto simp: less_Suc_eq)

definition reset_core :: "nat \<Rightarrow> kernel \<Rightarrow> kernel" where
  "reset_core c s = s\<lparr>per_core_current_thread := (per_core_current_thread s)(c := 0),
     current_slice_ticks := (current_slice_ticks s)(c := 0), preemption_pending := (preemption_pending s)(c := False),
     per_cpu_ready_mask := (per_cpu_ready_mask s)(c := 0)\<rparr>"

lemma fold_reset_core:
  "threads (fold reset_core [0 ..< n] s) = threads s \<and> next_thread_id (fold reset_core [0 ..< n] s) = next_thread_id s \<and>
   (\<forall>c < n. per_core_current_thread (fold reset_core [0 ..< n] s) c = 0 \<and> per_cpu_ready_mask (fold reset_core [0 ..< n] s) c = 0)"
  by (induction n) (auto simp: reset_core_def less_Suc_eq)

lemma thread_initialize_fields:
  fixes s :: kernel and stk :: u64
  defines "t \<equiv> xscore_thread_initialize 0 stk s"
  shows "threads t 0 = blank_thread\<lparr>tid := next_thread_id s, state := RUNNING, privilege_stack_top := stk,
      address_space_root := root_table_address (vm s)\<rparr>"
    and "0 < k \<Longrightarrow> k < XSCORE_MAX_THREADS \<Longrightarrow> tid (threads t k) = 0 \<and> owner_cpu (threads t k) = 0 \<and> state (threads t k) = UNUSED"
    and "c < SMP_MAX_CPUS \<Longrightarrow> per_core_current_thread t c = 0 \<and> per_cpu_ready_mask t c = 0"
    and "next_thread_id t = next_thread_id s + 1" "threads_initialized t"
proof -
  define a where "a = fold (\<lambda>i. set_thread i (\<lambda>t. t\<lparr>tid := 0, owner_cpu := 0, state := UNUSED\<rparr>)) [0 ..< XSCORE_MAX_THREADS] s"
  define b where "b = (set_thread 0 (\<lambda>_. blank_thread\<lparr>tid := next_thread_id a, state := RUNNING, privilege_stack_top := stk,
      address_space_root := root_table_address (vm a)\<rparr>) a)\<lparr>next_thread_id := next_thread_id a + 1\<rparr>"
  have t: "t = (set_current_thread_idx 0 0 (fold reset_core [0 ..< SMP_MAX_CPUS] b))\<lparr>threads_initialized := True\<rparr>"
    by (simp add: t_def xscore_thread_initialize_def Let_def a_def b_def reset_core_def [abs_def])
  have fa: "threads a k = (if k < XSCORE_MAX_THREADS then (threads s k)\<lparr>tid := 0, owner_cpu := 0, state := UNUSED\<rparr> else threads s k)"
    "next_thread_id a = next_thread_id s" "vm a = vm s" for k
    using fold_set_thread [where f = "\<lambda>t. t\<lparr>tid := 0, owner_cpu := 0, state := UNUSED\<rparr>" and n = XSCORE_MAX_THREADS and s = s] by (simp_all add: a_def)
  have fb: "threads b k = (if k = 0 then blank_thread\<lparr>tid := next_thread_id s, state := RUNNING, privilege_stack_top := stk,
      address_space_root := root_table_address (vm s)\<rparr> else threads a k)" "next_thread_id b = next_thread_id s + 1" for k
    by (simp_all add: b_def fa)
  have ft: "threads t = threads b" "next_thread_id t = next_thread_id b" "threads_initialized t"
    "\<And>c. c < SMP_MAX_CPUS \<Longrightarrow> per_core_current_thread t c = 0 \<and> per_cpu_ready_mask t c = 0"
    using fold_reset_core [of SMP_MAX_CPUS b] by (simp_all add: t set_current_thread_idx_def del: upt_Suc)
  show "threads t 0 = blank_thread\<lparr>tid := next_thread_id s, state := RUNNING, privilege_stack_top := stk,
      address_space_root := root_table_address (vm s)\<rparr>" by (simp add: ft fb)
  show "0 < k \<Longrightarrow> k < XSCORE_MAX_THREADS \<Longrightarrow> tid (threads t k) = 0 \<and> owner_cpu (threads t k) = 0 \<and> state (threads t k) = UNUSED"
    by (simp add: ft fb fa)
  show "c < SMP_MAX_CPUS \<Longrightarrow> per_core_current_thread t c = 0 \<and> per_cpu_ready_mask t c = 0" by (rule ft)
  show "next_thread_id t = next_thread_id s + 1" "threads_initialized t" by (simp_all add: ft fb)
qed

lemma thread_initialize_inv:
  assumes "next_thread_id s = 1"
  shows "thread_inv (xscore_thread_initialize 0 stk s)"
proof -
  let ?t = "xscore_thread_initialize 0 stk s"
  note f = thread_initialize_fields [where s = s and stk = stk]
  have z: "tid (threads ?t 0) = 1" "owner_cpu (threads ?t 0) = 0" "state (threads ?t 0) = RUNNING" "next_thread_id ?t = 2"
    using f(1,4) assms by (simp_all add: blank_thread_def)
  have ol: "on_line ?t c \<longleftrightarrow> c = 0" for c using f(3) by (auto simp: on_line_def SMP_MAX_CPUS_def)
  have k: "k = 0 \<or> tid (threads ?t k) = 0 \<and> owner_cpu (threads ?t k) = 0 \<and> state (threads ?t k) = UNUSED" if "k < XSCORE_MAX_THREADS" for k
    using f(2) [OF _ that] by blast
  have m: "0 < SMP_MAX_CPUS" "0 < XSCORE_MAX_THREADS" by (simp_all add: SMP_MAX_CPUS_def XSCORE_MAX_THREADS_def)
  have "state (threads ?t k) \<noteq> READY" if "k < XSCORE_MAX_THREADS" for k using k [OF that] z(3) by auto
  then have "masks_ok ?t" using f(3) by (simp add: masks_ok_def)
  moreover have "running_ok ?t" unfolding running_ok_def using k z f(3) [OF m(1)] m ol by fastforce
  moreover have "current_ok ?t" using z f(3) [OF m(1)] m by (simp add: current_ok_def ol Let_def)
  moreover have "ids_ok ?t"
  proof -
    have "(tid (threads ?t i) = 0 \<longleftrightarrow> vacant (state (threads ?t i))) \<and> tid (threads ?t i) < next_thread_id ?t \<and>
        (tid (threads ?t i) = tid (threads ?t j) \<and> tid (threads ?t i) \<noteq> 0 \<longrightarrow> i = j)" if "i < XSCORE_MAX_THREADS" "j < XSCORE_MAX_THREADS" for i j
      using k [OF that(1)] k [OF that(2)] z by (cases "i = 0"; cases "j = 0") auto
    then show ?thesis using m unfolding ids_ok_def by blast
  qed
  ultimately show ?thesis by (simp add: thread_inv_def)
qed

lemma thread_reachable_inv: "thread_reachable s \<Longrightarrow> thread_inv s"
  by (induction rule: thread_reachable.induct) (auto intro: thread_initialize_inv thread_step_inv)

section \<open>The claims\<close>


text \<open>The table after the first processor has booted, and after a second one has registered.\<close>

definition cold :: kernel where
  "cold = \<lparr>threads = (\<lambda>_. blank_thread), next_thread_id = 1, per_core_current_thread = (\<lambda>_. 0), threads_initialized = False,
     current_slice_ticks = (\<lambda>_. 0), preemption_pending = (\<lambda>_. False), per_cpu_ready_mask = (\<lambda>_. 0),
     stats = \<lparr>timer_ticks = 0, context_switches = 0, preemptions = 0\<rparr>, vm = vmm_demo, core_cr3 = (\<lambda>_. 0x100000),
     reschedule_requests = []\<rparr>"

definition booted :: kernel where
  "booted = xscore_thread_initialize 0 0x1000 cold"

definition two_cpus :: kernel where
  "two_cpus = snd (xscore_thread_register_cpu 1 0x2000 booted)"

lemma booted_fields:
  "state (threads booted 0) = RUNNING" "tid (threads booted 0) = 1" "0 < k \<Longrightarrow> k < XSCORE_MAX_THREADS \<Longrightarrow> state (threads booted k) = UNUSED"
  "c < SMP_MAX_CPUS \<Longrightarrow> per_core_current_thread booted c = 0" "next_thread_id booted = 2" "threads_initialized booted"
proof -
  have n: "next_thread_id cold = 1" by (simp add: cold_def)
  note f = thread_initialize_fields [where s = cold and stk = "0x1000", folded booted_def, unfolded n]
  show "state (threads booted 0) = RUNNING" "tid (threads booted 0) = 1" unfolding f(1) by simp_all
  show "0 < k \<Longrightarrow> k < XSCORE_MAX_THREADS \<Longrightarrow> state (threads booted k) = UNUSED" "c < SMP_MAX_CPUS \<Longrightarrow> per_core_current_thread booted c = 0"
    using f(2,3) by blast+
  show "next_thread_id booted = 2" "threads_initialized booted" using f(4,5) by simp_all
qed

lemma two_cpus_fields:
  "threads two_cpus 1 = blank_thread\<lparr>tid := 2, owner_cpu := 1, state := RUNNING, privilege_stack_top := 0x2000,
     address_space_root := root_table_address (vm booted)\<rparr>"
  "threads two_cpus 0 = threads booted 0" "per_core_current_thread two_cpus 1 = 1" "per_core_current_thread two_cpus 0 = 0"
  "threads_initialized two_cpus"
proof -
  have "find_from (\<lambda>i. state (threads booted i) = UNUSED) 0 XSCORE_MAX_THREADS = Some 1"
    using booted_fields(1,3) by (auto simp: find_from_Some XSCORE_MAX_THREADS_def)
  then have e: "two_cpus = (ready_mask_remove_locked 1 (set_thread 1 (\<lambda>_. blank_thread\<lparr>tid := 2, owner_cpu := 1, state := RUNNING,
        privilege_stack_top := 0x2000, address_space_root := root_table_address (vm booted)\<rparr>) (booted\<lparr>next_thread_id := 3\<rparr>)))
      \<lparr>per_core_current_thread := (per_core_current_thread booted)(1 := 1)\<rparr>"
    using booted_fields(5,6) by (simp add: two_cpus_def xscore_thread_register_cpu_def Let_def SMP_MAX_CPUS_def del: One_nat_def)
  show "threads two_cpus 1 = blank_thread\<lparr>tid := 2, owner_cpu := 1, state := RUNNING, privilege_stack_top := 0x2000,
       address_space_root := root_table_address (vm booted)\<rparr>"
    "threads two_cpus 0 = threads booted 0" "per_core_current_thread two_cpus 1 = 1" "per_core_current_thread two_cpus 0 = 0"
    "threads_initialized two_cpus"
    unfolding e using booted_fields(4) [of 0] booted_fields(6) by (simp_all add: SMP_MAX_CPUS_def)
qed

lemma two_cpus_reachable: "thread_reachable two_cpus"
proof -
  have "thread_reachable booted" unfolding booted_def by (rule thread_reachable.Boot) (simp add: cold_def)
  moreover have "\<not> on_line booted 1" using booted_fields(4) by (simp add: on_line_def SMP_MAX_CPUS_def)
  ultimately show ?thesis
    unfolding two_cpus_def using booted_fields(5) by (intro thread_reachable.Step [OF _ thread_step.Register]) simp_all
qed

lemma two_cpus_on_line: "on_line two_cpus 0" "on_line two_cpus 1"
  by (simp_all add: on_line_def two_cpus_fields SMP_MAX_CPUS_def del: One_nat_def)





















text \<open>
  C36. The test before a reap is made on the processor that reaps: when a thread has just exited on another processor, which still
  executes on the kernel stack of the thread, a reap on this processor succeeds and frees the block and the stacks.
\<close>

theorem reap_frees_stack_in_use:
  assumes inv: "thread_reachable s" and ini: "threads_initialized s" and c: "on_line s c" "on_line s d" "c \<noteq> d"
    and i: "i = current_thread_idx d s" "i \<noteq> 0" "state (threads s i) = RUNNING"
  shows "fst (xscore_thread_reap c (tid (threads s i)) (exit_locked d s)) \<and>
    current_thread_idx d (snd (xscore_thread_reap c (tid (threads s i)) (exit_locked d s))) = i \<and>
    state (threads (snd (xscore_thread_reap c (tid (threads s i)) (exit_locked d s))) i) = UNUSED \<and>
    stack_base (threads (snd (xscore_thread_reap c (tid (threads s i)) (exit_locked d s))) i) = 0"
proof -
  have inv: "thread_inv s" by (rule thread_reachable_inv [OF inv])
  have m: "i < XSCORE_MAX_THREADS" "owner_cpu (threads s i) = d" using thread_inv_current [OF inv c(2)] i(1) by auto
  let ?e = "exit_locked d s"
  have e: "threads ?e k = (if k = i then (threads s i)\<lparr>state := EXITED\<rparr> else threads s k)"
    "current_thread_idx b ?e = current_thread_idx b s" "threads_initialized ?e" for k b
    using i(1) ini by (simp_all add: exit_locked_def current_thread_idx_def)
  have "owner_cpu (threads s (current_thread_idx c s)) = c" using thread_inv_current [OF inv c(1)] by auto
  then have ne: "current_thread_idx c s \<noteq> i" using m(2) c(3) by auto
  have ids: "tid (threads s i) \<noteq> 0" "\<And>j. j < XSCORE_MAX_THREADS \<Longrightarrow> tid (threads s j) = tid (threads s i) \<Longrightarrow> j = i"
    using inv m(1) i(3) unfolding thread_inv_def ids_ok_def by auto
  have r: "reap_reserve c (tid (threads s i)) ?e = Some i"
    using ids(1) m(1) i(2) ne unfolding reap_reserve_def find_from_Some e(2) by (auto simp: e(1) dest: ids(2) [rotated])
  show ?thesis
    using r ids(1) e(3) i(1)
    by (simp add: xscore_thread_reap_def Let_def reap_clear_def release_thread_stack_at no_stack_def e(1) current_thread_idx_def)
      (simp add: release_thread_stack_def Let_def exit_locked_def)
qed

theorem reap_frees_stack_in_use_witness:
  "current_thread_idx 1 (snd (xscore_thread_reap 0 2 (exit_locked 1 two_cpus))) = 1 \<and>
    state (threads (snd (xscore_thread_reap 0 2 (exit_locked 1 two_cpus))) 1) = UNUSED"
  using reap_frees_stack_in_use [OF two_cpus_reachable two_cpus_fields(5) two_cpus_on_line, of 1]
  by (simp add: two_cpus_fields current_thread_idx_def SMP_MAX_CPUS_def blank_thread_def del: One_nat_def)

end
