(* ===== verification/Futex_Wake.thy ===== *)
theory Futex_Wake
  imports Futex
begin

text \<open>
  Interleavings of futex calls. A state is the waiter table, the kernel, the place of every thread in its wait call, and the wake
  that a processor is in the middle of: the waiter it has woken but not yet marked. Waking a thread and marking its waiter are
  separate steps, between which threads block and run; the futex lock only keeps registrations, results and other wakes out.
\<close>

section \<open>Threads that wait\<close>


definition awake :: "thread_state \<Rightarrow> bool" where
  "awake st \<longleftrightarrow> st = READY \<or> st = RUNNING"

definition alive :: "thread_state \<Rightarrow> bool" where
  "alive st \<longleftrightarrow> st = READY \<or> st = RUNNING \<or> st = BLOCKED"

lemma awake_alive [simp]:
  "awake READY" "awake RUNNING" "\<not> awake BLOCKED" "alive READY" "alive RUNNING" "alive BLOCKED"
  "\<not> awake UNUSED" "\<not> awake EXITED" "\<not> awake ALLOCATING" "\<not> awake REAPING" "\<not> alive UNUSED" "\<not> alive EXITED" "\<not> alive ALLOCATING" "\<not> alive REAPING" "awake st \<Longrightarrow> alive st"
  by (auto simp: awake_def alive_def)

definition keeps :: "nat \<Rightarrow> kernel \<Rightarrow> kernel \<Rightarrow> bool" where
  "keeps i s t \<longleftrightarrow> tid (threads t i) = tid (threads s i) \<and> (alive (state (threads s i)) \<longrightarrow> alive (state (threads t i))) \<and>
     (awake (state (threads s i)) \<longrightarrow> awake (state (threads t i)) \<and> (wake_pending (threads s i) \<longrightarrow> wake_pending (threads t i)))"


lemma keeps_trans: "keeps i s t \<Longrightarrow> keeps i t u \<Longrightarrow> keeps i s u"
  by (simp add: keeps_def)












section \<open>Steps of the system\<close>





section \<open>The invariant\<close>

























section \<open>What a wake does\<close>



section \<open>The claims\<close>













end
