(* ===== verification/Eventfd.thy ===== *)
theory Eventfd
  imports Prelude Errno
begin

unbundle bit_operations_syntax

text \<open>
  The event counters of the C library, \<^verbatim>\<open>userspace/libc/src/eventfd.c\<close>: a table of 32 counter objects, each
  backed by a pipe, and a table of 16 duplicated descriptors that point to objects. Descriptors of both kinds live
  outside the range of the kernel. The pipe calls of the system are the fields of a record of functions on a system
  state. A reference count in the object decides when its pipe is closed; the claims show that it is always the
  number of descriptors that lead to the object, and that counts written are the counts read.
\<close>

section \<open>Model\<close>

definition EFD_BASE :: int where "EFD_BASE = 1032"
definition EFD_CAPACITY :: nat where "EFD_CAPACITY = 32"
definition EFD_DUP_BASE :: int where "EFD_DUP_BASE = 1064"
definition EFD_DUP_CAPACITY :: nat where "EFD_DUP_CAPACITY = 16"
definition EVENTFD_MAX :: u64 where "EVENTFD_MAX = 0xfffffffffffffffe"
definition EFD_CLOEXEC :: u32 where "EFD_CLOEXEC = 0x80000"
definition EFD_NONBLOCK :: u32 where "EFD_NONBLOCK = 0x800"
definition EFD_SEMAPHORE :: u32 where "EFD_SEMAPHORE = 1"
definition FD_CLOEXEC :: u32 where "FD_CLOEXEC = 1"
definition O_RDWR :: u32 where "O_RDWR = 2"
definition O_NONBLOCK :: u32 where "O_NONBLOCK = 0x800"
definition F_DUPFD :: int where "F_DUPFD = 0"
definition F_GETFD :: int where "F_GETFD = 1"
definition F_SETFD :: int where "F_SETFD = 2"
definition F_GETFL :: int where "F_GETFL = 3"
definition F_SETFL :: int where "F_SETFL = 4"
definition F_DUPFD_CLOEXEC :: int where "F_DUPFD_CLOEXEC = 1030"

record eventfd_object =
  used :: bool
  descriptor :: int
  read_fd :: int
  write_fd :: int
  flags :: u32
  descriptor_flags :: u32
  descriptor_references :: u32
  counter :: u64

record eventfd_alias =
  alias_used :: bool
  alias_descriptor :: int
  alias_flags :: u32
  alias_object :: "nat option"

record eventfds =
  objects :: "nat \<Rightarrow> eventfd_object"
  aliases :: "nat \<Rightarrow> eventfd_alias"

text \<open>The pipe calls: a new pipe, one byte read or written (the number of bytes moved), a descriptor closed.\<close>

record 'w pipe_calls =
  pipe :: "'w \<Rightarrow> (errno + int \<times> int) \<times> 'w"
  read_byte :: "int \<Rightarrow> 'w \<Rightarrow> (errno + nat) \<times> 'w"
  write_byte :: "int \<Rightarrow> 'w \<Rightarrow> (errno + nat) \<times> 'w"
  close_fd :: "int \<Rightarrow> 'w \<Rightarrow> 'w"

definition set_object :: "nat \<Rightarrow> (eventfd_object \<Rightarrow> eventfd_object) \<Rightarrow> eventfds \<Rightarrow> eventfds" where
  "set_object i f s = s\<lparr>objects := (objects s)(i := f (objects s i))\<rparr>"

definition set_alias :: "nat \<Rightarrow> (eventfd_alias \<Rightarrow> eventfd_alias) \<Rightarrow> eventfds \<Rightarrow> eventfds" where
  "set_alias j f s = s\<lparr>aliases := (aliases s)(j := f (aliases s j))\<rparr>"

definition find_eventfd_alias :: "int \<Rightarrow> eventfds \<Rightarrow> nat option" where
  "find_eventfd_alias d s =
     (if d < EFD_DUP_BASE \<or> d \<ge> EFD_DUP_BASE + int EFD_DUP_CAPACITY then None
      else let j = nat (d - EFD_DUP_BASE); a = aliases s j in
        if alias_used a \<and> alias_descriptor a = d \<and> (case alias_object a of None \<Rightarrow> False | Some i \<Rightarrow> used (objects s i))
        then Some j else None)"

definition find_eventfd :: "int \<Rightarrow> eventfds \<Rightarrow> nat option" where
  "find_eventfd d s =
     (if d \<ge> EFD_BASE \<and> d < EFD_BASE + int EFD_CAPACITY \<and>
         used (objects s (nat (d - EFD_BASE))) \<and> descriptor (objects s (nat (d - EFD_BASE))) = d
      then Some (nat (d - EFD_BASE))
      else case find_eventfd_alias d s of None \<Rightarrow> None | Some j \<Rightarrow> alias_object (aliases s j))"

definition eventfd_is_used :: "int \<Rightarrow> eventfds \<Rightarrow> bool" where
  "eventfd_is_used d s \<longleftrightarrow> find_eventfd d s \<noteq> None"

definition eventfd_signal :: "'w pipe_calls \<Rightarrow> eventfd_object \<Rightarrow> 'w \<Rightarrow> bool \<times> 'w" where
  "eventfd_signal os ob w = (let (r, w) = write_byte os (write_fd ob) w in (r = Inr 1, w))"

definition eventfd :: "'w pipe_calls \<Rightarrow> u32 \<Rightarrow> u32 \<Rightarrow> eventfds \<times> 'w \<Rightarrow> (errno + int) \<times> eventfds \<times> 'w" where
  "eventfd os initval fl = (\<lambda>(s, w).
     if fl AND NOT (EFD_CLOEXEC OR EFD_NONBLOCK OR EFD_SEMAPHORE) \<noteq> 0 then (Inl EINVAL, s, w)
     else case find_from (\<lambda>i. \<not> used (objects s i)) 0 EFD_CAPACITY of
       None \<Rightarrow> (Inl EMFILE, s, w)
     | Some i \<Rightarrow>
         (case pipe os w of
            (Inl e, w) \<Rightarrow> (Inl e, s, w)
          | (Inr (r, wr), w) \<Rightarrow>
              let s = set_object i (\<lambda>ob. ob\<lparr>used := True, descriptor := EFD_BASE + int i, read_fd := r, write_fd := wr,
                        flags := fl, descriptor_flags := (if fl AND EFD_CLOEXEC \<noteq> 0 then FD_CLOEXEC else 0),
                        descriptor_references := 1, counter := ucast initval\<rparr>) s;
                  (failed, w) = (if initval \<noteq> 0 then let (ok, w) = eventfd_signal os (objects s i) w in (\<not> ok, w) else (False, w))
              in if failed then
                   (Inl EIO, set_object i (\<lambda>ob. ob\<lparr>used := False, descriptor := -1, descriptor_references := 0\<rparr>) s,
                    close_fd os wr (close_fd os r w))
                 else (Inr (EFD_BASE + int i), s, w)))"

text \<open>
  The read and write bridges return \<^const>\<open>None\<close> when the descriptor is not theirs. \<open>buf\<close> says that the buffer of a
  read is not null; the buffer of a write is the number in it.
\<close>

definition akaos_eventfd_read ::
    "'w pipe_calls \<Rightarrow> int \<Rightarrow> bool \<Rightarrow> nat \<Rightarrow> eventfds \<times> 'w \<Rightarrow> (errno + u64) option \<times> eventfds \<times> 'w" where
  "akaos_eventfd_read os d buf len = (\<lambda>(s, w).
     case find_eventfd d s of
       None \<Rightarrow> (None, s, w)
     | Some i \<Rightarrow>
         if \<not> buf \<or> len < 8 then (Some (Inl EINVAL), s, w)
         else if counter (objects s i) = 0 \<and> flags (objects s i) AND EFD_NONBLOCK \<noteq> 0 then (Some (Inl EAGAIN), s, w)
         else
           (case read_byte os (read_fd (objects s i)) w of
              (Inl e, w) \<Rightarrow> (Some (Inl e), s, w)
            | (Inr _, w) \<Rightarrow>
                let semaphore = (flags (objects s i) AND EFD_SEMAPHORE \<noteq> 0);
                    v = (if semaphore then 1 else counter (objects s i));
                    s = set_object i (\<lambda>ob. ob\<lparr>counter :=
                          (if semaphore then if counter ob > 0 then counter ob - 1 else counter ob else 0)\<rparr>) s;
                    w = (if counter (objects s i) \<noteq> 0 then snd (eventfd_signal os (objects s i) w) else w)
                in (Some (Inr v), s, w)))"

definition akaos_eventfd_write ::
    "'w pipe_calls \<Rightarrow> int \<Rightarrow> u64 option \<Rightarrow> nat \<Rightarrow> eventfds \<times> 'w \<Rightarrow> (errno + nat) option \<times> eventfds \<times> 'w" where
  "akaos_eventfd_write os d buf len = (\<lambda>(s, w).
     case find_eventfd d s of
       None \<Rightarrow> (None, s, w)
     | Some i \<Rightarrow>
         (case buf of
            None \<Rightarrow> (Some (Inl EINVAL), s, w)
          | Some amount \<Rightarrow>
              if len \<noteq> 8 then (Some (Inl EINVAL), s, w)
              else if amount = -1 \<or> counter (objects s i) > EVENTFD_MAX - amount then (Some (Inl EINVAL), s, w)
              else
                let was_zero = (counter (objects s i) = 0);
                    s = set_object i (\<lambda>ob. ob\<lparr>counter := counter ob + amount\<rparr>) s;
                    (failed, w) = (if was_zero \<and> counter (objects s i) \<noteq> 0
                                   then let (ok, w) = eventfd_signal os (objects s i) w in (\<not> ok, w) else (False, w))
                in if failed then (Some (Inl EIO), set_object i (\<lambda>ob. ob\<lparr>counter := counter ob - amount\<rparr>) s, w)
                   else (Some (Inr 8), s, w)))"

definition POLLOUT :: u16 where "POLLOUT = 4"

definition akaos_eventfd_poll_fd :: "int \<Rightarrow> u16 \<Rightarrow> eventfds \<Rightarrow> int" where
  "akaos_eventfd_poll_fd d events s =
     (case find_eventfd d s of None \<Rightarrow> d
      | Some i \<Rightarrow> if events AND POLLOUT \<noteq> 0 then write_fd (objects s i) else read_fd (objects s i))"

definition akaos_eventfd_fcntl :: "int \<Rightarrow> int \<Rightarrow> u64 \<Rightarrow> eventfds \<Rightarrow> (errno + int) option \<times> eventfds" where
  "akaos_eventfd_fcntl d command argument s =
     (case find_eventfd d s of
        None \<Rightarrow> (None, s)
      | Some i \<Rightarrow>
          let al = find_eventfd_alias d s;
              dflags = (case al of None \<Rightarrow> descriptor_flags (objects s i) | Some j \<Rightarrow> alias_flags (aliases s j))
          in if command = F_GETFD then (Some (Inr (uint dflags)), s)
             else if command = F_SETFD then
               if argument AND NOT (ucast FD_CLOEXEC) \<noteq> 0 then (Some (Inl EINVAL), s)
               else (Some (Inr 0),
                     case al of None \<Rightarrow> set_object i (\<lambda>ob. ob\<lparr>descriptor_flags := ucast argument\<rparr>) s
                     | Some j \<Rightarrow> set_alias j (\<lambda>a. a\<lparr>alias_flags := ucast argument\<rparr>) s)
             else if command = F_GETFL then
               (Some (Inr (uint (O_RDWR OR (if flags (objects s i) AND EFD_NONBLOCK \<noteq> 0 then O_NONBLOCK else 0)))), s)
             else if command = F_SETFL then
               (Some (Inr 0), set_object i (\<lambda>ob. ob\<lparr>flags :=
                  (if argument AND ucast O_NONBLOCK \<noteq> 0 then flags ob OR EFD_NONBLOCK else flags ob AND NOT EFD_NONBLOCK)\<rparr>) s)
             else if command \<noteq> F_DUPFD \<and> command \<noteq> F_DUPFD_CLOEXEC then (None, s)
             else if argument > 0x7fffffff then (Some (Inl EINVAL), s)
             else
               (case find_from (\<lambda>j. \<not> (EFD_DUP_BASE + int j < uint argument \<or> alias_used (aliases s j))) 0 EFD_DUP_CAPACITY of
                  None \<Rightarrow> (Some (Inl EMFILE), s)
                | Some j \<Rightarrow>
                    (Some (Inr (EFD_DUP_BASE + int j)),
                     set_object i (\<lambda>ob. ob\<lparr>descriptor_references := descriptor_references ob + 1\<rparr>)
                       (set_alias j (\<lambda>_. \<lparr>alias_used = True, alias_descriptor = EFD_DUP_BASE + int j,
                          alias_flags = (if command = F_DUPFD_CLOEXEC then FD_CLOEXEC else 0), alias_object = Some i\<rparr>) s))))"

definition akaos_eventfd_close :: "'w pipe_calls \<Rightarrow> int \<Rightarrow> eventfds \<times> 'w \<Rightarrow> bool \<times> eventfds \<times> 'w" where
  "akaos_eventfd_close os d = (\<lambda>(s, w).
     case find_eventfd d s of
       None \<Rightarrow> (False, s, w)
     | Some i \<Rightarrow>
         let s = (case find_eventfd_alias d s of
                    Some j \<Rightarrow> set_alias j (\<lambda>_. \<lparr>alias_used = False, alias_descriptor = -1, alias_flags = 0, alias_object = None\<rparr>) s
                  | None \<Rightarrow> set_object i (\<lambda>ob. ob\<lparr>descriptor := -1, descriptor_flags := 0\<rparr>) s);
             s = (if descriptor_references (objects s i) > 0
                  then set_object i (\<lambda>ob. ob\<lparr>descriptor_references := descriptor_references ob - 1\<rparr>) s else s)
         in if descriptor_references (objects s i) = 0 then
              (True, set_object i (\<lambda>ob. ob\<lparr>used := False, read_fd := -1, write_fd := -1, flags := 0, counter := 0\<rparr>) s,
               close_fd os (write_fd (objects s i)) (close_fd os (read_fd (objects s i)) w))
            else (True, s, w))"

section \<open>The invariant\<close>

definition dups :: "eventfds \<Rightarrow> nat \<Rightarrow> nat set" where
  "dups s i = {j. j < EFD_DUP_CAPACITY \<and> alias_used (aliases s j) \<and> alias_object (aliases s j) = Some i}"

definition holders :: "eventfds \<Rightarrow> nat \<Rightarrow> nat" where
  "holders s i = card (dups s i) + (if descriptor (objects s i) = EFD_BASE + int i then 1 else 0)"

definition object_ok :: "eventfds \<Rightarrow> nat \<Rightarrow> bool" where
  "object_ok s i \<longleftrightarrow>
     (if used (objects s i)
      then unat (descriptor_references (objects s i)) = holders s i \<and> 0 < holders s i \<and> counter (objects s i) \<le> EVENTFD_MAX
      else dups s i = {})"

definition alias_ok :: "eventfds \<Rightarrow> nat \<Rightarrow> bool" where
  "alias_ok s j \<longleftrightarrow> (alias_used (aliases s j) \<longrightarrow>
     alias_descriptor (aliases s j) = EFD_DUP_BASE + int j \<and> (\<exists>i < EFD_CAPACITY. alias_object (aliases s j) = Some i))"

definition eventfds_ok :: "eventfds \<Rightarrow> bool" where
  "eventfds_ok s \<longleftrightarrow> (\<forall>i < EFD_CAPACITY. object_ok s i) \<and> (\<forall>j < EFD_DUP_CAPACITY. alias_ok s j)"

lemma set_object_at [simp]:
  "objects (set_object i f s) k = (if k = i then f (objects s i) else objects s k)" "aliases (set_object i f s) = aliases s"
  by (simp_all add: set_object_def)

lemma set_alias_at [simp]:
  "aliases (set_alias j f s) k = (if k = j then f (aliases s j) else aliases s k)" "objects (set_alias j f s) = objects s"
  by (simp_all add: set_alias_def)

lemma dups_set_object [simp]: "dups (set_object i f s) k = dups s k"
  by (simp add: dups_def)

lemma finite_dups [simp]: "finite (dups s i)"
  by (rule finite_subset [of _ "{..<EFD_DUP_CAPACITY}"]) (auto simp: dups_def)

lemma card_dups: "card (dups s i) \<le> 16"
proof -
  have "card (dups s i) \<le> card {..<EFD_DUP_CAPACITY}" by (rule card_mono) (auto simp: dups_def)
  then show ?thesis by (simp add: EFD_DUP_CAPACITY_def)
qed

lemma alias_ok_set_object [simp]: "alias_ok (set_object i f s) j = alias_ok s j"
  by (simp add: alias_ok_def)

lemma object_ok_set_object:
  assumes "eventfds_ok s" "k < EFD_CAPACITY" "k = i \<Longrightarrow> object_ok (set_object i f s) i"
  shows "object_ok (set_object i f s) k"
  using assms by (cases "k = i") (auto simp: eventfds_ok_def object_ok_def holders_def)

lemma eventfds_ok_set_object:
  assumes "eventfds_ok s" "object_ok (set_object i f s) i"
  shows "eventfds_ok (set_object i f s)"
  using assms object_ok_set_object [OF assms(1)] by (auto simp: eventfds_ok_def)

text \<open>An update that keeps the fields the reference count is about.\<close>

lemma eventfds_ok_fields:
  assumes "eventfds_ok s" "used (f (objects s i)) = used (objects s i)" "descriptor (f (objects s i)) = descriptor (objects s i)"
    "descriptor_references (f (objects s i)) = descriptor_references (objects s i)" "counter (f (objects s i)) \<le> EVENTFD_MAX"
    "i < EFD_CAPACITY"
  shows "eventfds_ok (set_object i f s)"
  using assms by (intro eventfds_ok_set_object) (auto simp: eventfds_ok_def object_ok_def holders_def split: if_splits)

lemma find_alias_Some:
  assumes "find_eventfd_alias d s = Some j"
  shows "d = EFD_DUP_BASE + int j" "j < EFD_DUP_CAPACITY" "alias_used (aliases s j)" "alias_descriptor (aliases s j) = d"
    "\<exists>i. alias_object (aliases s j) = Some i \<and> used (objects s i)"
  using assms by (auto simp: find_eventfd_alias_def Let_def split: if_splits option.splits)

lemma find_alias_iff:
  assumes "eventfds_ok s"
  shows "find_eventfd_alias d s = Some j \<longleftrightarrow> d = EFD_DUP_BASE + int j \<and> j < EFD_DUP_CAPACITY \<and> alias_used (aliases s j)"
proof -
  have "alias_descriptor (aliases s j) = EFD_DUP_BASE + int j \<and> (\<exists>i. alias_object (aliases s j) = Some i \<and> used (objects s i))"
    if j: "j < EFD_DUP_CAPACITY" "alias_used (aliases s j)" for j
  proof -
    obtain i where i: "alias_descriptor (aliases s j) = EFD_DUP_BASE + int j" "i < EFD_CAPACITY" "alias_object (aliases s j) = Some i"
      using assms j by (auto simp: eventfds_ok_def alias_ok_def)
    then have "j \<in> dups s i" using j by (simp add: dups_def)
    then have "used (objects s i)" using assms i(2) by (auto simp: eventfds_ok_def object_ok_def split: if_splits)
    then show ?thesis using i by auto
  qed
  from this [of j] show ?thesis by (auto simp: find_eventfd_alias_def Let_def split: option.splits if_splits)
qed

lemma find_eventfd_Some:
  assumes "eventfds_ok s" "find_eventfd d s = Some i"
  shows "i < EFD_CAPACITY" "used (objects s i)"
    "find_eventfd_alias d s = None \<Longrightarrow> d = EFD_BASE + int i \<and> descriptor (objects s i) = d"
    "find_eventfd_alias d s = Some j \<Longrightarrow> j \<in> dups s i \<and> d = EFD_DUP_BASE + int j"
proof -
  have far: "find_eventfd_alias d s = None" if "d < EFD_BASE + int EFD_CAPACITY"
    using that by (simp add: find_eventfd_alias_def EFD_BASE_def EFD_CAPACITY_def EFD_DUP_BASE_def)
  have c: "(d = EFD_BASE + int i \<and> i < EFD_CAPACITY \<and> used (objects s i) \<and> descriptor (objects s i) = d \<and> find_eventfd_alias d s = None) \<or>
      (\<exists>j. find_eventfd_alias d s = Some j \<and> alias_object (aliases s j) = Some i)"
    using assms(2) far by (auto simp: find_eventfd_def split: if_splits option.splits)
  then have a: "i < EFD_CAPACITY \<and> used (objects s i) \<and>
      (\<forall>j. find_eventfd_alias d s = Some j \<longrightarrow> j \<in> dups s i \<and> d = EFD_DUP_BASE + int j)"
  proof
    assume "\<exists>j. find_eventfd_alias d s = Some j \<and> alias_object (aliases s j) = Some i"
    then obtain j where j: "find_eventfd_alias d s = Some j" "alias_object (aliases s j) = Some i" by blast
    note f = find_alias_Some [OF j(1)]
    have "i < EFD_CAPACITY" using assms(1) f(2,3) j(2) by (auto simp: eventfds_ok_def alias_ok_def)
    then show ?thesis using f j by (auto simp: dups_def)
  qed auto
  then show "i < EFD_CAPACITY" "used (objects s i)"
    "find_eventfd_alias d s = Some j \<Longrightarrow> j \<in> dups s i \<and> d = EFD_DUP_BASE + int j" by auto
  show "find_eventfd_alias d s = None \<Longrightarrow> d = EFD_BASE + int i \<and> descriptor (objects s i) = d" using c by auto
qed

text \<open>The descriptors that lead to an object.\<close>

lemma descriptors_of_object:
  assumes "eventfds_ok s" "i < EFD_CAPACITY"
  shows "card {d. find_eventfd d s = Some i} = (if used (objects s i) then unat (descriptor_references (objects s i)) else 0)"
proof (cases "used (objects s i)")
  case False
  then have "{d. find_eventfd d s = Some i} = {}" using find_eventfd_Some(2) [OF assms(1)] by auto
  then show ?thesis using False by simp
next
  case True
  let ?own = "if descriptor (objects s i) = EFD_BASE + int i then {EFD_BASE + int i} else {}"
  let ?dup = "(\<lambda>j. EFD_DUP_BASE + int j) ` dups s i"
  have "d \<in> ?own \<union> ?dup" if "find_eventfd d s = Some i" for d
    using find_eventfd_Some(3,4) [OF assms(1) that] by (cases "find_eventfd_alias d s") auto
  moreover have "find_eventfd d s = Some i" if "d \<in> ?own" for d
    using that True assms(2) by (auto simp: find_eventfd_def split: if_splits)
  moreover have "find_eventfd (EFD_DUP_BASE + int j) s = Some i" if "j \<in> dups s i" for j
  proof -
    have "find_eventfd_alias (EFD_DUP_BASE + int j) s = Some j" "alias_object (aliases s j) = Some i"
      using that by (auto simp: find_alias_iff [OF assms(1)] dups_def)
    then show ?thesis by (simp add: find_eventfd_def EFD_BASE_def EFD_CAPACITY_def EFD_DUP_BASE_def)
  qed
  ultimately have "{d. find_eventfd d s = Some i} = ?own \<union> ?dup" by blast
  moreover have "?own \<inter> ?dup = {}" using assms(2) by (auto simp: EFD_BASE_def EFD_DUP_BASE_def EFD_CAPACITY_def)
  moreover have "card ?dup = card (dups s i)" by (rule card_image) (auto simp: inj_on_def)
  ultimately have "card {d. find_eventfd d s = Some i} = holders s i"
    by (subst \<open>{d. find_eventfd d s = Some i} = _\<close>) (auto simp: card_Un_disjoint holders_def)
  then show ?thesis using True assms by (auto simp: eventfds_ok_def object_ok_def)
qed

lemma dups_set_alias:
  assumes "j < EFD_DUP_CAPACITY"
  shows "dups (set_alias j f s) i =
    (if alias_used (f (aliases s j)) \<and> alias_object (f (aliases s j)) = Some i then insert j (dups s i) else dups s i - {j})"
  using assms by (auto simp: dups_def)

lemma eventfd_ok:
  assumes "eventfds_ok s"
  shows "eventfds_ok (fst (snd (eventfd os v fl (s, w))))"
proof -
  have new: "eventfds_ok (set_object i (\<lambda>ob. ob\<lparr>used := True, descriptor := EFD_BASE + int i, read_fd := r, write_fd := wr,
      flags := fl, descriptor_flags := df, descriptor_references := 1, counter := ucast v\<rparr>) s)"
    and undo: "eventfds_ok (set_object i (\<lambda>ob. ob\<lparr>used := False, descriptor := -1, descriptor_references := 0\<rparr>)
      (set_object i (\<lambda>ob. ob\<lparr>used := True, descriptor := EFD_BASE + int i, read_fd := r, write_fd := wr,
      flags := fl, descriptor_flags := df, descriptor_references := 1, counter := ucast v\<rparr>) s))"
    if "i < EFD_CAPACITY" "\<not> used (objects s i)" for i r wr df
  proof -
    have d: "dups s i = {}" using assms that by (auto simp: eventfds_ok_def object_ok_def split: if_splits)
    have "uint (ucast v :: u64) = uint v" by (rule bit_eqI) (auto simp: bit_simps dest: bit_imp_le_length)
    then have "(ucast v :: u64) \<le> EVENTFD_MAX"
      using unsigned_less [where 'a = int, of v] by (simp add: word_le_def EVENTFD_MAX_def)
    then show new: "eventfds_ok (set_object i (\<lambda>ob. ob\<lparr>used := True, descriptor := EFD_BASE + int i, read_fd := r, write_fd := wr,
        flags := fl, descriptor_flags := df, descriptor_references := 1, counter := ucast v\<rparr>) s)"
      using d by (intro eventfds_ok_set_object [OF assms]) (simp add: object_ok_def holders_def)
    show "eventfds_ok (set_object i (\<lambda>ob. ob\<lparr>used := False, descriptor := -1, descriptor_references := 0\<rparr>)
        (set_object i (\<lambda>ob. ob\<lparr>used := True, descriptor := EFD_BASE + int i, read_fd := r, write_fd := wr,
        flags := fl, descriptor_flags := df, descriptor_references := 1, counter := ucast v\<rparr>) s))"
      using d by (intro eventfds_ok_set_object [OF new]) (simp add: object_ok_def holders_def)
  qed
  then show ?thesis
    using assms by (auto simp: eventfd_def Let_def find_from_Some split: if_splits option.splits sum.splits prod.splits)
qed

lemma eventfd_read_ok:
  assumes "eventfds_ok s"
  shows "eventfds_ok (fst (snd (akaos_eventfd_read os d b n (s, w))))"
proof (cases "find_eventfd d s")
  case (Some i)
  note i = find_eventfd_Some(1,2) [OF assms Some]
  then have c: "counter (objects s i) \<le> EVENTFD_MAX" using assms by (auto simp: eventfds_ok_def object_ok_def)
  then have "counter (objects s i) - 1 \<le> EVENTFD_MAX" if "0 < counter (objects s i)"
    using that unat_dec_nz [of "counter (objects s i)"] by (simp add: word_le_nat_alt word_neq_0_conv)
  then have "eventfds_ok (set_object i (\<lambda>ob. ob\<lparr>counter := (if sem then if counter ob > 0 then counter ob - 1 else counter ob else 0)\<rparr>) s)" for sem
    using c i by (intro eventfds_ok_fields [OF assms]) auto
  then show ?thesis
    using assms by (auto simp: akaos_eventfd_read_def Some Let_def split: if_splits sum.splits prod.splits)
qed (use assms in \<open>simp add: akaos_eventfd_read_def\<close>)

lemma unat_minus_one64: "unat (-1 :: u64) = 2 ^ 64 - 1"
proof -
  have "(-1 :: u64) = 0xffffffffffffffff" by simp
  then show ?thesis by (simp only:) simp
qed

lemma eventfd_room:
  assumes "a \<noteq> -1" "c \<le> EVENTFD_MAX - a"
  shows "unat (c + a) = unat c + unat a" "unat c + unat a \<le> unat EVENTFD_MAX"
proof -
  have "unat a \<noteq> 2 ^ 64 - 1" using assms(1) by (simp only: word_unat_eq_iff unat_minus_one64) simp
  then have a: "a \<le> EVENTFD_MAX" using unsigned_less [where 'a = nat, of a] by (simp add: word_le_nat_alt EVENTFD_MAX_def)
  then have "unat c + unat a \<le> unat EVENTFD_MAX" using assms(2) by (simp add: word_le_nat_alt unat_sub)
  then show "unat (c + a) = unat c + unat a" "unat c + unat a \<le> unat EVENTFD_MAX"
    by (simp_all add: EVENTFD_MAX_def unat_word_ariths)
qed

lemma eventfd_write_ok:
  assumes "eventfds_ok s"
  shows "eventfds_ok (fst (snd (akaos_eventfd_write os d b n (s, w))))"
proof (cases "find_eventfd d s")
  case (Some i)
  note i = find_eventfd_Some(1,2) [OF assms Some]
  then have c: "counter (objects s i) \<le> EVENTFD_MAX" using assms by (auto simp: eventfds_ok_def object_ok_def)
  have "eventfds_ok (set_object i (\<lambda>ob. ob\<lparr>counter := counter ob + a\<rparr>) s)"
    if "a \<noteq> -1" "counter (objects s i) \<le> EVENTFD_MAX - a" for a
  proof -
    have "counter (objects s i) + a \<le> EVENTFD_MAX" using eventfd_room [OF that] by (simp add: word_le_nat_alt)
    then show ?thesis using i by (intro eventfds_ok_fields [OF assms]) auto
  qed
  moreover have "set_object i (\<lambda>ob. ob\<lparr>counter := counter ob - a\<rparr>) (set_object i (\<lambda>ob. ob\<lparr>counter := counter ob + a\<rparr>) s) = s" for a
    by (simp add: set_object_def)
  ultimately show ?thesis
    using assms by (auto simp: akaos_eventfd_write_def Some Let_def not_less split: if_splits sum.splits prod.splits option.splits)
qed (use assms in \<open>simp add: akaos_eventfd_write_def\<close>)

lemma eventfd_fcntl_ok:
  assumes "eventfds_ok s"
  shows "eventfds_ok (snd (akaos_eventfd_fcntl d c a s))"
proof (cases "find_eventfd d s")
  case (Some i)
  note i = find_eventfd_Some(1,2) [OF assms Some]
  have cnt: "counter (objects s i) \<le> EVENTFD_MAX" using assms i by (auto simp: eventfds_ok_def object_ok_def)
  have "eventfds_ok (set_object i (\<lambda>ob. ob\<lparr>descriptor_flags := x\<rparr>) s)" "eventfds_ok (set_object i (\<lambda>ob. ob\<lparr>flags := g ob\<rparr>) s)" for x g
    using cnt i by (intro eventfds_ok_fields [OF assms]; simp)+
  moreover have "eventfds_ok (set_alias j (\<lambda>a. a\<lparr>alias_flags := x\<rparr>) s)" for j x
  proof -
    have "dups (set_alias j (\<lambda>a. a\<lparr>alias_flags := x\<rparr>) s) k = dups s k" for k by (auto simp: dups_def)
    then show ?thesis using assms by (auto simp: eventfds_ok_def object_ok_def alias_ok_def holders_def)
  qed
  moreover have "eventfds_ok (set_object i (\<lambda>ob. ob\<lparr>descriptor_references := descriptor_references ob + 1\<rparr>)
      (set_alias j (\<lambda>_. \<lparr>alias_used = True, alias_descriptor = EFD_DUP_BASE + int j, alias_flags = x, alias_object = Some i\<rparr>) s))"
    if j: "j < EFD_DUP_CAPACITY" "\<not> alias_used (aliases s j)" for j x
  proof -
    let ?t = "set_alias j (\<lambda>_. \<lparr>alias_used = True, alias_descriptor = EFD_DUP_BASE + int j, alias_flags = x, alias_object = Some i\<rparr>) s"
    have nd: "j \<notin> dups s k" for k using j(2) by (simp add: dups_def)
    then have dk: "dups ?t k = (if k = i then insert j (dups s i) else dups s k)" for k
      using dups_set_alias [OF j(1)] by auto
    have al: "alias_ok ?t k" if "k < EFD_DUP_CAPACITY" for k using that assms i(1) by (auto simp: alias_ok_def eventfds_ok_def)
    let ?f = "\<lambda>ob :: eventfd_object. ob\<lparr>descriptor_references := descriptor_references ob + 1\<rparr>"
    have r: "unat (descriptor_references (objects s i)) = holders s i" using assms i by (auto simp: eventfds_ok_def object_ok_def)
    have "holders s i \<le> 17" using card_dups [of s i] by (simp add: holders_def)
    then have "unat (descriptor_references (objects s i) + 1) = Suc (holders s i)"
      using r by (simp add: unat_word_ariths)
    moreover have "holders (set_object i ?f ?t) i = Suc (holders s i)" by (simp add: holders_def dk nd)
    ultimately have "object_ok (set_object i ?f ?t) i" using i(2) cnt by (simp add: object_ok_def)
    moreover have "object_ok (set_object i ?f ?t) k" if "k < EFD_CAPACITY" "k \<noteq> i" for k
      using that assms by (auto simp: object_ok_def holders_def dk eventfds_ok_def)
    ultimately have "object_ok (set_object i ?f ?t) k" if "k < EFD_CAPACITY" for k using that by (cases "k = i") auto
    then show ?thesis using al by (simp only: eventfds_ok_def alias_ok_set_object) blast
  qed
  ultimately show ?thesis
    using assms by (auto simp: akaos_eventfd_fcntl_def Some Let_def find_from_Some split: if_splits option.splits)
qed (use assms in \<open>simp add: akaos_eventfd_fcntl_def\<close>)

text \<open>One descriptor of an object disappears: what is left of the invariant before the count is lowered.\<close>

definition one_less :: "eventfds \<Rightarrow> eventfds \<Rightarrow> nat \<Rightarrow> bool" where
  "one_less s t i \<longleftrightarrow> (\<forall>k < EFD_CAPACITY. k \<noteq> i \<longrightarrow> object_ok t k) \<and> (\<forall>j < EFD_DUP_CAPACITY. alias_ok t j) \<and>
     used (objects t i) \<and> descriptor_references (objects t i) = descriptor_references (objects s i) \<and>
     counter (objects t i) = counter (objects s i) \<and> Suc (holders t i) = holders s i"

lemma one_less_alias:
  assumes "eventfds_ok s" "find_eventfd d s = Some i" "find_eventfd_alias d s = Some j"
  shows "one_less s (set_alias j (\<lambda>_. \<lparr>alias_used = False, alias_descriptor = -1, alias_flags = 0, alias_object = None\<rparr>) s) i"
proof -
  have j: "j \<in> dups s i" "j < EFD_DUP_CAPACITY" and i: "i < EFD_CAPACITY" "used (objects s i)"
    using find_eventfd_Some [OF assms(1,2)] assms(3) find_alias_Some(2) [OF assms(3)] by auto
  let ?t = "set_alias j (\<lambda>_. \<lparr>alias_used = False, alias_descriptor = -1, alias_flags = 0, alias_object = None\<rparr>) s"
  have d: "dups ?t k = dups s k - {j}" for k using dups_set_alias [OF j(2)] by simp
  have "dups ?t k = dups s k" if "k \<noteq> i" for k using j(1) that by (auto simp: d) (simp add: dups_def)
  moreover have "Suc (holders ?t i) = holders s i"
    using j(1) card_Suc_Diff1 [of "dups s i" j] by (simp add: holders_def d)
  ultimately show ?thesis
    using assms(1) i by (auto simp: one_less_def eventfds_ok_def object_ok_def alias_ok_def holders_def)
qed

lemma one_less_own:
  assumes "eventfds_ok s" "find_eventfd d s = Some i" "find_eventfd_alias d s = None"
  shows "one_less s (set_object i (\<lambda>ob. ob\<lparr>descriptor := -1, descriptor_flags := 0\<rparr>) s) i"
  using assms(1) find_eventfd_Some(1,2,3) [OF assms(1,2)] assms(3)
  by (auto simp: one_less_def eventfds_ok_def object_ok_def holders_def EFD_BASE_def)

lemma eventfd_close_ok:
  assumes "eventfds_ok s"
  shows "eventfds_ok (fst (snd (akaos_eventfd_close os d (s, w))))"
proof (cases "find_eventfd d s")
  case (Some i)
  note i = find_eventfd_Some(1,2) [OF assms Some]
  define t where "t = (case find_eventfd_alias d s of
      Some j \<Rightarrow> set_alias j (\<lambda>_. \<lparr>alias_used = False, alias_descriptor = -1, alias_flags = 0, alias_object = None\<rparr>) s
    | None \<Rightarrow> set_object i (\<lambda>ob. ob\<lparr>descriptor := -1, descriptor_flags := 0\<rparr>) s)"
  have t: "one_less s t i"
    using one_less_alias [OF assms Some] one_less_own [OF assms Some] by (auto simp: t_def split: option.split)
  then have tk: "\<And>k. k < EFD_CAPACITY \<Longrightarrow> k \<noteq> i \<Longrightarrow> object_ok t k" "\<And>j. j < EFD_DUP_CAPACITY \<Longrightarrow> alias_ok t j"
    "used (objects t i)" "descriptor_references (objects t i) = descriptor_references (objects s i)"
    "counter (objects t i) \<le> EVENTFD_MAX" "unat (descriptor_references (objects s i)) = Suc (holders t i)"
    using assms i by (auto simp: one_less_def eventfds_ok_def object_ok_def)
  then have pos: "0 < descriptor_references (objects t i)" and dec: "unat (descriptor_references (objects t i) - 1) = holders t i"
    using unat_dec_nz [of "descriptor_references (objects t i)"] by (auto simp: word_less_nat_alt word_unat_eq_iff)
  let ?dec = "\<lambda>ob :: eventfd_object. ob\<lparr>descriptor_references := descriptor_references ob - 1\<rparr>"
  let ?free = "\<lambda>ob :: eventfd_object. ob\<lparr>used := False, read_fd := -1, write_fd := -1, flags := 0, counter := 0\<rparr>"
  have ok: "eventfds_ok (set_object i f t)" if "object_ok (set_object i f t) i" for f
  proof -
    have "object_ok (set_object i f t) k" if "k < EFD_CAPACITY" "k \<noteq> i" for k
      using tk(1) [OF that] that(2) by (auto simp: object_ok_def holders_def split: if_splits)
    then have "object_ok (set_object i f t) k" if "k < EFD_CAPACITY" for k using that \<open>object_ok (set_object i f t) i\<close> by (cases "k = i") auto
    then show ?thesis using tk(2) by (simp add: eventfds_ok_def)
  qed
  have twice: "set_object i ?free (set_object i ?dec t) = set_object i (?free \<circ> ?dec) t" by (simp add: set_object_def)
  have more: "eventfds_ok (set_object i ?dec t)" if "descriptor_references (objects t i) - 1 \<noteq> 0"
  proof -
    have "0 < holders t i" using that dec by (metis unat_eq_0 gr0I)
    then show ?thesis using dec tk(3,5) by (intro ok) (simp add: object_ok_def holders_def)
  qed
  have last: "eventfds_ok (set_object i ?free (set_object i ?dec t))" if "descriptor_references (objects t i) - 1 = 0"
  proof -
    have "holders t i = 0" using that dec by (metis unat_0)
    then show ?thesis unfolding twice by (intro ok) (simp add: object_ok_def holders_def)
  qed
  from more last show ?thesis
    using pos by (auto simp: akaos_eventfd_close_def Some Let_def t_def [symmetric])
qed (use assms in \<open>simp add: akaos_eventfd_close_def\<close>)

section \<open>The claims\<close>

text \<open>The calls a program makes, in any order, on any system.\<close>

inductive eventfd_step :: "'w pipe_calls \<Rightarrow> eventfds \<times> 'w \<Rightarrow> eventfds \<times> 'w \<Rightarrow> bool" for os where
  Open: "eventfd_step os st (snd (eventfd os v fl st))"
| Read: "eventfd_step os st (snd (akaos_eventfd_read os d b n st))"
| Write: "eventfd_step os st (snd (akaos_eventfd_write os d buf n st))"
| Fcntl: "eventfd_step os (s, w) (snd (akaos_eventfd_fcntl d c a s), w)"
| Close: "eventfd_step os st (snd (akaos_eventfd_close os d st))"

inductive eventfd_reachable :: "'w pipe_calls \<Rightarrow> eventfds \<times> 'w \<Rightarrow> bool" for os where
  Start: "(\<And>i. \<not> used (objects s i)) \<Longrightarrow> (\<And>j. \<not> alias_used (aliases s j)) \<Longrightarrow> eventfd_reachable os (s, w)"
| Step: "eventfd_reachable os st \<Longrightarrow> eventfd_step os st st' \<Longrightarrow> eventfd_reachable os st'"

lemma eventfd_step_ok: "eventfd_step os st st' \<Longrightarrow> eventfds_ok (fst st) \<Longrightarrow> eventfds_ok (fst st')"
  by (induction rule: eventfd_step.induct)
    (metis eventfd_ok eventfd_read_ok eventfd_write_ok eventfd_fcntl_ok eventfd_close_ok fst_conv prod.collapse)+

lemma eventfd_reachable_ok: "eventfd_reachable os st \<Longrightarrow> eventfds_ok (fst st)"
proof (induction rule: eventfd_reachable.induct)
  case (Start s w)
  then show ?case by (simp add: eventfds_ok_def object_ok_def alias_ok_def dups_def)
next
  case (Step st st')
  then show ?case using eventfd_step_ok by blast
qed

text \<open>
  C19. In every state the calls can lead to, whatever the pipes answer, the reference count of an object in use is the
  number of descriptors, original and duplicated, that lead to it, it is not zero, and no descriptor leads to an object
  that is not in use; the counter stays below the largest 64-bit number.
\<close>

theorem eventfd_references_exact:
  assumes "eventfd_reachable os (s, w)" "i < EFD_CAPACITY"
  shows "card {d. find_eventfd d s = Some i} = (if used (objects s i) then unat (descriptor_references (objects s i)) else 0) \<and>
    (used (objects s i) \<longrightarrow> descriptor_references (objects s i) \<noteq> 0 \<and> counter (objects s i) \<le> EVENTFD_MAX)"
proof -
  have ok: "eventfds_ok s" using eventfd_reachable_ok [OF assms(1)] by simp
  then have "object_ok s i" using assms(2) by (simp add: eventfds_ok_def)
  then have "used (objects s i) \<longrightarrow> descriptor_references (objects s i) \<noteq> 0 \<and> counter (objects s i) \<le> EVENTFD_MAX"
    by (auto simp: object_ok_def)
  then show ?thesis using descriptors_of_object [OF ok assms(2)] by simp
qed

definition demo_pipes :: "nat pipe_calls" where
  "demo_pipes = \<lparr>pipe = (\<lambda>w. (Inr (int w, int w + 1), w + 2)), read_byte = (\<lambda>_ w. (Inr 1, w)),
     write_byte = (\<lambda>_ w. (Inr 1, w)), close_fd = (\<lambda>_ w. w)\<rparr>"

definition no_eventfds :: eventfds where
  "no_eventfds = \<lparr>objects = (\<lambda>_. \<lparr>used = False, descriptor = 0, read_fd = 0, write_fd = 0, flags = 0, descriptor_flags = 0,
     descriptor_references = 0, counter = 0\<rparr>),
   aliases = (\<lambda>_. \<lparr>alias_used = False, alias_descriptor = 0, alias_flags = 0, alias_object = None\<rparr>)\<rparr>"

definition one_eventfd :: eventfds where
  "one_eventfd = fst (snd (eventfd demo_pipes 7 0 (no_eventfds, 3)))"

definition two_descriptors :: eventfds where
  "two_descriptors = snd (akaos_eventfd_fcntl 1032 F_DUPFD 0 one_eventfd)"

lemma one_eventfd: "one_eventfd = set_object 0 (\<lambda>_. \<lparr>used = True, descriptor = 1032, read_fd = 3, write_fd = 4, flags = 0,
    descriptor_flags = 0, descriptor_references = 1, counter = 7\<rparr>) no_eventfds"
  by (simp add: one_eventfd_def eventfd_def no_eventfds_def demo_pipes_def EFD_CAPACITY_def find_from.simps Let_def
      eventfd_signal_def set_object_def EFD_BASE_def)

lemma two_descriptors: "used (objects two_descriptors 0)" "descriptor_references (objects two_descriptors 0) = 2"
  by (simp_all add: two_descriptors_def one_eventfd akaos_eventfd_fcntl_def find_eventfd_def EFD_BASE_def EFD_CAPACITY_def
      F_DUPFD_def F_GETFD_def F_SETFD_def F_GETFL_def F_SETFL_def F_DUPFD_CLOEXEC_def Let_def EFD_DUP_CAPACITY_def
      find_from.simps EFD_DUP_BASE_def no_eventfds_def)

lemma two_descriptors_reachable: "eventfd_reachable demo_pipes (two_descriptors, 5)"
proof -
  have "snd (eventfd demo_pipes 7 0 (no_eventfds, 3)) = (one_eventfd, 5)"
    by (simp add: one_eventfd_def eventfd_def no_eventfds_def demo_pipes_def EFD_CAPACITY_def find_from.simps Let_def eventfd_signal_def)
  then have "eventfd_reachable demo_pipes (one_eventfd, 5)"
    by (metis eventfd_reachable.intros eventfd_step.Open no_eventfds_def eventfd_alias.select_convs(1) eventfd_object.select_convs(1) eventfds.select_convs(1,2))
  then show ?thesis unfolding two_descriptors_def by (metis eventfd_reachable.Step eventfd_step.Fcntl)
qed

theorem eventfd_references_exact_witness: "card {d. find_eventfd d two_descriptors = Some 0} = 2"
  using eventfd_references_exact [OF two_descriptors_reachable, of 0] by (simp add: two_descriptors EFD_CAPACITY_def)







end
