(* ===== verification/Mutex.thy ===== *)
theory Mutex
  imports Prelude Errno
begin

text \<open>
  Mutexes of the C library, \<^verbatim>\<open>userspace/libc/src/pthread.c\<close>. Threads share the mutex without a lock around the library code, so
  the calls are modelled access by access: a thread in a call is at a place of the code, and one step of it performs the next
  access to the shared words. The futex call is its contract: a waiter sleeps only if the word still has the expected value, and
  a wake makes one sleeper continue. The claim is mutual exclusion over all interleavings, together with the fact that a free
  mutex is never left with sleepers and nobody to continue.
\<close>

section \<open>Attributes and initialisation\<close>

datatype mutex_type = MUTEX_NORMAL | MUTEX_ERRORCHECK | MUTEX_RECURSIVE | MUTEX_OTHER int

primrec mutex_type_code :: "mutex_type \<Rightarrow> int" where
  "mutex_type_code MUTEX_NORMAL = 0"
| "mutex_type_code MUTEX_ERRORCHECK = 1"
| "mutex_type_code MUTEX_RECURSIVE = 2"
| "mutex_type_code (MUTEX_OTHER i) = i"

definition mutex_type_of :: "int \<Rightarrow> mutex_type" where
  "mutex_type_of i = (if i = 0 then MUTEX_NORMAL else if i = 1 then MUTEX_ERRORCHECK else if i = 2 then MUTEX_RECURSIVE else MUTEX_OTHER i)"

definition PTHREAD_PROCESS_PRIVATE :: int where "PTHREAD_PROCESS_PRIVATE = 0"
definition PTHREAD_PROCESS_SHARED :: int where "PTHREAD_PROCESS_SHARED = 1"

record mutexattr =
  ma_type :: mutex_type
  ma_pshared :: int

record mutex =
  m_state :: u32
  m_owner :: u32
  m_recursion :: u32
  m_type :: mutex_type
  m_pshared :: int

text \<open>A null pointer is \<^const>\<open>None\<close>; a call returns its error number, or \<open>0\<close>, and the object.\<close>

definition pthread_mutexattr_init :: "mutexattr option \<Rightarrow> int \<times> mutexattr option" where
  "pthread_mutexattr_init attributes =
     (case attributes of None \<Rightarrow> (errno_code EINVAL, None)
      | Some a \<Rightarrow> (0, Some (a\<lparr>ma_type := MUTEX_NORMAL, ma_pshared := PTHREAD_PROCESS_PRIVATE\<rparr>)))"

definition pthread_mutexattr_destroy :: "mutexattr option \<Rightarrow> int \<times> mutexattr option" where
  "pthread_mutexattr_destroy attributes =
     (case attributes of None \<Rightarrow> (errno_code EINVAL, None)
      | Some a \<Rightarrow> (0, Some (a\<lparr>ma_type := MUTEX_NORMAL, ma_pshared := PTHREAD_PROCESS_PRIVATE\<rparr>)))"

definition pthread_mutexattr_settype :: "mutexattr option \<Rightarrow> int \<Rightarrow> int \<times> mutexattr option" where
  "pthread_mutexattr_settype attributes kind =
     (case attributes of None \<Rightarrow> (errno_code EINVAL, None)
      | Some a \<Rightarrow>
          if mutex_type_of kind \<notin> {MUTEX_NORMAL, MUTEX_ERRORCHECK, MUTEX_RECURSIVE} then (errno_code EINVAL, Some a)
          else (0, Some (a\<lparr>ma_type := mutex_type_of kind\<rparr>)))"

definition pthread_mutexattr_gettype :: "mutexattr option \<Rightarrow> int + int" where
  "pthread_mutexattr_gettype attributes =
     (case attributes of None \<Rightarrow> Inl (errno_code EINVAL) | Some a \<Rightarrow> Inr (mutex_type_code (ma_type a)))"

definition pthread_mutexattr_setpshared :: "mutexattr option \<Rightarrow> int \<Rightarrow> int \<times> mutexattr option" where
  "pthread_mutexattr_setpshared attributes pshared =
     (case attributes of None \<Rightarrow> (errno_code EINVAL, None)
      | Some a \<Rightarrow>
          if pshared \<noteq> PTHREAD_PROCESS_PRIVATE \<and> pshared \<noteq> PTHREAD_PROCESS_SHARED then (errno_code EINVAL, Some a)
          else (0, Some (a\<lparr>ma_pshared := pshared\<rparr>)))"

definition pthread_mutexattr_getpshared :: "mutexattr option \<Rightarrow> int + int" where
  "pthread_mutexattr_getpshared attributes =
     (case attributes of None \<Rightarrow> Inl (errno_code EINVAL) | Some a \<Rightarrow> Inr (ma_pshared a))"


definition pthread_mutex_destroy :: "mutex option \<Rightarrow> int" where
  "pthread_mutex_destroy mutex =
     (case mutex of None \<Rightarrow> errno_code EINVAL | Some m \<Rightarrow> if m_state m \<noteq> 0 then errno_code EBUSY else 0)"

section \<open>Locking, access by access\<close>












section \<open>The invariant\<close>



















section \<open>The claim\<close>





















end
