(* ===== verification/Wide_String.thy ===== *)
theory Wide_String
  imports C_String "HOL-Library.Signed_Division"
begin

unbundle bit_operations_syntax

text \<open>
  Multibyte and wide characters of \<^verbatim>\<open>userspace/libc/src/string.c\<close>: the strict UTF-8 codec
  with its \<^verbatim>\<open>mb*\<close>/\<^verbatim>\<open>wc*\<close> interface, the \<^verbatim>\<open>wcs*\<close> and \<^verbatim>\<open>wmem*\<close> functions and the wide
  character classes. Arrays of \<^verbatim>\<open>wchar_t\<close> (a signed 32-bit integer) are a store of their own,
  indexed by element, since they never share bytes with \<^verbatim>\<open>char\<close> arrays. A pointer argument
  that may be null and is only written through is an optional result. The locale enters as
  \<open>mb_cur_max\<close>, the value of \<^verbatim>\<open>__akaos_mb_cur_max()\<close>.
\<close>

section \<open>The UTF-8 codec\<close>

type_synonym wmemory = "u64 \<Rightarrow> u32"

text \<open>The result of \<^verbatim>\<open>utf8_decode\<close>: 1, -1, or 0 with the code point and the width.\<close>

datatype utf8_result = Utf8_incomplete | Utf8_invalid | Utf8_ok u32 nat

definition utf8_lead :: "u8 \<Rightarrow> (u32 \<times> nat) option" where
  "utf8_lead first =
     (if first < 0x80 then Some (ucast first, 1)
      else if first \<ge> 0xc2 \<and> first \<le> 0xdf then Some (ucast (first AND 0x1f), 2)
      else if first \<ge> 0xe0 \<and> first \<le> 0xef then Some (ucast (first AND 0x0f), 3)
      else if first \<ge> 0xf0 \<and> first \<le> 0xf4 then Some (ucast (first AND 0x07), 4)
      else None)"

definition utf8_step :: "u8 \<Rightarrow> u32 option \<Rightarrow> u32 option" where
  "utf8_step byte cp =
     (case cp of None \<Rightarrow> None
      | Some codepoint \<Rightarrow>
          if byte AND 0xc0 \<noteq> 0x80 then None
          else Some (push_bit 6 codepoint OR ucast (byte AND 0x3f)))"

definition utf8_bad :: "nat \<Rightarrow> u32 \<Rightarrow> bool" where
  "utf8_bad width codepoint \<longleftrightarrow>
     (width = 3 \<and> codepoint < 0x800) \<or> (width = 4 \<and> codepoint < 0x10000) \<or>
     codepoint > 0x10ffff \<or> (codepoint \<ge> 0xd800 \<and> codepoint \<le> 0xdfff)"

definition utf8_decode :: "u64 \<Rightarrow> u64 \<Rightarrow> memory \<Rightarrow> utf8_result" where
  "utf8_decode bytes len m =
     (if bytes = 0 \<or> len = 0 then Utf8_incomplete
      else
        case utf8_lead (m bytes) of None \<Rightarrow> Utf8_invalid
        | Some (codepoint, width) \<Rightarrow>
            if len < of_nat width then Utf8_incomplete
            else
              case fold (\<lambda>i. utf8_step (m (bytes + of_nat i))) [1..<width] (Some codepoint) of
                None \<Rightarrow> Utf8_invalid
              | Some codepoint \<Rightarrow>
                  if utf8_bad width codepoint then Utf8_invalid else Utf8_ok codepoint width)"

text \<open>\<^verbatim>\<open>mbrtowc\<close>: the result, what is stored through \<^verbatim>\<open>wide_character\<close>, and the conversion state.\<close>

definition mbrtowc :: "u64 \<Rightarrow> u64 \<Rightarrow> u64 \<Rightarrow> u32 option \<Rightarrow> memory \<Rightarrow> u64 \<times> u32 option \<times> u32 option" where
  "mbrtowc mb_cur_max multibyte len state m =
     (let state = map_option (\<lambda>_. 0) state in
      if multibyte = 0 then (0, None, state)
      else if mb_cur_max = 1 \<and> m multibyte > 0x7f then (-1, None, state)
      else
        case utf8_decode multibyte len m of
          Utf8_incomplete \<Rightarrow> (-2, None, state)
        | Utf8_invalid \<Rightarrow> (-1, None, state)
        | Utf8_ok codepoint consumed \<Rightarrow>
            (if codepoint = 0 then 0 else of_nat consumed, Some codepoint, state))"

definition utf8_encode :: "u64 \<Rightarrow> u32 \<Rightarrow> u8 list option" where
  "utf8_encode mb_cur_max codepoint =
     (if mb_cur_max = 1 \<and> codepoint > 0x7f then None
      else if codepoint > 0x10ffff \<or> (codepoint \<ge> 0xd800 \<and> codepoint \<le> 0xdfff) then None
      else if codepoint < 0x80 then Some [ucast codepoint]
      else if codepoint < 0x800 then
        Some [ucast (0xc0 OR drop_bit 6 codepoint), ucast (0x80 OR (codepoint AND 0x3f))]
      else if codepoint < 0x10000 then
        Some [ucast (0xe0 OR drop_bit 12 codepoint), ucast (0x80 OR (drop_bit 6 codepoint AND 0x3f)),
              ucast (0x80 OR (codepoint AND 0x3f))]
      else
        Some [ucast (0xf0 OR drop_bit 18 codepoint), ucast (0x80 OR (drop_bit 12 codepoint AND 0x3f)),
              ucast (0x80 OR (drop_bit 6 codepoint AND 0x3f)), ucast (0x80 OR (codepoint AND 0x3f))])"

primrec store_bytes :: "u64 \<Rightarrow> 'a list \<Rightarrow> (u64 \<Rightarrow> 'a) \<Rightarrow> u64 \<Rightarrow> 'a" where
  "store_bytes p [] m = m"
| "store_bytes p (b # bs) m = store_bytes (p + 1) bs (m(p := b))"

definition wcrtomb :: "u64 \<Rightarrow> u64 \<Rightarrow> u32 \<Rightarrow> u32 option \<Rightarrow> memory \<Rightarrow> u64 \<times> u32 option \<times> memory" where
  "wcrtomb mb_cur_max multibyte wide_character state m =
     (let state = map_option (\<lambda>_. 0) state in
      if multibyte = 0 then (1, state, m)
      else
        case utf8_encode mb_cur_max wide_character of
          None \<Rightarrow> (-1, state, m)
        | Some bs \<Rightarrow> (of_nat (length bs), state, store_bytes multibyte bs m))"

definition mbtowc :: "u64 \<Rightarrow> u64 \<Rightarrow> u64 \<Rightarrow> memory \<Rightarrow> int \<times> u32 option" where
  "mbtowc mb_cur_max multibyte len m =
     (if multibyte = 0 then (0, None)
      else
        let (converted, wide_character, _) = mbrtowc mb_cur_max multibyte len None m in
        if converted = -1 \<or> converted = -2 then (-1, wide_character)
        else (if converted = 0 then 0 else sint (ucast converted :: u32), wide_character))"

definition mbrlen :: "u64 \<Rightarrow> u64 \<Rightarrow> u64 \<Rightarrow> u32 option \<Rightarrow> memory \<Rightarrow> u64 \<times> u32 option" where
  "mbrlen mb_cur_max multibyte len state m =
     (let (r, _, state) = mbrtowc mb_cur_max multibyte len state m in (r, state))"

definition mblen :: "u64 \<Rightarrow> u64 \<Rightarrow> u64 \<Rightarrow> memory \<Rightarrow> int" where
  "mblen mb_cur_max multibyte len m =
     (let (result, _) = mbrlen mb_cur_max multibyte len None m in
      if result = -1 \<or> result = -2 then -1 else sint (ucast result :: u32))"

definition btowc :: "int \<Rightarrow> u32" where
  "btowc character = (if character < 0 \<or> character > 0x7f then -1 else word_of_int character)"

definition wctob :: "u32 \<Rightarrow> int" where
  "wctob character = (if character \<le> 0x7f then uint character else -1)"

definition wctomb :: "u64 \<Rightarrow> u64 \<Rightarrow> u32 \<Rightarrow> memory \<Rightarrow> int \<times> memory" where
  "wctomb mb_cur_max multibyte character m =
     (if multibyte = 0 then (0, m)
      else
        let (result, _, m) = wcrtomb mb_cur_max multibyte character None m
        in (if result = -1 then -1 else sint (ucast result :: u32), m))"

section \<open>Conversion of strings\<close>

text \<open>
  The loop of \<^verbatim>\<open>mbsnrtowcs\<close>. \<open>wide = 0\<close> is the counting mode; the source pointer is
  stored back only when \<open>wide\<close> is not null.
\<close>

partial_function (option) mbsnrtowcs_loop ::
  "u64 \<Rightarrow> u64 \<Rightarrow> u64 \<Rightarrow> u64 \<Rightarrow> u64 \<Rightarrow> memory \<Rightarrow> u64 \<Rightarrow> u64 \<Rightarrow> u32 option \<Rightarrow> wmemory \<Rightarrow>
   (u64 \<times> u64 \<times> u32 option \<times> wmemory) option" where
  "mbsnrtowcs_loop cur wide input bytes count m consumed_bytes converted state w =
     (if consumed_bytes < bytes \<and> (wide = 0 \<or> converted < count) then
        let (amount, value, state) = mbrtowc cur (input + consumed_bytes) (bytes - consumed_bytes) state m in
        if amount = -1 then Some (amount, input, state, w)
        else if amount = -2 then
          Some (converted, if wide \<noteq> 0 then input + consumed_bytes else input, state, w)
        else if amount = 0 then
          Some (if wide \<noteq> 0 then (converted, 0, state, w(wide + converted := 0))
                else (converted, input, state, w))
        else
          mbsnrtowcs_loop cur wide input bytes count m (consumed_bytes + amount) (converted + 1) state
            (if wide \<noteq> 0 then w(wide + converted := (case value of None \<Rightarrow> 0 | Some v \<Rightarrow> v)) else w)
      else Some (converted, if wide \<noteq> 0 then input + consumed_bytes else input, state, w))"

definition mbsnrtowcs ::
  "u64 \<Rightarrow> u64 \<Rightarrow> u64 option \<Rightarrow> u64 \<Rightarrow> u64 \<Rightarrow> u32 option \<Rightarrow> memory \<Rightarrow> wmemory \<Rightarrow>
   (u64 \<times> u64 option \<times> u32 option \<times> wmemory) option" where
  "mbsnrtowcs cur wide multibyte bytes count state m w =
     (case multibyte of
        None \<Rightarrow> Some (-1, None, state, w)
      | Some input \<Rightarrow>
          if input = 0 then Some (-1, multibyte, state, w)
          else map_option (\<lambda>(r, p, state, w). (r, Some p, state, w))
                 (mbsnrtowcs_loop cur wide input bytes count m 0 0 state w))"

partial_function (option) wcsnrtombs_loop ::
  "u64 \<Rightarrow> u64 \<Rightarrow> u64 \<Rightarrow> u64 \<Rightarrow> u64 \<Rightarrow> wmemory \<Rightarrow> u64 \<Rightarrow> u64 \<Rightarrow> u32 option \<Rightarrow> memory \<Rightarrow>
   (u64 \<times> u64 \<times> u32 option \<times> memory) option" where
  "wcsnrtombs_loop cur multibyte input count bytes w converted out state m =
     (if converted < count then
        if w (input + converted) = 0 then
          Some (if multibyte \<noteq> 0 \<and> out < bytes then (out, 0, state, m(multibyte + out := 0))
                else (out, input, state, m))
        else
          let state = map_option (\<lambda>_. 0) state in
          case utf8_encode cur (w (input + converted)) of
            None \<Rightarrow> Some (-1, input, state, m)
          | Some encoded \<Rightarrow>
              if multibyte \<noteq> 0 \<and> of_nat (length encoded) > bytes - out
              then Some (out, input + converted, state, m)
              else
                wcsnrtombs_loop cur multibyte input count bytes w (converted + 1)
                  (out + of_nat (length encoded)) state
                  (if multibyte \<noteq> 0 then store_bytes (multibyte + out) encoded m else m)
      else Some (out, if multibyte \<noteq> 0 then input + converted else input, state, m))"

definition wcsnrtombs ::
  "u64 \<Rightarrow> u64 \<Rightarrow> u64 option \<Rightarrow> u64 \<Rightarrow> u64 \<Rightarrow> u32 option \<Rightarrow> wmemory \<Rightarrow> memory \<Rightarrow>
   (u64 \<times> u64 option \<times> u32 option \<times> memory) option" where
  "wcsnrtombs cur multibyte wide count bytes state w m =
     (case wide of
        None \<Rightarrow> Some (-1, None, state, m)
      | Some input \<Rightarrow>
          if input = 0 then Some (-1, wide, state, m)
          else map_option (\<lambda>(r, p, state, m). (r, Some p, state, m))
                 (wcsnrtombs_loop cur multibyte input count bytes w 0 0 state m))"

definition mbsrtowcs ::
  "u64 \<Rightarrow> u64 \<Rightarrow> u64 option \<Rightarrow> u64 \<Rightarrow> u32 option \<Rightarrow> memory \<Rightarrow> wmemory \<Rightarrow>
   (u64 \<times> u64 option \<times> u32 option \<times> wmemory) option" where
  "mbsrtowcs cur wide multibyte count state m w =
     (case multibyte of
        None \<Rightarrow> Some (-1, None, state, w)
      | Some input \<Rightarrow>
          if input = 0 then Some (-1, multibyte, state, w)
          else
            case strlen input m of None \<Rightarrow> None
            | Some len \<Rightarrow> mbsnrtowcs cur wide multibyte (len + 1) count state m w)"

definition wcslen :: "u64 \<Rightarrow> wmemory \<Rightarrow> u64 option" where
  "wcslen wide w = (if wide = 0 then Some 0 else scan (\<lambda>i. Some (w (wide + i) \<noteq> 0)) 0)"

definition wcsrtombs ::
  "u64 \<Rightarrow> u64 \<Rightarrow> u64 option \<Rightarrow> u64 \<Rightarrow> u32 option \<Rightarrow> wmemory \<Rightarrow> memory \<Rightarrow>
   (u64 \<times> u64 option \<times> u32 option \<times> memory) option" where
  "wcsrtombs cur multibyte wide bytes state w m =
     (case wide of
        None \<Rightarrow> Some (-1, None, state, m)
      | Some input \<Rightarrow>
          if input = 0 then Some (-1, wide, state, m)
          else
            case wcslen input w of None \<Rightarrow> None
            | Some len \<Rightarrow> wcsnrtombs cur multibyte wide (len + 1) bytes state w m)"

partial_function (option) mbstowcs_loop ::
  "u64 \<Rightarrow> u64 \<Rightarrow> u64 \<Rightarrow> u64 \<Rightarrow> memory \<Rightarrow> u64 \<Rightarrow> u64 \<Rightarrow> wmemory \<Rightarrow> (u64 \<times> wmemory) option" where
  "mbstowcs_loop cur wide multibyte count m input out w =
     (if m (multibyte + input) \<noteq> 0 then
        case strlen (multibyte + input) m of None \<Rightarrow> None
        | Some len \<Rightarrow>
            let (consumed, value, _) = mbrtowc cur (multibyte + input) len None m in
            if consumed = -1 \<or> consumed = -2 then Some (-1, w)
            else if wide \<noteq> 0 \<and> out \<ge> count then Some (out, w)
            else
              mbstowcs_loop cur wide multibyte count m (input + consumed) (out + 1)
                (if wide \<noteq> 0 then w(wide + out := (case value of None \<Rightarrow> 0 | Some v \<Rightarrow> v)) else w)
      else Some (if wide \<noteq> 0 \<and> out < count then (out, w(wide + out := 0)) else (out, w)))"

definition mbstowcs :: "u64 \<Rightarrow> u64 \<Rightarrow> u64 \<Rightarrow> u64 \<Rightarrow> memory \<Rightarrow> wmemory \<Rightarrow> (u64 \<times> wmemory) option" where
  "mbstowcs cur wide multibyte count m w =
     (if multibyte = 0 then Some (-1, w) else mbstowcs_loop cur wide multibyte count m 0 0 w)"

partial_function (option) wcstombs_loop ::
  "u64 \<Rightarrow> u64 \<Rightarrow> u64 \<Rightarrow> u64 \<Rightarrow> wmemory \<Rightarrow> u64 \<Rightarrow> u64 \<Rightarrow> memory \<Rightarrow> (u64 \<times> memory) option" where
  "wcstombs_loop cur multibyte wide count w input out m =
     (if w (wide + input) \<noteq> 0 then
        case utf8_encode cur (w (wide + input)) of
          None \<Rightarrow> Some (-1, m)
        | Some encoded \<Rightarrow>
            let bytes = of_nat (length encoded) in
            if multibyte \<noteq> 0 \<and> out + bytes > count
            then Some (if out < count then (out, m(multibyte + out := 0)) else (out, m))
            else
              wcstombs_loop cur multibyte wide count w (input + 1) (out + bytes)
                (if multibyte \<noteq> 0 then store_bytes (multibyte + out) encoded m else m)
      else Some (if multibyte \<noteq> 0 \<and> out < count then (out, m(multibyte + out := 0)) else (out, m)))"

definition wcstombs :: "u64 \<Rightarrow> u64 \<Rightarrow> u64 \<Rightarrow> u64 \<Rightarrow> wmemory \<Rightarrow> memory \<Rightarrow> (u64 \<times> memory) option" where
  "wcstombs cur multibyte wide count w m =
     (if wide = 0 then Some (-1, m) else wcstombs_loop cur multibyte wide count w 0 0 m)"

section \<open>Wide strings\<close>

definition wide_order :: "u32 \<Rightarrow> u32 \<Rightarrow> int" where
  "wide_order l r = (if sint l < sint r then -1 else if sint l > sint r then 1 else 0)"

definition null_order :: "u64 \<Rightarrow> u64 \<Rightarrow> int" where
  "null_order left right = (if left = right then 0 else if left \<noteq> 0 then 1 else -1)"

definition wcscmp :: "u64 \<Rightarrow> u64 \<Rightarrow> wmemory \<Rightarrow> int option" where
  "wcscmp left right w =
     (if left = 0 \<or> right = 0 then Some (null_order left right)
      else map_option (\<lambda>i. wide_order (w (left + i)) (w (right + i)))
             (scan (\<lambda>i. Some (w (left + i) \<noteq> 0 \<and> w (left + i) = w (right + i))) 0))"

definition wcsncmp :: "u64 \<Rightarrow> u64 \<Rightarrow> u64 \<Rightarrow> wmemory \<Rightarrow> int" where
  "wcsncmp left right count w =
     (if left = 0 \<or> right = 0 then null_order left right
      else
        case find_from (\<lambda>i. w (left + of_nat i) = 0 \<or> w (left + of_nat i) \<noteq> w (right + of_nat i)) 0 (unat count) of
          None \<Rightarrow> 0
        | Some i \<Rightarrow> wide_order (w (left + of_nat i)) (w (right + of_nat i)))"

definition wcschr :: "u64 \<Rightarrow> u32 \<Rightarrow> wmemory \<Rightarrow> u64 option" where
  "wcschr wide character w =
     (if wide = 0 then Some 0
      else map_option (\<lambda>t. if w t = character then t else 0)
             (scan (\<lambda>t. Some (w t \<noteq> character \<and> w t \<noteq> 0)) wide))"

partial_function (option) wcsrchr_loop :: "u32 \<Rightarrow> wmemory \<Rightarrow> u64 \<Rightarrow> u64 \<Rightarrow> u64 option" where
  "wcsrchr_loop character w wide match =
     (let match = (if w wide = character then wide else match) in
      if w wide \<noteq> 0 then wcsrchr_loop character w (wide + 1) match else Some match)"

definition wcsrchr :: "u64 \<Rightarrow> u32 \<Rightarrow> wmemory \<Rightarrow> u64 option" where
  "wcsrchr wide character w = (if wide = 0 then Some 0 else wcsrchr_loop character w wide 0)"

definition wcsstr :: "u64 \<Rightarrow> u64 \<Rightarrow> wmemory \<Rightarrow> u64 option" where
  "wcsstr wide needle w =
     (if wide = 0 \<or> needle = 0 then Some 0
      else if w needle = 0 then Some wide
      else map_option (\<lambda>t. if w t = 0 then 0 else t)
             (scan (\<lambda>t. if w t = 0 then Some False
                        else map_option (\<lambda>i. w (needle + i) \<noteq> 0)
                               (scan (\<lambda>i. Some (w (t + i) \<noteq> 0 \<and> w (needle + i) \<noteq> 0 \<and>
                                               w (t + i) = w (needle + i))) 0)) wide))"

partial_function (option) wcscpy_loop :: "u64 \<Rightarrow> u64 \<Rightarrow> wmemory \<Rightarrow> wmemory option" where
  "wcscpy_loop destination source w =
     (let w = w(destination := w source) in
      if w source \<noteq> 0 then wcscpy_loop (destination + 1) (source + 1) w else Some w)"

definition wcscpy :: "u64 \<Rightarrow> u64 \<Rightarrow> wmemory \<Rightarrow> wmemory option" where
  "wcscpy destination source w =
     (if destination = 0 \<or> source = 0 then Some w else wcscpy_loop destination source w)"

function wcopy_bounded :: "u64 \<Rightarrow> u64 \<Rightarrow> u64 \<Rightarrow> u64 \<Rightarrow> wmemory \<Rightarrow> u64 \<times> wmemory" where
  "wcopy_bounded destination source n i w =
     (if i < n \<and> w (source + i) \<noteq> 0
      then wcopy_bounded destination source n (i + 1) (w(destination + i := w (source + i)))
      else (i, w))"
  by pat_completeness auto
termination
proof (relation "measure (\<lambda>(d, s, n, i, w). unat n - unat i)", simp)
  fix d s n i :: u64 and w :: wmemory
  assume "i < n \<and> w (s + i) \<noteq> 0"
  then have lt: "unat i < unat n" by (simp add: word_less_nat_alt)
  then have "unat i < 2 ^ LENGTH(64) - 1"
    using unat_lt_max64 [of n] by simp
  from unat_inc_bounded [OF this] lt
  show "((d, s, n, i + 1, w(d + i := w (s + i))), d, s, n, i, w) \<in> measure (\<lambda>(d, s, n, i, w). unat n - unat i)"
    by simp
qed

declare wcopy_bounded.simps [simp del]

definition wcsncpy :: "u64 \<Rightarrow> u64 \<Rightarrow> u64 \<Rightarrow> wmemory \<Rightarrow> wmemory" where
  "wcsncpy destination source count w =
     (if destination = 0 \<or> source = 0 then w
      else
        let (i, w) = wcopy_bounded destination source count 0 w
        in fold (\<lambda>k w. w(destination + of_nat k := 0)) [unat i ..< unat count] w)"

definition wcscat :: "u64 \<Rightarrow> u64 \<Rightarrow> wmemory \<Rightarrow> wmemory option" where
  "wcscat destination source w =
     (if destination = 0 \<or> source = 0 then Some w
      else case wcslen destination w of None \<Rightarrow> None | Some len \<Rightarrow> wcscpy (destination + len) source w)"

definition wcsncat :: "u64 \<Rightarrow> u64 \<Rightarrow> u64 \<Rightarrow> wmemory \<Rightarrow> wmemory option" where
  "wcsncat destination source count w =
     (if destination = 0 \<or> source = 0 then Some w
      else
        case wcslen destination w of None \<Rightarrow> None
        | Some len \<Rightarrow>
            let tail = destination + len; (copied, w) = wcopy_bounded tail source count 0 w
            in Some (w(tail + copied := 0)))"

definition wide_contains :: "u64 \<Rightarrow> u32 \<Rightarrow> wmemory \<Rightarrow> bool option" where
  "wide_contains st character w =
     (if st = 0 then Some False
      else map_option (\<lambda>t. w t \<noteq> 0) (scan (\<lambda>t. Some (w t \<noteq> 0 \<and> w t \<noteq> character)) st))"

definition wcspbrk :: "u64 \<Rightarrow> u64 \<Rightarrow> wmemory \<Rightarrow> u64 option" where
  "wcspbrk wide accept w =
     (if wide = 0 \<or> accept = 0 then Some 0
      else map_option (\<lambda>t. if w t = 0 then 0 else t)
             (scan (\<lambda>t. if w t = 0 then Some False else map_option Not (wide_contains accept (w t) w)) wide))"

definition wcscspn :: "u64 \<Rightarrow> u64 \<Rightarrow> wmemory \<Rightarrow> u64 option" where
  "wcscspn wide reject w =
     (if wide = 0 \<or> reject = 0 then Some 0
      else scan (\<lambda>i. if w (wide + i) = 0 then Some False
                     else map_option Not (wide_contains reject (w (wide + i)) w)) 0)"

definition wcsspn :: "u64 \<Rightarrow> u64 \<Rightarrow> wmemory \<Rightarrow> u64 option" where
  "wcsspn wide accept w =
     (if wide = 0 \<or> accept = 0 then Some 0
      else scan (\<lambda>i. if w (wide + i) = 0 then Some False else wide_contains accept (w (wide + i)) w) 0)"

definition wmemchr :: "u64 \<Rightarrow> u32 \<Rightarrow> u64 \<Rightarrow> wmemory \<Rightarrow> u64" where
  "wmemchr wide character count w =
     (if wide = 0 then 0
      else case find_from (\<lambda>i. w (wide + of_nat i) = character) 0 (unat count) of
             None \<Rightarrow> 0 | Some i \<Rightarrow> wide + of_nat i)"

definition copy_wide :: "u64 \<Rightarrow> u64 \<Rightarrow> nat \<Rightarrow> wmemory \<Rightarrow> wmemory" where
  "copy_wide d s i w = w(d + of_nat i := w (s + of_nat i))"

definition wmemcpy :: "u64 \<Rightarrow> u64 \<Rightarrow> u64 \<Rightarrow> wmemory \<Rightarrow> wmemory" where
  "wmemcpy destination source count w =
     (if destination = 0 \<or> source = 0 then w else fold (copy_wide destination source) [0 ..< unat count] w)"

definition wmemmove :: "u64 \<Rightarrow> u64 \<Rightarrow> u64 \<Rightarrow> wmemory \<Rightarrow> wmemory" where
  "wmemmove destination source count w =
     (if destination = 0 \<or> source = 0 \<or> destination = source then w
      else if destination < source then fold (copy_wide destination source) [0 ..< unat count] w
      else fold (copy_wide destination source) (rev [0 ..< unat count]) w)"

definition wmemset :: "u64 \<Rightarrow> u32 \<Rightarrow> u64 \<Rightarrow> wmemory \<Rightarrow> wmemory" where
  "wmemset wide character count w =
     (if wide = 0 then w else fold (\<lambda>i w. w(wide + of_nat i := character)) [0 ..< unat count] w)"

definition wmemcmp :: "u64 \<Rightarrow> u64 \<Rightarrow> u64 \<Rightarrow> wmemory \<Rightarrow> int" where
  "wmemcmp left right count w =
     (if left = 0 \<or> right = 0 then null_order left right
      else case find_from (\<lambda>i. w (left + of_nat i) \<noteq> w (right + of_nat i)) 0 (unat count) of
             None \<Rightarrow> 0
           | Some i \<Rightarrow> if sint (w (left + of_nat i)) < sint (w (right + of_nat i)) then -1 else 1)"

definition wcscoll :: "u64 \<Rightarrow> u64 \<Rightarrow> wmemory \<Rightarrow> int option" where
  "wcscoll left right w = wcscmp left right w"

definition wcsxfrm :: "u64 \<Rightarrow> u64 \<Rightarrow> u64 \<Rightarrow> wmemory \<Rightarrow> (u64 \<times> wmemory) option" where
  "wcsxfrm destination source count w =
     (case wcslen source w of None \<Rightarrow> None
      | Some len \<Rightarrow>
          if destination \<noteq> 0 \<and> count \<noteq> 0 then
            let copied = (if len < count - 1 then len else count - 1);
                w = wmemcpy destination source copied w
            in Some (len, w(destination + copied := 0))
          else Some (len, w))"

section \<open>Wide character classes\<close>

definition iswalpha :: "u32 \<Rightarrow> bool" where
  "iswalpha c \<longleftrightarrow> (c \<ge> 65 \<and> c \<le> 90) \<or> (c \<ge> 97 \<and> c \<le> 122)"

definition iswalnum :: "u32 \<Rightarrow> bool" where
  "iswalnum c \<longleftrightarrow> iswalpha c \<or> (c \<ge> 48 \<and> c \<le> 57)"

definition iswdigit :: "u32 \<Rightarrow> bool" where
  "iswdigit c \<longleftrightarrow> c \<ge> 48 \<and> c \<le> 57"

definition iswspace :: "u32 \<Rightarrow> bool" where
  "iswspace c \<longleftrightarrow> c = 32 \<or> c = 9 \<or> c = 10 \<or> c = 13 \<or> c = 11 \<or> c = 12 \<or> c = 0xa0"

definition towlower :: "u32 \<Rightarrow> int" where
  "towlower c = (if c \<ge> 65 \<and> c \<le> 90 then sint (c + 32) else sint c)"

definition towupper :: "u32 \<Rightarrow> int" where
  "towupper c = (if c \<ge> 97 \<and> c \<le> 122 then sint (c - 32) else sint c)"

definition iswblank :: "u32 \<Rightarrow> bool" where "iswblank c \<longleftrightarrow> c = 32 \<or> c = 9"

definition iswcntrl :: "u32 \<Rightarrow> bool" where "iswcntrl c \<longleftrightarrow> c < 0x20 \<or> c = 0x7f"

definition iswgraph :: "u32 \<Rightarrow> bool" where "iswgraph c \<longleftrightarrow> c \<ge> 0x21 \<and> c \<le> 0x7e"

definition iswlower :: "u32 \<Rightarrow> bool" where "iswlower c \<longleftrightarrow> c \<ge> 97 \<and> c \<le> 122"

definition iswprint :: "u32 \<Rightarrow> bool" where "iswprint c \<longleftrightarrow> c \<ge> 0x20 \<and> c \<le> 0x7e"

definition iswpunct :: "u32 \<Rightarrow> bool" where "iswpunct c \<longleftrightarrow> iswgraph c \<and> \<not> iswalnum c"

definition iswupper :: "u32 \<Rightarrow> bool" where "iswupper c \<longleftrightarrow> c \<ge> 65 \<and> c \<le> 90"

definition iswxdigit :: "u32 \<Rightarrow> bool" where
  "iswxdigit c \<longleftrightarrow> iswdigit c \<or> (c \<ge> 97 \<and> c \<le> 102) \<or> (c \<ge> 65 \<and> c \<le> 70)"

text \<open>The property name is the string it points to, \<^const>\<open>None\<close> for the null pointer.\<close>

definition wctype :: "string option \<Rightarrow> nat" where
  "wctype property =
     (case property of
        None \<Rightarrow> 0
      | Some name \<Rightarrow>
          if name = ''alnum'' then 1 else if name = ''alpha'' then 2
          else if name = ''blank'' then 3 else if name = ''cntrl'' then 4
          else if name = ''digit'' then 5 else if name = ''graph'' then 6
          else if name = ''lower'' then 7 else if name = ''print'' then 8
          else if name = ''punct'' then 9 else if name = ''space'' then 10
          else if name = ''upper'' then 11 else if name = ''xdigit'' then 12 else 0)"

definition iswctype :: "u32 \<Rightarrow> nat \<Rightarrow> bool" where
  "iswctype c property \<longleftrightarrow>
     (if property = 1 then iswalnum c
      else if property = 2 then iswalpha c
      else if property = 3 then c = 32 \<or> c = 9
      else if property = 4 then c < 0x20 \<or> c = 0x7f
      else if property = 5 then iswdigit c
      else if property = 6 then c \<ge> 0x21 \<and> c \<le> 0x7e
      else if property = 7 then c \<ge> 97 \<and> c \<le> 122
      else if property = 8 then c \<ge> 0x20 \<and> c \<le> 0x7e
      else if property = 9 then c \<ge> 0x21 \<and> c \<le> 0x7e \<and> \<not> iswalnum c
      else if property = 10 then iswspace c
      else if property = 11 then c \<ge> 65 \<and> c \<le> 90
      else if property = 12 then iswdigit c \<or> (c \<ge> 97 \<and> c \<le> 102) \<or> (c \<ge> 65 \<and> c \<le> 70)
      else False)"

section \<open>The codec in numbers\<close>

lemma byte_eq_iff:
  fixes x y :: u8
  shows "x = y \<longleftrightarrow> bit x 0 = bit y 0 \<and> bit x 1 = bit y 1 \<and> bit x 2 = bit y 2 \<and> bit x 3 = bit y 3 \<and>
    bit x 4 = bit y 4 \<and> bit x 5 = bit y 5 \<and> bit x 6 = bit y 6 \<and> bit x 7 = bit y 7"
    (is "_ \<longleftrightarrow> ?R")
proof
  assume r: ?R
  show "x = y"
  proof (rule bit_word_eqI)
    fix n assume "n < LENGTH(8)"
    then have "n = 0 \<or> n = 1 \<or> n = 2 \<or> n = 3 \<or> n = 4 \<or> n = 5 \<or> n = 6 \<or> n = 7"
      by auto
    then show "bit x n = bit y n"
      using r by (elim disjE) simp_all
  qed
qed simp

lemma unat_lt_byte: "unat (b :: u8) < 256"
  using unsigned_less [of b] by simp

lemma unat_of_nat_inverse: "of_nat (unat x) = x" for x :: u32
  by simp

lemma unat_or_shift:
  fixes c d :: u32
  assumes "unat d < 2 ^ k" "unat c * 2 ^ k < 2 ^ 32"
  shows "unat (push_bit k c OR d) = unat c * 2 ^ k + unat d"
proof -
  have d: "take_bit k d = d"
    using assms(1) by (simp add: word_unat_eq_iff unsigned_take_bit_eq take_bit_nat_eq_self)
  have low: "bit d n \<Longrightarrow> n < k" for n
    by (metis bit_take_bit_iff d)
  have "push_bit k c OR d = push_bit k c + d"
    by (intro disjunctive_add [symmetric]) (auto simp: bit_push_bit_iff dest: low)
  moreover have p: "unat (push_bit k c) = unat c * 2 ^ k"
  proof -
    have "unat (push_bit k c) = take_bit 32 (push_bit k (unat c))"
      by (simp only: unsigned_push_bit_eq) simp
    also have "\<dots> = unat c * 2 ^ k"
      using assms(2) by (simp only: push_bit_eq_mult take_bit_nat_eq_self)
    finally show ?thesis .
  qed
  moreover have "unat c * 2 ^ k + unat d < 2 ^ 32"
  proof (cases "k \<le> 32")
    case True
    have "Suc (unat c) * 2 ^ k \<le> 2 ^ 32"
    proof -
      have "(2::nat) ^ 32 = 2 ^ (32 - k) * 2 ^ k"
        using True by (simp add: power_add [symmetric])
      then show ?thesis
        using assms(2) by (metis Suc_leI mult_le_mono1 mult_less_cancel2)
    qed
    then show ?thesis
      using assms(1) by simp
  next
    case False
    have "unat c = 0"
    proof (rule ccontr)
      assume "unat c \<noteq> 0"
      then have "2 ^ k \<le> unat c * 2 ^ k" by simp
      moreover have "(2::nat) ^ 32 \<le> 2 ^ k" using False by (intro power_increasing) auto
      ultimately show False using assms(2) by linarith
    qed
    moreover have "unat d < 2 ^ LENGTH(32)" by (rule unsigned_less)
    ultimately show ?thesis by simp
  qed
  ultimately show ?thesis
    by (simp add: unat_word_ariths)
qed

lemma unat_ucast_byte: "unat (ucast (x :: u32) :: u8) = unat x mod 256"
  by (simp add: unsigned_ucast_eq take_bit_eq_mod)

lemma unat_ucast_small: "unat x < 128 \<Longrightarrow> unat (ucast (x :: u32) :: u8) = unat x"
  by (simp add: unat_ucast_byte)

lemma unat_and_mask:
  fixes x :: "'a::len word"
  shows "unat (x AND 0x3f) = unat x mod 64" "unat (x AND 0x1f) = unat x mod 32"
    "unat (x AND 0x0f) = unat x mod 16" "unat (x AND 0x07) = unat x mod 8"
proof -
  have m: "(0x3f :: 'a word) = mask 6" "(0x1f :: 'a word) = mask 5" "(0x0f :: 'a word) = mask 4"
    "(0x07 :: 'a word) = mask 3"
    by (simp_all add: mask_eq_exp_minus_1)
  show "unat (x AND 0x3f) = unat x mod 64" "unat (x AND 0x1f) = unat x mod 32"
    "unat (x AND 0x0f) = unat x mod 16" "unat (x AND 0x07) = unat x mod 8"
    unfolding m take_bit_eq_mask [symmetric] unsigned_take_bit_eq take_bit_eq_mod [of _ "unat x"] by simp_all
qed

lemma unat_cont_byte: "unat (ucast (0x80 OR (x AND 0x3f) :: u32) :: u8) = 128 + unat x mod 64"
  using unat_or_shift [of "x AND 0x3f" 6 2] by (simp add: unat_ucast_byte unat_and_mask)

lemma unat_lead_byte:
  fixes x :: u32
  shows "unat x < 32 \<Longrightarrow> unat (ucast (0xc0 OR x) :: u8) = 192 + unat x"
    "unat x < 16 \<Longrightarrow> unat (ucast (0xe0 OR x) :: u8) = 224 + unat x"
    "unat x < 8 \<Longrightarrow> unat (ucast (0xf0 OR x) :: u8) = 240 + unat x"
  using unat_or_shift [of x 5 6] unat_or_shift [of x 4 14] unat_or_shift [of x 3 30]
  by (simp_all add: unat_ucast_byte)

lemma unat_drop32: "unat (drop_bit k (x :: u32)) = unat x div 2 ^ k"
proof -
  have "unat (drop_bit k x) = drop_bit k (take_bit LENGTH(32) (unat x))"
    by (simp only: unsigned_drop_bit_eq)
  also have "take_bit LENGTH(32) (unat x) = unat x"
    by (metis take_bit_nat_eq_self unsigned_less)
  finally show ?thesis
    by (simp only: drop_bit_eq_div)
qed

definition encode_nat :: "nat \<Rightarrow> nat list" where
  "encode_nat u =
     (if u < 0x80 then [u]
      else if u < 0x800 then [192 + u div 64, 128 + u mod 64]
      else if u < 0x10000 then [224 + u div 4096, 128 + u div 64 mod 64, 128 + u mod 64]
      else [240 + u div 262144, 128 + u div 4096 mod 64, 128 + u div 64 mod 64, 128 + u mod 64])"

definition scalar :: "nat \<Rightarrow> bool" where
  "scalar u \<longleftrightarrow> u \<le> 0x10ffff \<and> \<not> (0xd800 \<le> u \<and> u \<le> 0xdfff)"

lemma utf8_encode_None: "cur \<noteq> 1 \<Longrightarrow> utf8_encode cur cp = None \<longleftrightarrow> \<not> scalar (unat cp)"
  by (auto simp: utf8_encode_def scalar_def word_less_nat_alt word_le_nat_alt)

lemma utf8_encode_unat:
  assumes "utf8_encode cur cp = Some bs"
  shows "map unat bs = encode_nat (unat cp)" "scalar (unat cp)"
proof -
  show s: "scalar (unat cp)"
    using assms by (auto simp: utf8_encode_def scalar_def word_less_nat_alt word_le_nat_alt split: if_splits)
  show "map unat bs = encode_nat (unat cp)"
    using assms s
    by (auto simp: utf8_encode_def encode_nat_def scalar_def word_less_nat_alt word_le_nat_alt unat_drop32
        unat_cont_byte unat_lead_byte unat_ucast_small less_mult_imp_div_less split: if_splits)
qed

lemma utf8_lead_unat:
  "utf8_lead b =
     (let l = unat b in
      if l < 128 then Some (of_nat l, 1)
      else if 194 \<le> l \<and> l \<le> 223 then Some (of_nat (l mod 32), 2)
      else if 224 \<le> l \<and> l \<le> 239 then Some (of_nat (l mod 16), 3)
      else if 240 \<le> l \<and> l \<le> 244 then Some (of_nat (l mod 8), 4) else None)"
  by (auto simp: utf8_lead_def Let_def word_less_nat_alt word_le_nat_alt word_unat_eq_iff unsigned_ucast_eq unat_and_mask
      unat_of_nat take_bit_eq_mod)

lemma utf8_step_unat:
  assumes "c < 2 ^ 26"
  shows "utf8_step b (Some (of_nat c)) =
    (if unat b div 64 = 2 then Some (of_nat (c * 64 + unat b mod 64)) else None)"
proof -
  have "b AND 0xc0 = 0x80 \<longleftrightarrow> bit b 7 \<and> \<not> bit b 6"
    unfolding byte_eq_iff by (auto simp: bit_simps)
  also have "\<dots> \<longleftrightarrow> bit (unat b) 7 \<and> \<not> bit (unat b) 6"
    by (simp add: bit_unsigned_iff)
  also have "\<dots> \<longleftrightarrow> unat b div 64 = 2"
  proof -
    have "unat b div 64 < 4"
      using unat_lt_byte [of b] by (simp add: less_mult_imp_div_less)
    then consider "unat b div 64 = 0" | "unat b div 64 = 1" | "unat b div 64 = 2" | "unat b div 64 = 3"
      by linarith
    moreover have "unat b div 2 ^ 7 = unat b div 64 div 2" "unat b div 2 ^ 6 = unat b div 64"
      by (simp_all flip: div_mult2_eq)
    ultimately show ?thesis
      unfolding bit_iff_odd by cases simp_all
  qed
  finally have "b AND 0xc0 = 0x80 \<longleftrightarrow> unat b div 64 = 2" .
  moreover have "unat (push_bit 6 (of_nat c :: u32) OR ucast (b AND 0x3f)) = c * 64 + unat b mod 64"
    using unat_or_shift [of "ucast (b AND 0x3f)" 6 "of_nat c"] assms
    by (simp add: unat_of_nat take_bit_nat_eq_self unsigned_ucast_eq unat_and_mask)
  then have "push_bit 6 (of_nat c :: u32) OR ucast (b AND 0x3f) = of_nat (c * 64 + unat b mod 64)"
    by (metis unat_of_nat_inverse)
  ultimately show ?thesis
    by (simp add: utf8_step_def del: of_nat_add of_nat_mult)
qed

lemma utf8_fold_unat:
  fixes m :: memory and p :: u64
  defines "b \<equiv> \<lambda>i. unat (m (p + of_nat i))"
  assumes "c < 32"
  shows "fold (\<lambda>i. utf8_step (m (p + of_nat i))) [1..<2] (Some (of_nat c)) =
      (if b 1 div 64 = 2 then Some (of_nat (c * 64 + b 1 mod 64)) else None)"
    "fold (\<lambda>i. utf8_step (m (p + of_nat i))) [1..<3] (Some (of_nat c)) =
      (if b 1 div 64 = 2 \<and> b 2 div 64 = 2 then Some (of_nat ((c * 64 + b 1 mod 64) * 64 + b 2 mod 64)) else None)"
    "fold (\<lambda>i. utf8_step (m (p + of_nat i))) [1..<4] (Some (of_nat c)) =
      (if b 1 div 64 = 2 \<and> b 2 div 64 = 2 \<and> b 3 div 64 = 2
       then Some (of_nat (((c * 64 + b 1 mod 64) * 64 + b 2 mod 64) * 64 + b 3 mod 64)) else None)"
proof -
  have none [simp]: "utf8_step x None = None" for x
    by (simp add: utf8_step_def)
  have lists: "[1..<2] = [1::nat]" "[1..<3] = [1::nat, 2]" "[1..<4] = [1::nat, 2, 3]"
    by (simp_all add: upt_rec)
  have b: "b 1 mod 64 < 64" "b 2 mod 64 < 64" "b 3 mod 64 < 64" by simp_all
  have 1: "utf8_step (m (p + of_nat 1)) (Some (of_nat c)) =
      (if b 1 div 64 = 2 then Some (of_nat (c * 64 + b 1 mod 64)) else None)"
    unfolding b_def by (rule utf8_step_unat) (use assms(2) in simp)
  have 2: "utf8_step (m (p + of_nat 2)) (Some (of_nat (c * 64 + b 1 mod 64))) =
      (if b 2 div 64 = 2 then Some (of_nat ((c * 64 + b 1 mod 64) * 64 + b 2 mod 64)) else None)"
    unfolding b_def by (rule utf8_step_unat) (use assms(2) b(1) in \<open>simp add: b_def\<close>)
  have 3: "utf8_step (m (p + of_nat 3)) (Some (of_nat ((c * 64 + b 1 mod 64) * 64 + b 2 mod 64))) =
      (if b 3 div 64 = 2 then Some (of_nat (((c * 64 + b 1 mod 64) * 64 + b 2 mod 64) * 64 + b 3 mod 64)) else None)"
    unfolding b_def by (rule utf8_step_unat) (use assms(2) b(1,2) in \<open>simp add: b_def\<close>)
  show "fold (\<lambda>i. utf8_step (m (p + of_nat i))) [1..<2] (Some (of_nat c)) =
      (if b 1 div 64 = 2 then Some (of_nat (c * 64 + b 1 mod 64)) else None)"
    using 1 by (simp only: lists fold_simps)
  show "fold (\<lambda>i. utf8_step (m (p + of_nat i))) [1..<3] (Some (of_nat c)) =
      (if b 1 div 64 = 2 \<and> b 2 div 64 = 2 then Some (of_nat ((c * 64 + b 1 mod 64) * 64 + b 2 mod 64)) else None)"
    unfolding lists fold_simps 1 by (simp only: 2 none split: if_splits) auto
  show "fold (\<lambda>i. utf8_step (m (p + of_nat i))) [1..<4] (Some (of_nat c)) =
      (if b 1 div 64 = 2 \<and> b 2 div 64 = 2 \<and> b 3 div 64 = 2
       then Some (of_nat (((c * 64 + b 1 mod 64) * 64 + b 2 mod 64) * 64 + b 3 mod 64)) else None)"
    unfolding lists fold_simps 1 by (simp only: 2 3 none split: if_splits) auto
qed

definition bad_nat :: "nat \<Rightarrow> nat \<Rightarrow> bool" where
  "bad_nat w u \<longleftrightarrow> (w = 3 \<and> u < 0x800) \<or> (w = 4 \<and> u < 0x10000) \<or> \<not> scalar u"

definition lead_nat :: "nat \<Rightarrow> (nat \<times> nat) option" where
  "lead_nat l =
     (if l < 128 then Some (l, 1)
      else if 194 \<le> l \<and> l \<le> 223 then Some (l mod 32, 2)
      else if 224 \<le> l \<and> l \<le> 239 then Some (l mod 16, 3)
      else if 240 \<le> l \<and> l \<le> 244 then Some (l mod 8, 4) else None)"

definition tail_nat :: "(nat \<Rightarrow> nat) \<Rightarrow> nat \<Rightarrow> nat \<Rightarrow> nat option" where
  "tail_nat b c w =
     (if w = 1 then Some c
      else if w = 2 then if b 1 div 64 = 2 then Some (c * 64 + b 1 mod 64) else None
      else if w = 3 then
        if b 1 div 64 = 2 \<and> b 2 div 64 = 2 then Some ((c * 64 + b 1 mod 64) * 64 + b 2 mod 64) else None
      else if b 1 div 64 = 2 \<and> b 2 div 64 = 2 \<and> b 3 div 64 = 2
        then Some (((c * 64 + b 1 mod 64) * 64 + b 2 mod 64) * 64 + b 3 mod 64) else None)"

definition decode_nat :: "(nat \<Rightarrow> nat) \<Rightarrow> (nat \<times> nat) option" where
  "decode_nat b = Option.bind (lead_nat (b 0)) (\<lambda>(c, w). map_option (\<lambda>u. (u, w)) (tail_nat b c w))"

lemma decode_nat_split:
  "decode_nat b = Some (u, w) \<longleftrightarrow> (\<exists>c. lead_nat (b 0) = Some (c, w) \<and> tail_nat b c w = Some u)"
  by (auto simp: decode_nat_def Option.bind_eq_Some_conv)

lemma decode_nat_cases:
  assumes "decode_nat b = Some (u, w)"
  obtains (one) "b 0 < 128" "u = b 0" "w = 1"
    | (two) "194 \<le> b 0" "b 0 \<le> 223" "b 1 div 64 = 2" "u = b 0 mod 32 * 64 + b 1 mod 64" "w = 2"
    | (three) "224 \<le> b 0" "b 0 \<le> 239" "b 1 div 64 = 2" "b 2 div 64 = 2"
        "u = (b 0 mod 16 * 64 + b 1 mod 64) * 64 + b 2 mod 64" "w = 3"
    | (four) "240 \<le> b 0" "b 0 \<le> 244" "b 1 div 64 = 2" "b 2 div 64 = 2" "b 3 div 64 = 2"
        "u = ((b 0 mod 8 * 64 + b 1 mod 64) * 64 + b 2 mod 64) * 64 + b 3 mod 64" "w = 4"
proof -
  obtain c where l: "lead_nat (b 0) = Some (c, w)" and t: "tail_nat b c w = Some u"
    using assms by (auto simp: decode_nat_split)
  consider "b 0 < 128" "c = b 0" "w = 1" | "194 \<le> b 0" "b 0 \<le> 223" "c = b 0 mod 32" "w = 2"
    | "224 \<le> b 0" "b 0 \<le> 239" "c = b 0 mod 16" "w = 3" | "240 \<le> b 0" "b 0 \<le> 244" "c = b 0 mod 8" "w = 4"
    using l by (simp add: lead_nat_def split: if_splits)
  then show ?thesis
  proof cases
    case 1
    then show ?thesis using one t by (simp add: tail_nat_def)
  next
    case 2
    then show ?thesis using two t by (simp add: tail_nat_def split: if_splits)
  next
    case 3
    then show ?thesis using three t by (simp add: tail_nat_def split: if_splits)
  next
    case 4
    then show ?thesis using four t by (simp add: tail_nat_def split: if_splits)
  qed
qed

lemma cont_value: "b div 64 = 2 \<Longrightarrow> b = 128 + b mod (64::nat)"
  using div_mult_mod_eq [of b 64] by simp

lemma lead_value:
  fixes b n k :: nat
  assumes "n * k \<le> b" "b < n * k + n"
  shows "b = n * k + b mod n"
proof -
  obtain j where j: "b = n * k + j" using assms(1) le_Suc_ex by blast
  then have "b mod n = j" using assms(2) by simp
  then show ?thesis using j by simp
qed

lemma lists_upto4:
  "map b [0..<1] = [b 0]" "map b [0..<2] = [b 0, b 1]" "map b [0..<3] = [b 0, b 1, b 2]"
  "map b [0..<4] = [b 0, b 1, b 2, b (3::nat)]"
  by (simp_all add: upt_rec numeral_2_eq_2 numeral_3_eq_3 numeral_eq_Suc)

lemma digits64:
  fixes x y z :: nat
  assumes "y < 64"
  shows "(x * 64 + y) div 64 = x" "(x * 64 + y) mod 64 = y" "(x * 64 + y) div 4096 = x div 64"
    "(x * 64 + y) div 262144 = x div 4096"
proof -
  show d: "(x * 64 + y) div 64 = x" and "(x * 64 + y) mod 64 = y"
    using assms by simp_all
  show "(x * 64 + y) div 4096 = x div 64"
    using d div_mult2_eq [of "x * 64 + y" 64 64] by simp
  show "(x * 64 + y) div 262144 = x div 4096"
    using d div_mult2_eq [of "x * 64 + y" 64 4096] by simp
qed

lemma encode_nat_ranges:
  "0x800 \<le> u \<Longrightarrow> u < 0x10000 \<Longrightarrow> encode_nat u = [224 + u div 4096, 128 + u div 64 mod 64, 128 + u mod 64]"
  "0x10000 \<le> u \<Longrightarrow>
     encode_nat u = [240 + u div 262144, 128 + u div 4096 mod 64, 128 + u div 64 mod 64, 128 + u mod 64]"
  by (simp_all add: encode_nat_def)

lemma byte_digits:
  fixes d :: nat
  shows "d < 64 \<Longrightarrow> (128 + d) div 64 = 2" "d < 64 \<Longrightarrow> (128 + d) mod 64 = d"
    "d < 32 \<Longrightarrow> (192 + d) mod 32 = d" "d < 16 \<Longrightarrow> (224 + d) mod 16 = d" "d < 8 \<Longrightarrow> (240 + d) mod 8 = d"
  using div_mult_self4 [of 64 2 d] mod_mult_self4 [of 64 2 d] mod_mult_self4 [of 32 6 d] mod_mult_self4 [of 16 14 d]
    mod_mult_self4 [of 8 30 d]
  by simp_all

lemma encode_digits:
  fixes x :: nat
  assumes "y < 64" "z < 64" "v < 64"
  shows "2 \<le> x \<Longrightarrow> x < 32 \<Longrightarrow> encode_nat (x * 64 + y) = [192 + x, 128 + y]"
    "x < 16 \<Longrightarrow> 0x800 \<le> (x * 64 + y) * 64 + z \<Longrightarrow>
      encode_nat ((x * 64 + y) * 64 + z) = [224 + x, 128 + y, 128 + z]"
    "0x10000 \<le> ((x * 64 + y) * 64 + z) * 64 + v \<Longrightarrow>
      encode_nat (((x * 64 + y) * 64 + z) * 64 + v) = [240 + x, 128 + y, 128 + z, 128 + v]"
proof -
  assume "2 \<le> x" "x < 32"
  then show "encode_nat (x * 64 + y) = [192 + x, 128 + y]"
    using assms(1) by (auto simp: encode_nat_def)
next
  assume h: "x < 16" "0x800 \<le> (x * 64 + y) * 64 + z"
  moreover have "(x * 64 + y) * 64 + z < 0x10000"
    using h(1) assms by simp
  ultimately show "encode_nat ((x * 64 + y) * 64 + z) = [224 + x, 128 + y, 128 + z]"
    unfolding encode_nat_ranges(1) [OF h(2) \<open>(x * 64 + y) * 64 + z < 0x10000\<close>]
    using assms by (simp only: digits64)
next
  assume h: "0x10000 \<le> ((x * 64 + y) * 64 + z) * 64 + v"
  show "encode_nat (((x * 64 + y) * 64 + z) * 64 + v) = [240 + x, 128 + y, 128 + z, 128 + v]"
    unfolding encode_nat_ranges(2) [OF h] using assms by (simp only: digits64)
qed

lemma decode_then_encode:
  assumes "decode_nat b = Some (u, w)" "\<not> bad_nat w u"
  shows "encode_nat u = map b [0..<w]"
proof -
  have y: "b 1 mod 64 < 64" "b 2 mod 64 < 64" "b 3 mod 64 < 64" by simp_all
  from assms(1) show ?thesis
  proof (cases rule: decode_nat_cases)
    case 1: one
    then show ?thesis by (simp add: encode_nat_def)
  next
    case 2: two
    have x: "b 0 = 192 + b 0 mod 32" "b 0 mod 32 < 32"
      using lead_value [of 32 6 "b 0"] 2(1,2) by simp_all
    then have "2 \<le> b 0 mod 32"
      using 2(1) by linarith
    from encode_digits(1) [OF y(1,1,1) this x(2)] show ?thesis
      unfolding 2(4,5) lists_upto4 using x(1) cont_value [OF 2(3)] by (simp only:)
  next
    case 3: three
    have x: "b 0 = 224 + b 0 mod 16" "b 0 mod 16 < 16"
      using lead_value [of 16 14 "b 0"] 3(1,2) by simp_all
    have "0x800 \<le> u"
      using assms(2) 3(6) by (auto simp: bad_nat_def)
    then have "0x800 \<le> (b 0 mod 16 * 64 + b 1 mod 64) * 64 + b 2 mod 64"
      unfolding 3(5) .
    from encode_digits(2) [OF y(1,2,1) x(2) this] show ?thesis
      unfolding 3(5,6) lists_upto4 using x(1) cont_value [OF 3(3)] cont_value [OF 3(4)] by (simp only:)
  next
    case 4: four
    have x: "b 0 = 240 + b 0 mod 8"
      using lead_value [of 8 30 "b 0"] 4(1,2) by simp
    have "0x10000 \<le> u"
      using assms(2) 4(7) by (auto simp: bad_nat_def)
    then have "0x10000 \<le> ((b 0 mod 8 * 64 + b 1 mod 64) * 64 + b 2 mod 64) * 64 + b 3 mod 64"
      unfolding 4(6) .
    from encode_digits(3) [OF y this] show ?thesis
      unfolding 4(6,7) lists_upto4
      using x(1) cont_value [OF 4(3)] cont_value [OF 4(4)] cont_value [OF 4(5)] by (simp only:)
  qed
qed

lemma encode_then_decode:
  assumes "scalar u" "encode_nat u = map b [0..<w]"
  shows "decode_nat b = Some (u, w) \<and> \<not> bad_nat w u"
proof -
  have len: "w = length (encode_nat u)"
    using assms(2) by simp
  consider "u < 0x80" | "0x80 \<le> u" "u < 0x800" | "0x800 \<le> u" "u < 0x10000" | "0x10000 \<le> u" "u \<le> 0x10ffff"
    using assms(1) unfolding scalar_def by linarith
  then show ?thesis
  proof cases
    case 1
    then have "w = 1" "encode_nat u = [u]" using len by (simp_all add: encode_nat_def)
    then show ?thesis
      using 1 assms by (simp add: decode_nat_def lead_nat_def tail_nat_def bad_nat_def)
  next
    case 2
    then have w: "w = 2" and e: "encode_nat u = [192 + u div 64, 128 + u mod 64]"
      using len by (simp_all add: encode_nat_def)
    have b: "b 0 = 192 + u div 64" "b 1 = 128 + u mod 64"
      using assms(2) unfolding e w lists_upto4 by simp_all
    have r: "2 \<le> u div 64" "u div 64 < 32" using 2 by (simp_all add: less_mult_imp_div_less)
    have "decode_nat b = Some (u div 64 * 64 + u mod 64, 2)"
      unfolding decode_nat_def lead_nat_def tail_nat_def b using r by (simp add: byte_digits)
    then show ?thesis
      using assms(1) w by (simp add: bad_nat_def)
  next
    case 3
    then have w: "w = 3" and e: "encode_nat u = [224 + u div 4096, 128 + u div 64 mod 64, 128 + u mod 64]"
      using len by (simp_all add: encode_nat_def)
    have b: "b 0 = 224 + u div 4096" "b 1 = 128 + u div 64 mod 64" "b 2 = 128 + u mod 64"
      using assms(2) unfolding e w lists_upto4 by simp_all
    have r: "u div 4096 < 16" using 3 by (simp add: less_mult_imp_div_less)
    have "decode_nat b = Some ((u div 4096 * 64 + u div 64 mod 64) * 64 + u mod 64, 3)"
      unfolding decode_nat_def lead_nat_def tail_nat_def b using r by (simp add: byte_digits)
    moreover have "(u div 4096 * 64 + u div 64 mod 64) * 64 + u mod 64 = u"
      using div_mult2_eq [of u 64 64] by simp
    ultimately show ?thesis
      using assms(1) w 3 by (simp add: bad_nat_def)
  next
    case 4
    then have w: "w = 4" and e: "encode_nat u = [240 + u div 262144, 128 + u div 4096 mod 64, 128 + u div 64 mod 64, 128 + u mod 64]"
      using len by (simp_all add: encode_nat_def)
    have b: "b 0 = 240 + u div 262144" "b 1 = 128 + u div 4096 mod 64" "b 2 = 128 + u div 64 mod 64" "b 3 = 128 + u mod 64"
      using assms(2) unfolding e w lists_upto4 by simp_all
    have r: "u div 262144 < 5" using 4 by (simp add: less_mult_imp_div_less)
    have "decode_nat b = Some (((u div 262144 * 64 + u div 4096 mod 64) * 64 + u div 64 mod 64) * 64 + u mod 64, 4)"
      unfolding decode_nat_def lead_nat_def tail_nat_def b using r by (simp add: byte_digits)
    moreover have "((u div 262144 * 64 + u div 4096 mod 64) * 64 + u div 64 mod 64) * 64 + u mod 64 = u"
      using div_mult2_eq [of u 64 64] div_mult2_eq [of u 4096 64] by simp
    ultimately show ?thesis
      using assms(1) w 4 by (simp add: bad_nat_def)
  qed
qed

lemma digits_bound:
  fixes x y z v :: nat
  shows "x < 32 \<Longrightarrow> y < 64 \<Longrightarrow> x * 64 + y < 2097152"
    "x < 16 \<Longrightarrow> y < 64 \<Longrightarrow> z < 64 \<Longrightarrow> (x * 64 + y) * 64 + z < 2097152"
    "x < 8 \<Longrightarrow> y < 64 \<Longrightarrow> z < 64 \<Longrightarrow> v < 64 \<Longrightarrow> ((x * 64 + y) * 64 + z) * 64 + v < 2097152"
  by simp_all

lemma inj_unat8: "inj (unat :: u8 \<Rightarrow> nat)"
  by (simp add: inj_def word_unat_eq_iff)

lemma decode_nat_bound:
  assumes "decode_nat b = Some (u, w)"
  shows "u < 2097152"
  using assms
proof (cases rule: decode_nat_cases)
  case one
  then show ?thesis by simp
next
  case two
  then show ?thesis by (simp only: digits_bound mod_less_divisor zero_less_numeral)
next
  case three
  then show ?thesis by (simp only: digits_bound mod_less_divisor zero_less_numeral)
next
  case four
  then show ?thesis by (simp only: digits_bound mod_less_divisor zero_less_numeral)
qed

lemma utf8_bad_nat: "u < 2097152 \<Longrightarrow> utf8_bad w (of_nat u) \<longleftrightarrow> bad_nat w u"
  by (auto simp: utf8_bad_def bad_nat_def scalar_def word_less_nat_alt word_le_nat_alt unat_of_nat)

lemma lead_nat_cases:
  assumes "lead_nat l = Some (c, w)"
  shows "c < 32 \<or> w = 1" "w = 1 \<or> w = 2 \<or> w = 3 \<or> w = 4"
proof -
  have "l mod 32 < 32" "l mod 16 < 16" "l mod 8 < 8" by simp_all
  then show "c < 32 \<or> w = 1" "w = 1 \<or> w = 2 \<or> w = 3 \<or> w = 4"
    using assms by (auto simp: lead_nat_def simp del: mod_less_divisor split: if_splits)
qed

lemma utf8_lead_lead_nat: "utf8_lead x = map_option (\<lambda>(c, w). (of_nat c, w)) (lead_nat (unat x))"
  by (simp add: utf8_lead_unat lead_nat_def Let_def)

lemma utf8_fold_tail_nat:
  fixes m :: memory and p :: u64
  assumes "lead_nat l = Some (c, w)"
  shows "fold (\<lambda>i. utf8_step (m (p + of_nat i))) [1..<w] (Some (of_nat c)) =
    map_option of_nat (tail_nat (\<lambda>i. unat (m (p + of_nat i))) c w)"
proof (cases "w = 1")
  case True
  then show ?thesis by (simp add: tail_nat_def)
next
  case False
  then have "c < 32" "w = 2 \<or> w = 3 \<or> w = 4"
    using lead_nat_cases [OF assms] by auto
  then show ?thesis
    by (elim disjE) (simp_all only: utf8_fold_unat tail_nat_def, simp_all)
qed

lemma utf8_decode_unat:
  fixes m :: memory and p :: u64
  defines "b \<equiv> \<lambda>i. unat (m (p + of_nat i))"
  shows "utf8_decode p len m = Utf8_ok cp w \<longleftrightarrow>
    p \<noteq> 0 \<and> w \<le> unat len \<and> (\<exists>u. decode_nat b = Some (u, w) \<and> \<not> bad_nat w u \<and> cp = of_nat u)"
proof (cases "lead_nat (b 0)")
  case None
  then show ?thesis
    by (simp add: utf8_decode_def utf8_lead_lead_nat decode_nat_split b_def)
next
  case (Some lead)
  obtain c v where lead: "lead_nat (b 0) = Some (c, v)"
    using Some by (cases lead) simp
  have len: "len < of_nat v \<longleftrightarrow> \<not> v \<le> unat len" "v \<le> unat len \<Longrightarrow> len \<noteq> 0"
    using lead_nat_cases(2) [OF lead] by (auto simp: word_less_nat_alt unat_of_nat)
  have bad: "utf8_bad v (of_nat u) \<longleftrightarrow> bad_nat v u" if "tail_nat b c v = Some u" for u
    using decode_nat_bound [of b u v] lead that by (intro utf8_bad_nat) (simp add: decode_nat_split)
  have L: "utf8_lead (m p) = Some (of_nat c, v)"
    using lead by (simp add: utf8_lead_lead_nat b_def)
  have F: "fold (\<lambda>i. utf8_step (m (p + of_nat i))) [1..<v] (Some (of_nat c)) = map_option of_nat (tail_nat b c v)"
    unfolding b_def using utf8_fold_tail_nat [OF lead] .
  show ?thesis
    using len by (cases "tail_nat b c v")
      (auto simp: utf8_decode_def L F bad decode_nat_split lead simp del: One_nat_def)
qed

lemma utf8_decode_iff:
  "utf8_decode bytes len m = Utf8_ok cp w \<longleftrightarrow>
   bytes \<noteq> 0 \<and> w \<le> unat len \<and> utf8_encode 4 cp = Some (map (\<lambda>i. m (bytes + of_nat i)) [0..<w])"
proof -
  let ?b = "\<lambda>i. unat (m (bytes + of_nat i))" and ?bs = "map (\<lambda>i. m (bytes + of_nat i)) [0..<w]"
  have "(\<exists>u. decode_nat ?b = Some (u, w) \<and> \<not> bad_nat w u \<and> cp = of_nat u) \<longleftrightarrow>
      scalar (unat cp) \<and> encode_nat (unat cp) = map ?b [0..<w]" (is "?L \<longleftrightarrow> ?R")
  proof
    assume ?L
    then obtain u where u: "decode_nat ?b = Some (u, w)" "\<not> bad_nat w u" "cp = of_nat u" by blast
    then have "unat cp = u"
      using decode_nat_bound [OF u(1)] by (simp add: unat_of_nat)
    then show ?R
      using decode_then_encode [OF u(1,2)] u(2) by (simp add: bad_nat_def)
  next
    assume ?R
    then show ?L
      using encode_then_decode [of "unat cp" ?b w] by (intro exI [of _ "unat cp"]) simp
  qed
  also have "\<dots> \<longleftrightarrow> utf8_encode 4 cp = Some ?bs"
  proof
    assume r: "scalar (unat cp) \<and> encode_nat (unat cp) = map ?b [0..<w]"
    then obtain bs where bs: "utf8_encode 4 cp = Some bs"
      using utf8_encode_None [of 4 cp] by (cases "utf8_encode 4 cp") auto
    have "map unat bs = map unat ?bs"
      using utf8_encode_unat [OF bs] r by (simp add: comp_def)
    then have "bs = ?bs"
      by (simp only: inj_map_eq_map [OF inj_unat8])
    then show "utf8_encode 4 cp = Some ?bs"
      using bs by simp
  next
    assume "utf8_encode 4 cp = Some ?bs"
    from utf8_encode_unat [OF this] show "scalar (unat cp) \<and> encode_nat (unat cp) = map ?b [0..<w]"
      by (simp add: comp_def)
  qed
  finally show ?thesis
    by (simp add: utf8_decode_unat)
qed
text \<open>
  C29. The decoder accepts exactly what the encoder produces: \<^verbatim>\<open>utf8_decode\<close> returns the code
  point and width just when the bytes it read, all within the given length, are the encoding of
  that code point. So overlong forms, surrogates and values above U+10FFFF are rejected, and
  encoding followed by decoding is the identity.
\<close>

theorem utf8_decode_exact:
  "utf8_decode bytes len m = Utf8_ok cp w \<longleftrightarrow>
   bytes \<noteq> 0 \<and> w \<le> unat len \<and> utf8_encode 4 cp = Some (map (\<lambda>i. m (bytes + of_nat i)) [0..<w])"
  by (rule utf8_decode_iff)

section \<open>Round trip of strings\<close>

definition utf8_string :: "u32 list \<Rightarrow> u8 list" where
  "utf8_string cs = concat (map (\<lambda>c. the (utf8_encode 4 c)) cs)"

lemma utf8_encode_nz:
  assumes "utf8_encode cur c = Some bs" "c \<noteq> 0"
  shows "0 \<notin> set bs" "bs \<noteq> []" "length bs \<le> 4"
proof -
  have e: "map unat bs = encode_nat (unat c)"
    by (rule utf8_encode_unat [OF assms(1)])
  have "unat c \<noteq> 0"
    using assms(2) by (simp add: unat_eq_0)
  then have "0 \<notin> set (map unat bs)"
    unfolding e by (auto simp: encode_nat_def)
  then show "0 \<notin> set bs"
    by (metis imageI list.set_map unat_0)
  have "length bs = length (encode_nat (unat c))"
    by (metis e length_map)
  moreover have "length (encode_nat (unat c)) \<in> {1, 2, 3, 4}"
    by (simp add: encode_nat_def)
  ultimately show "bs \<noteq> []" "length bs \<le> 4"
    by auto
qed

lemma store_bytes_append:
  "store_bytes p (xs @ ys) m = store_bytes (p + of_nat (length xs)) ys (store_bytes p xs m)"
  by (induction xs arbitrary: p m) (simp_all add: add.assoc)

lemma store_bytes_other:
  assumes "\<And>i. i < length bs \<Longrightarrow> a \<noteq> p + of_nat i"
  shows "store_bytes p bs m a = m a"
  using assms
proof (induction bs arbitrary: p m)
  case (Cons b bs)
  have "a \<noteq> p"
    using Cons.prems [of 0] by simp
  moreover have "a \<noteq> p + 1 + of_nat i" if "i < length bs" for i
    using Cons.prems [of "Suc i"] that by (simp add: add.assoc)
  ultimately show ?case
    using Cons.IH [of "p + 1"] by simp
qed simp

lemma store_bytes_nth:
  assumes "length bs < 2 ^ 64" "i < length bs"
  shows "store_bytes p bs m (p + of_nat i) = bs ! i"
  using assms
proof (induction bs arbitrary: p m i)
  case (Cons b bs)
  show ?case
  proof (cases i)
    case 0
    have "p \<noteq> p + 1 + of_nat j" if "j < length bs" for j
      using of_nat64_cancel [of 0 "Suc j" p] Cons.prems that by (simp add: add.assoc)
    then show ?thesis
      using 0 store_bytes_other [of bs p "p + 1"] by simp
  next
    case (Suc j)
    then show ?thesis
      using Cons.IH [of j "p + 1"] Cons.prems by (simp add: add.assoc)
  qed
qed simp

lemma store_bytes_cstring:
  assumes "length bs + 1 < 2 ^ 64" "0 \<notin> set bs"
  shows "cstring ((store_bytes p bs m)(p + of_nat (length bs) := 0)) p bs"
proof (rule cstring_intro)
  show "((store_bytes p bs m)(p + of_nat (length bs) := 0)) (p + of_nat i) = bs ! i" if "i < length bs" for i
    using that assms of_nat64_cancel [of i "length bs" p] store_bytes_nth [of bs i p m] by auto
qed (use assms in simp_all)


lemma utf8_string_Cons:
  "utf8_encode 4 c = Some e \<Longrightarrow> utf8_string (c # cs) = e @ utf8_string cs"
  by (simp add: utf8_string_def)

lemma wcstombs_loop_stores:
  assumes "cstring w (wide + input) cs" "\<forall>c \<in> set cs. utf8_encode 4 c \<noteq> None" "multibyte \<noteq> 0"
    "unat out + length (utf8_string cs) < unat count"
  shows "wcstombs_loop 4 multibyte wide count w input out m =
    Some (out + of_nat (length (utf8_string cs)),
      (store_bytes (multibyte + out) (utf8_string cs) m)
        (multibyte + out + of_nat (length (utf8_string cs)) := 0))"
  using assms
proof (induction cs arbitrary: input out m)
  case Nil
  then show ?case
    by (subst wcstombs_loop.simps) (simp add: utf8_string_def word_less_nat_alt)
next
  case (Cons c cs)
  obtain e where e: "utf8_encode 4 c = Some e"
    using Cons.prems(2) by auto
  have bound: "unat out + length e + length (utf8_string cs) < unat count"
    using Cons.prems(4) by (simp add: utf8_string_Cons [OF e])
  have le: "length e \<le> 4"
    using utf8_encode_nz [OF e] Cons.prems(1) by auto
  have out: "unat (out + of_nat (length e)) = unat out + length e"
    using bound unat_lt_max64 [of count] le by (simp add: unat_add_below unat_of_nat64)
  have "wcstombs_loop 4 multibyte wide count w (input + 1) (out + of_nat (length e))
      (store_bytes (multibyte + out) e m) =
    Some (out + of_nat (length e) + of_nat (length (utf8_string cs)),
      (store_bytes (multibyte + (out + of_nat (length e))) (utf8_string cs) (store_bytes (multibyte + out) e m))
        (multibyte + (out + of_nat (length e)) + of_nat (length (utf8_string cs)) := 0))"
    by (rule Cons.IH) (use Cons.prems bound out in \<open>simp_all add: add.assoc\<close>)
  moreover have "\<not> out + of_nat (length e) > count"
    using bound out by (simp add: word_less_nat_alt)
  ultimately show ?case
    using Cons.prems(1,3) e
    by (subst wcstombs_loop.simps) (simp add: utf8_string_Cons [OF e] store_bytes_append add.assoc Let_def)
qed

lemma max_word_u64: "unat (-1 :: u64) = 18446744073709551615"
  by (simp add: unsigned_minus_1_eq_mask mask_eq_exp_minus_1)

lemma mbrtowc_encoded:
  assumes "cstring m p (e @ rest)" "utf8_encode 4 c = Some e" "c \<noteq> 0" "p \<noteq> 0"
  shows "mbrtowc 4 p (of_nat (length (e @ rest))) None m = (of_nat (length e), Some c, None)"
proof -
  have "length (e @ rest) < 2 ^ 64"
    by (rule cstring_length [OF assms(1)])
  then have len: "unat (of_nat (length (e @ rest)) :: u64) = length (e @ rest)"
    by (rule unat_of_nat64)
  have "e = map (\<lambda>i. m (p + of_nat i)) [0..<length e]"
    using cstring_nth [OF assms(1)] by (intro nth_equalityI) (simp_all add: nth_append)
  then have "utf8_decode p (of_nat (length (e @ rest))) m = Utf8_ok c (length e)"
    using assms(2,4) len by (simp add: utf8_decode_iff)
  then show ?thesis
    using assms(3,4) by (simp add: mbrtowc_def)
qed

lemma mbstowcs_loop_stores:
  assumes "cstring m (multibyte + input) (utf8_string cs)" "\<forall>c \<in> set cs. c \<noteq> 0 \<and> utf8_encode 4 c \<noteq> None"
    "wide \<noteq> 0" "unat out + length cs < unat count"
    "multibyte \<noteq> 0" "unat multibyte + unat input + length (utf8_string cs) < 2 ^ 64"
  shows "mbstowcs_loop 4 wide multibyte count m input out w =
    Some (out + of_nat (length cs), (store_bytes (wide + out) cs w)(wide + out + of_nat (length cs) := 0))"
  using assms
proof (induction cs arbitrary: input out w)
  case Nil
  then show ?case
    by (subst mbstowcs_loop.simps) (simp add: utf8_string_def word_less_nat_alt)
next
  case (Cons c cs)
  obtain e where e: "utf8_encode 4 c = Some e" and c: "c \<noteq> 0"
    using Cons.prems(2) by auto
  note ne = utf8_encode_nz [OF e c]
  have str: "cstring m (multibyte + input) (e @ utf8_string cs)"
    using Cons.prems(1) by (simp add: utf8_string_Cons [OF e])
  have bound: "unat multibyte + unat input + length e + length (utf8_string cs) < 2 ^ 64"
    using Cons.prems(6) by (simp add: utf8_string_Cons [OF e])
  have pos: "unat (multibyte + input) = unat multibyte + unat input"
    using bound by (simp add: unat_add_below)
  then have nz: "multibyte + input \<noteq> 0"
    using Cons.prems(5) by (metis add_is_0 unat_0 unat_eq_0)
  have first: "m (multibyte + input) \<noteq> 0"
    using str ne by (cases e) auto
  have inp: "unat (input + of_nat (length e)) = unat input + length e"
    using bound by (simp add: unat_add_below unat_of_nat64)
  have out: "unat (out + 1) = unat out + 1"
    using Cons.prems(4) unat_lt_max64 [of count] by (intro unat_inc_bounded) simp
  have "mbstowcs_loop 4 wide multibyte count m (input + of_nat (length e)) (out + 1) (w(wide + out := c)) =
    Some (out + 1 + of_nat (length cs),
      (store_bytes (wide + (out + 1)) cs (w(wide + out := c)))(wide + (out + 1) + of_nat (length cs) := 0))"
  proof (rule Cons.IH)
    show "cstring m (multibyte + (input + of_nat (length e))) (utf8_string cs)"
      using cstring_drop [OF str, of "length e"] by (simp add: add.assoc)
  qed (use Cons.prems(2-5) bound inp out in simp_all)
  moreover have "\<not> out \<ge> count"
    using Cons.prems(4) by (simp add: word_le_nat_alt)
  moreover have "of_nat (length e) \<noteq> (-1 :: u64)" "of_nat (length e) \<noteq> (-2 :: u64)"
    using ne(3) unat_of_nat64 [of "length e"] max_word_u64 by (auto simp: word_unat_eq_iff)
  ultimately show ?case
    using first Cons.prems(3) strlen_cstring [OF str] mbrtowc_encoded [OF str e c nz]
    by (subst mbstowcs_loop.simps) (simp add: Let_def add.assoc)
qed

text \<open>
  C30. Converting a wide string to multibyte and back is the identity: if every character is
  encodable and both buffers have room, \<^verbatim>\<open>wcstombs\<close> returns the number of bytes and leaves the
  terminated encoding, and \<^verbatim>\<open>mbstowcs\<close> on it returns the number of characters and leaves the
  original terminated wide string.
\<close>

theorem wide_string_roundtrip:
  assumes "cstring w wide cs" and "\<forall>c \<in> set cs. utf8_encode 4 c \<noteq> None"
    and "wide \<noteq> 0" and "multibyte \<noteq> 0" and "dest \<noteq> 0"
    and "length (utf8_string cs) < unat count" and "length cs < unat wcount"
    and "unat multibyte + length (utf8_string cs) < 2 ^ 64"
  shows "\<exists>m' w'. wcstombs 4 multibyte wide count w m = Some (of_nat (length (utf8_string cs)), m') \<and>
    cstring m' multibyte (utf8_string cs) \<and>
    mbstowcs 4 dest multibyte wcount m' w0 = Some (of_nat (length cs), w') \<and> cstring w' dest cs"
proof -
  let ?bs = "utf8_string cs"
  define m' where "m' = (store_bytes multibyte ?bs m)(multibyte + of_nat (length ?bs) := 0)"
  have cs: "\<forall>c \<in> set cs. c \<noteq> 0 \<and> utf8_encode 4 c \<noteq> None"
    using assms(2) cstring_no_zero [OF assms(1)] by auto
  have "0 \<notin> set ?bs"
    using cs utf8_encode_nz(1) by (fastforce simp: utf8_string_def)
  then have str: "cstring m' multibyte ?bs"
    unfolding m'_def using assms(6) unat_lt_max64 [of count] by (intro store_bytes_cstring) simp_all
  have "wcstombs 4 multibyte wide count w m = Some (of_nat (length ?bs), m')"
    using wcstombs_loop_stores [of w wide 0 cs multibyte 0 count m] assms by (simp add: wcstombs_def m'_def)
  moreover have "mbstowcs 4 dest multibyte wcount m' w0 =
      Some (of_nat (length cs), (store_bytes dest cs w0)(dest + of_nat (length cs) := 0))"
    using mbstowcs_loop_stores [of m' multibyte 0 cs dest 0 wcount w0] str cs assms by (simp add: mbstowcs_def)
  moreover have "cstring ((store_bytes dest cs w0)(dest + of_nat (length cs) := 0)) dest cs"
    using assms(7) unat_lt_max64 [of wcount] cstring_no_zero [OF assms(1)] by (intro store_bytes_cstring) simp_all
  ultimately show ?thesis
    using str by blast
qed

theorem wide_string_roundtrip_witness:
  "\<exists>m' w'. wcstombs 4 0x1000 0x10 64 ((\<lambda>_. 0)(0x10 := 0xe9, 0x11 := 0x20ac)) (\<lambda>_. 0) = Some (5, m') \<and>
    mbstowcs 4 0x20 0x1000 16 m' (\<lambda>_. 0) = Some (2, w') \<and> cstring w' 0x20 [0xe9, 0x20ac]"
proof -
  have e: "utf8_encode 4 0xe9 = Some [0xc3, 0xa9]" "utf8_encode 4 0x20ac = Some [0xe2, 0x82, 0xac]"
    by (simp_all add: utf8_encode_def)
  then have "utf8_string [0xe9, 0x20ac] = [0xc3, 0xa9, 0xe2, 0x82, 0xac]"
    by (simp add: utf8_string_def)
  then show ?thesis
    using wide_string_roundtrip [of "(\<lambda>_. 0)(0x10 := 0xe9, 0x11 := 0x20ac)" 16 "[0xe9, 0x20ac]" 4096 32 64 16
        "\<lambda>_. 0" "\<lambda>_. 0"] e
    by simp blast
qed

end
