(* ===== verification/Fnmatch.thy ===== *)
theory Fnmatch
  imports Prelude
begin

unbundle bit_operations_syntax

text \<open>
  Shell pattern matching, \<^verbatim>\<open>fnmatch\<close> of \<^verbatim>\<open>userspace/libc/src/string.c\<close>: a dynamic program that
  keeps, for the pattern read so far, which prefixes of the string it matches. The pattern and
  the string are the bytes before their terminators; a cursor into the pattern is the rest of
  it. The two rows are arrays of flags that are swapped after every token.
\<close>

section \<open>The code\<close>

definition FNM_NOMATCH :: int where "FNM_NOMATCH = 1"
definition FNM_PATHNAME :: u32 where "FNM_PATHNAME = 0x01"
definition FNM_NOESCAPE :: u32 where "FNM_NOESCAPE = 0x02"
definition FNM_PERIOD :: u32 where "FNM_PERIOD = 0x04"
definition FNM_LEADING_DIR :: u32 where "FNM_LEADING_DIR = 0x08"
definition FNM_CASEFOLD :: u32 where "FNM_CASEFOLD = 0x10"

definition has_flag :: "u32 \<Rightarrow> u32 \<Rightarrow> bool" where
  "has_flag flags f \<longleftrightarrow> flags AND f \<noteq> 0"

text \<open>\<^verbatim>\<open>*cursor\<close>: the terminator at the end.\<close>

definition peek :: "u8 list \<Rightarrow> u8" where
  "peek cursor = (case cursor of [] \<Rightarrow> 0 | c # _ \<Rightarrow> c)"

definition fnmatch_fold :: "u8 \<Rightarrow> u32 \<Rightarrow> u8" where
  "fnmatch_fold v flags = (if has_flag flags FNM_CASEFOLD \<and> v \<ge> 65 \<and> v \<le> 90 then v + 32 else v)"

definition fnmatch_component_start :: "u8 list \<Rightarrow> nat \<Rightarrow> u32 \<Rightarrow> bool" where
  "fnmatch_component_start str index flags \<longleftrightarrow>
     index = 0 \<or> (has_flag flags FNM_PATHNAME \<and> str ! (index - 1) = 47)"

text \<open>One character of a bracket expression, after an escape if escapes are on.\<close>

definition bracket_char :: "u32 \<Rightarrow> u8 list \<Rightarrow> u8 \<times> u8 list" where
  "bracket_char flags cursor =
     (let first = peek cursor; cursor = tl cursor in
      if first = 92 \<and> \<not> has_flag flags FNM_NOESCAPE \<and> peek cursor \<noteq> 0
      then (peek cursor, tl cursor) else (first, cursor))"

lemma bracket_char_shorter: "peek cursor \<noteq> 0 \<Longrightarrow> length (snd (bracket_char flags cursor)) < length cursor"
  by (cases cursor) (auto simp: bracket_char_def peek_def Let_def)

lemma bracket_range_shorter:
  assumes "peek cursor \<noteq> 0" "peek (tl (snd (bracket_char flags cursor))) \<noteq> 0"
  shows "length (snd (bracket_char flags (tl (snd (bracket_char flags cursor))))) < length cursor"
  using bracket_char_shorter [OF assms(1), of flags] bracket_char_shorter [OF assms(2), of flags] by simp

function bracket_loop :: "u32 \<Rightarrow> u8 \<Rightarrow> u8 list \<Rightarrow> bool \<Rightarrow> bool \<Rightarrow> u8 list \<times> bool \<times> bool" where
  "bracket_loop flags v cursor matched has_element =
     (if peek cursor \<noteq> 0 \<and> peek cursor \<noteq> 93 then
        let fc = bracket_char flags cursor; folded_first = fnmatch_fold (fst fc) flags; cursor' = snd fc in
        if peek cursor' = 45 \<and> peek (tl cursor') \<noteq> 0 \<and> peek (tl cursor') \<noteq> 93 then
          let lc = bracket_char flags (tl cursor'); folded_last = fnmatch_fold (fst lc) flags;
              folded_value = fnmatch_fold v flags in
          bracket_loop flags v (snd lc)
            (matched \<or> (folded_first \<le> folded_last \<and> folded_value \<ge> folded_first \<and> folded_value \<le> folded_last)) True
        else bracket_loop flags v cursor' (matched \<or> folded_first = fnmatch_fold v flags) True
      else (cursor, matched, has_element))"
  by pat_completeness auto
termination
  by (relation "measure (\<lambda>(flags, v, cursor, _). length cursor)")
    (auto simp: bracket_char_shorter bracket_range_shorter)

declare bracket_loop.simps [simp del]

text \<open>
  \<open>cursor\<close> is the pattern after the opening bracket. The result is whether the value matches
  and, if the expression is well formed, the pattern after it.
\<close>

definition fnmatch_bracket :: "u8 list \<Rightarrow> u8 \<Rightarrow> u32 \<Rightarrow> bool \<times> u8 list option" where
  "fnmatch_bracket cursor v flags =
     (let negate = (peek cursor = 33 \<or> peek cursor = 94);
          cursor = (if negate then tl cursor else cursor);
          literal = (peek cursor = 93);
          matched = (literal \<and> v = 93);
          cursor = (if literal then tl cursor else cursor);
          (cursor, matched, has_element) = bracket_loop flags v cursor matched literal in
      if peek cursor \<noteq> 93 \<or> \<not> has_element then (False, None)
      else (if negate then \<not> matched else matched, Some (tl cursor)))"

definition may_consume :: "u32 \<Rightarrow> u8 list \<Rightarrow> nat \<Rightarrow> bool" where
  "may_consume flags str i \<longleftrightarrow>
     \<not> (has_flag flags FNM_PATHNAME \<and> str ! i = 47) \<and>
     \<not> (has_flag flags FNM_PERIOD \<and> str ! i = 46 \<and> fnmatch_component_start str i flags)"

definition star_row :: "u32 \<Rightarrow> u8 list \<Rightarrow> (nat \<Rightarrow> bool) \<Rightarrow> (nat \<Rightarrow> bool) \<Rightarrow> nat \<Rightarrow> bool" where
  "star_row flags str previous current =
     fold (\<lambda>index current. current(index := previous index \<or> (current (index - 1) \<and> may_consume flags str (index - 1))))
       [1..<Suc (length str)] (current(0 := previous 0))"

definition token_row :: "u32 \<Rightarrow> u8 list \<Rightarrow> bool \<Rightarrow> (u8 \<Rightarrow> bool) \<Rightarrow> (nat \<Rightarrow> bool) \<Rightarrow> (nat \<Rightarrow> bool) \<Rightarrow> nat \<Rightarrow> bool" where
  "token_row flags str wildcard token_matches previous current =
     fold (\<lambda>index current.
         let character = str ! (index - 1);
             wildcard_period = (wildcard \<and> character = 46 \<and> has_flag flags FNM_PERIOD \<and>
               fnmatch_component_start str (index - 1) flags) in
         current(index := previous (index - 1) \<and> token_matches character \<and> \<not> wildcard_period \<and>
           \<not> (has_flag flags FNM_PATHNAME \<and> wildcard \<and> character = 47)))
       [1..<Suc (length str)] (current(0 := False))"

lemma bracket_loop_shorter:
  "bracket_loop flags v cursor matched has_element = (rest, r) \<Longrightarrow> length rest \<le> length cursor"
proof (induction flags v cursor matched has_element rule: bracket_loop.induct)
  case (1 flags v cursor matched has_element)
  let ?c = "snd (bracket_char flags cursor)" and ?l = "snd (bracket_char flags (tl (snd (bracket_char flags cursor))))"
  consider "peek cursor = 0 \<or> peek cursor = 93"
    | "peek cursor \<noteq> 0 \<and> peek cursor \<noteq> 93" "peek ?c = 45 \<and> peek (tl ?c) \<noteq> 0 \<and> peek (tl ?c) \<noteq> 93"
    | "peek cursor \<noteq> 0 \<and> peek cursor \<noteq> 93" "\<not> (peek ?c = 45 \<and> peek (tl ?c) \<noteq> 0 \<and> peek (tl ?c) \<noteq> 93)"
    by blast
  then show ?case
  proof cases
    case 1
    with \<open>bracket_loop flags v cursor matched has_element = (rest, r)\<close> show ?thesis
      by (subst (asm) bracket_loop.simps) auto
  next
    case 2
    have "length rest \<le> length ?l"
      by (rule "1.IH"(1) [OF 2(1) refl refl refl 2(2) refl refl refl])
        (use "1.prems" 2 in \<open>subst (asm) bracket_loop.simps, simp add: Let_def\<close>)
    then show ?thesis
      using bracket_range_shorter [of cursor flags] 2 by simp
  next
    case 3
    have "length rest \<le> length ?c"
      by (rule "1.IH"(2) [OF 3(1) refl refl refl 3(2)])
        (use "1.prems" 3 in \<open>subst (asm) bracket_loop.simps, simp add: Let_def\<close>)
    then show ?thesis
      using bracket_char_shorter [of cursor flags] 3 by simp
  qed
qed

lemma fnmatch_bracket_shorter:
  "fnmatch_bracket cursor v flags = (r, Some rest) \<Longrightarrow> length rest \<le> length cursor"
  by (auto simp: fnmatch_bracket_def Let_def split: prod.splits if_splits dest!: bracket_loop_shorter)

lemma bracket_rest_shorter:
  "snd (fnmatch_bracket cursor v flags) = Some rest \<Longrightarrow> length rest \<le> length cursor"
  using fnmatch_bracket_shorter by (metis prod.collapse)

text \<open>The loop over the pattern; the result is the row \<open>previous\<close> at the end.\<close>

function fnmatch_loop :: "u32 \<Rightarrow> u8 list \<Rightarrow> u8 list \<Rightarrow> (nat \<Rightarrow> bool) \<Rightarrow> (nat \<Rightarrow> bool) \<Rightarrow> nat \<Rightarrow> bool" where
  "fnmatch_loop flags str [] previous current = previous"
| "fnmatch_loop flags str (token # cursor) previous current =
     (if token = 42 then
        fnmatch_loop flags str (dropWhile (\<lambda>c. c = 42) cursor) (star_row flags str previous current) previous
      else
        let bracket = (if token = 91 then snd (fnmatch_bracket cursor 0 flags) else None);
            bracket_valid = (bracket \<noteq> None);
            token_is_question = (token = 63);
            escaped = (token = 92 \<and> \<not> has_flag flags FNM_NOESCAPE \<and> peek cursor \<noteq> 0);
            token' = (if escaped then peek cursor else token);
            cursor' = (if escaped then tl cursor else cursor);
            token_is_question = (token_is_question \<and> \<not> escaped);
            token_matches = (\<lambda>character.
              if bracket_valid then fst (fnmatch_bracket cursor character flags)
              else fnmatch_fold token' flags = fnmatch_fold character flags)
        in fnmatch_loop flags str (case bracket of Some after_token \<Rightarrow> after_token | None \<Rightarrow> cursor')
             (token_row flags str (bracket_valid \<or> token_is_question) token_matches previous current) previous)"
  by pat_completeness auto
termination
  by (relation "measure (\<lambda>(flags, str, cursor, _). length cursor)")
    (auto simp: length_dropWhile_le le_imp_less_Suc less_Suc_eq_le split: option.split dest: bracket_rest_shorter)

declare fnmatch_loop.simps(2) [simp del]

text \<open>
  \<open>rows\<close> is \<^const>\<open>None\<close> if one of the two rows could not be allocated, and otherwise what
  the row \<open>current\<close> holds before it is written. A null pattern or string is \<^const>\<open>None\<close>.
\<close>

definition fnmatch :: "(nat \<Rightarrow> bool) option \<Rightarrow> u8 list option \<Rightarrow> u8 list option \<Rightarrow> u32 \<Rightarrow> int" where
  "fnmatch rows pattern str flags =
     (case (pattern, str) of
        (Some pattern, Some str) \<Rightarrow>
          if length str = 2 ^ 64 - 1 then FNM_NOMATCH
          else
            case rows of
              None \<Rightarrow> FNM_NOMATCH
            | Some current \<Rightarrow>
                let previous = fnmatch_loop flags str pattern ((\<lambda>_. False)(0 := True)) current;
                    matched = previous (length str);
                    matched = (matched \<or> (has_flag flags FNM_LEADING_DIR \<and>
                      find_from (\<lambda>index. str ! index = 47 \<and> previous index) 0 (length str) \<noteq> None))
                in if matched then 0 else FNM_NOMATCH
      | _ \<Rightarrow> FNM_NOMATCH)"

section \<open>What a pattern means\<close>






section \<open>The rows\<close>









text \<open>
  C39. An unescaped question mark is not a wildcard in this implementation: the pattern
  consisting of one question mark matches the one-character string \<open>c\<close> only if \<open>c\<close> is itself a
  question mark, although the code marks the token as a wildcard.
\<close>

theorem fnmatch_question_not_wildcard:
  "fnmatch (Some garbage) (Some [63]) (Some [c]) 0 = 0 \<longleftrightarrow> c = 63"
  by (auto simp: fnmatch_def fnmatch_loop.simps(2) token_row_def has_flag_def fnmatch_fold_def FNM_NOMATCH_def)

end
