(* ===== verification/Spec2Isabelle.thy ===== *)
theory Spec2Isabelle
  imports Prelude Physical Physical_Refs Virtual Virtual_Walk Virtual_Map Virtual_Split Heap
    Page_Cache Buf_Cache User_Copy Base_Codecs C_Memory C_String C_Sort C_Number Errno C_Time C_Calendar Kernel_Time Threads Scheduler Futex Futex_Wake Eventfd Mutex Wide_String
    Fnmatch
begin

text \<open>
  A verification development for the operating system akaOS: parts of its kernel \<^verbatim>\<open>xscore\<close>, of its C library and of its
  programs. The definitions are translated function by function from the C sources under \<^verbatim>\<open>src/\<close> and keep their names; the
  x86-64 build is the one modelled.

  \<^bold>\<open>How C is read.\<close> Machine integers are words of their width (\<^theory_text>\<open>Prelude\<close>), arrays of constant size are functions on the natural
  numbers, structures are records, static variables are fields of a state record that every operation takes and returns. Null
  pointers are \<open>0\<close> or \<^const>\<open>None\<close>, error returns are values of a sum type over the error numbers of \<^theory_text>\<open>Errno\<close>. Searches with an early exit
  are \<open>find_from\<close>, counted loops are folds over the range of the counter, and a loop that might not end is a partial function
  into an option, with lemmas that it returns; no fuel is used. Code outside the sources, and devices, are arguments with their documented
  behaviour as named hypotheses (\<open>device_ok\<close> of the block device, \<open>fault_keeps\<close> of the page-fault handler, the order of a comparison function), and
  each such property has a concrete instance. Spin locks are not state: a critical section is one definition, and where
  several processors or threads interleave, the critical sections are the steps of a relation.

  \<^bold>\<open>Memory of the kernel\<close> (\<^verbatim>\<open>xscore/memory\<close>).
  \<^item> \<^theory_text>\<open>Physical\<close>, \<^theory_text>\<open>Physical_Refs\<close>: \<^verbatim>\<open>physical.c\<close>, the page bitmap and the table of reference counts. Allocation takes the lowest
    free page, freeing refuses invalid, free and shared pages, a shared page lives until its last reference is dropped, and
    start-up frees conventional memory only. The locale \<open>page_allocator\<close> is the contract the page tables rely on.
  \<^item> \<^theory_text>\<open>Virtual\<close>, \<^theory_text>\<open>Virtual_Walk\<close>, \<^theory_text>\<open>Virtual_Map\<close>, \<^theory_text>\<open>Virtual_Split\<close>: \<^verbatim>\<open>virtual.c\<close> over that allocator. The invariant is the forest of tables;
    mapping and unmapping change one translation and no other, a new address space shares the kernel half only, and splitting
    a large page does not change what the processor computes.
  \<^item> \<^theory_text>\<open>Heap\<close>: \<^verbatim>\<open>heap.c\<close> over the page tables, refined to a list of live blocks that are disjoint and are freed exactly once.

  \<^bold>\<open>Kernel services\<close> (\<^verbatim>\<open>xscore/kernel\<close>).
  \<^item> \<^theory_text>\<open>Page_Cache\<close>, \<^theory_text>\<open>Buf_Cache\<close>: \<^verbatim>\<open>page_cache.c\<close> and \<^verbatim>\<open>bufcache.c\<close>. A cache may forget but never lies (locale \<open>forgetful_store\<close>); the
    sector cache and the device together hold the last data written, except after a failed write-back, which is a defect.
  \<^item> \<^theory_text>\<open>User_Copy\<close>: \<^verbatim>\<open>usercopy.c\<close> over the page tables and the byte store. Copies touch pages only that the user may access.
  \<^item> \<^theory_text>\<open>Kernel_Time\<close>: \<^verbatim>\<open>time.c\<close>; the seconds computed from the battery clock agree with the calendar of the C library.
  \<^item> \<^theory_text>\<open>Threads\<close>, \<^theory_text>\<open>Scheduler\<close>: \<^verbatim>\<open>thread.c\<close>. The first theory is the code, the second the step relation of the processors, its
    invariant, and the bound of the round robin.
  \<^item> \<^theory_text>\<open>Futex\<close>, \<^theory_text>\<open>Futex_Wake\<close>: the futex call of \<^verbatim>\<open>syscall.c\<close> and the timer interrupt of \<^verbatim>\<open>sched.c\<close>, over threads, user memory
    and the page records of \<^verbatim>\<open>process.c\<close>. No wake is lost between registering and blocking, a wake reaches as many waiters as it may,
    and timeouts are rounded up and saturate.

  \<^bold>\<open>C library\<close> (\<^verbatim>\<open>userspace/libc/src\<close>).
  \<^item> \<^theory_text>\<open>C_Memory\<close>, \<^theory_text>\<open>C_String\<close>, \<^theory_text>\<open>Wide_String\<close>, \<^theory_text>\<open>Fnmatch\<close>, \<^theory_text>\<open>Errno\<close>: \<^verbatim>\<open>string.c\<close> on a byte store, with the copy routines of the kernel. Copies
    handle every overlap, the string functions return on terminated strings, the UTF-8 codec is exact, and the pattern matcher
    decides the meaning of patterns.
  \<^item> \<^theory_text>\<open>C_Sort\<close>: sorting and searching of \<^verbatim>\<open>stdlib.c\<close>, by refinement to a heap sort on indices.
  \<^item> \<^theory_text>\<open>C_Number\<close>: the number parsers of \<^verbatim>\<open>malloc.c\<close>, which saturate.
  \<^item> \<^theory_text>\<open>C_Time\<close>, \<^theory_text>\<open>C_Calendar\<close>: \<^verbatim>\<open>time.c\<close>; calendar dates and seconds are inverse for every second count the round trip admits.
  \<^item> \<^theory_text>\<open>Eventfd\<close>: \<^verbatim>\<open>eventfd.c\<close>; reference counts are exact and counts written are counts read.
  \<^item> \<^theory_text>\<open>Mutex\<close>: the mutexes of \<^verbatim>\<open>pthread.c\<close>, access by access over the contract of the futex; mutual exclusion, and nobody is left asleep
    on a free mutex.

  \<^bold>\<open>Programs\<close> (\<^verbatim>\<open>userspace/bin\<close>). \<^theory_text>\<open>Base_Codecs\<close>: \<^verbatim>\<open>base64\<close> and \<^verbatim>\<open>base32\<close>, two interpretations of the locale \<open>block_codec\<close>.

  \<^bold>\<open>Bounds.\<close> Table sizes are those of the code: 64 threads and futex waiters, 16 processors, 2048 cached pages, 64 sector
  buffers, 32 event objects. Thread numbers are assumed not to wrap around 64 bits. In the scheduler a thread block is reaped only
  when no processor runs on it; the code does not test this, which is stated as a defect. In the futex system a
  thread in the middle of a wait neither blocks elsewhere nor exits.

  \<^bold>\<open>Not modelled.\<close> Processes, program loading and signals, the file systems, sockets and the network, the terminal, and the dispatch
  of system calls depend on each other and on devices, and none of them can be modelled faithfully without the rest. Drivers, the boot loader
  and the code of the processor ports are assembly and device registers. Saved registers and floating-point state of threads are
  left out, so a context switch is a change of the current thread. Of the C library, streams and wrappers of system
  calls, the allocator, regular expressions, dynamic loading, \<^verbatim>\<open>strftime\<close>, and the conditions, barriers and semaphores are
  left out, and the mathematics is floating point. The other programs, the display servers and the build tools are input and output around
  libraries.
\<close>

end
